(* ===== verification/Prelude.thy ===== *)
theory Prelude
  imports Main "HOL-Library.Word"
begin

text \<open>
  Shared vocabulary of the development: the C integer types as words, the compile-time
  configuration of the Makefile, big-endian values of byte strings, and the generic lemmas on
  words and lists that the component theories use.
\<close>

unbundle bit_operations_syntax

section \<open>C integer types\<close>

type_synonym u8 = "8 word"
type_synonym u16 = "16 word"
type_synonym u32 = "32 word"
type_synonym u64 = "64 word"

text \<open>\<open>CHAR16\<close> of the UEFI headers (the build uses \<open>-fshort-wchar\<close>).\<close>
type_synonym char16 = "16 word"

section \<open>Compile-time configuration\<close>

text \<open>
  The preprocessor symbols the sources test. \<open>COUNT_XED_VS_CPU_MISMATCHES\<close> is always defined
  (the enumeration's last case refers to a counter that exists only under it), and
  \<open>SAVE_REGS_ON_EXCEPTION\<close> only adds fields to the exception context that no C code reads.
\<close>

datatype cpu_mode = Mode64 | Mode32 | Mode16

record build =
  cpu_mode :: cpu_mode
  count_retired :: bool
  count_nops :: bool
  count_idq :: bool
  no_save :: bool
  trace_remap :: bool

definition makefile_build :: "cpu_mode \<Rightarrow> build" where
  "makefile_build m = \<lparr>cpu_mode = m, count_retired = True, count_nops = False,
     count_idq = False, no_save = False, trace_remap = True\<rparr>"

section \<open>Fact collections\<close>

named_theorems run_simps \<open>how sequenced effects evaluate\<close>
named_theorems bytes_simps \<open>facts on byte lists of known length\<close>

section \<open>Words\<close>

lemma word_ne_max_plus_one:
  fixes b :: u8
  assumes "b \<noteq> 0xff"
  shows "unat (b + 1) = unat b + 1"
proof -
  have "b + 1 \<noteq> 0"
  proof
    assume "b + 1 = 0"
    then have "b = - 1" by (simp add: eq_neg_iff_add_eq_0)
    with assms show False by simp
  qed
  then show ?thesis by (simp add: unatSuc add.commute)
qed

lemma unat_u64_less: "unat (v :: u64) < 2 ^ 64"
proof -
  have "unat v < 2 ^ LENGTH(64)" by (rule unsigned_less)
  then show ?thesis by simp
qed

lemma take_bit_unat_u64 [simp]: "take_bit 64 (unat (v :: u64)) = unat v"
  using unat_u64_less [of v] by (rule take_bit_nat_eq_self)

lemma unat_u8_less: "unat (b :: u8) < 256"
  using unsigned_less [of b] by simp

lemma unat_u8_le: "unat (b :: u8) \<le> 255"
  using unat_u8_less [of b] by simp

lemma unat_max_u8 [simp]: "unat (0xff :: u8) = 255"
  by simp

lemma unat_eq_max_u8: "unat (b :: u8) = 255 \<longleftrightarrow> b = 0xff"
  by (metis unat_max_u8 word_unat_eq_iff)

text \<open>Equality of bytes, bit by bit: decides equations between masked bytes.\<close>

lemma u8_eq_bits:
  "a = b \<longleftrightarrow> (bit a 0 \<longleftrightarrow> bit b 0) \<and> (bit a 1 \<longleftrightarrow> bit b 1) \<and> (bit a 2 \<longleftrightarrow> bit b 2) \<and>
     (bit a 3 \<longleftrightarrow> bit b 3) \<and> (bit a 4 \<longleftrightarrow> bit b 4) \<and> (bit a 5 \<longleftrightarrow> bit b 5) \<and>
     (bit a 6 \<longleftrightarrow> bit b 6) \<and> (bit a 7 \<longleftrightarrow> bit b 7)" for a b :: u8
proof -
  have "a = b \<longleftrightarrow> (\<forall>n<8. bit a n \<longleftrightarrow> bit b n)"
    by (auto intro: bit_word_eqI)
  also have "{..<8} = {0, 1, 2, 3, 4, 5, 6, 7 :: nat}" by auto
  then have "(\<forall>n<8. bit a n \<longleftrightarrow> bit b n) \<longleftrightarrow> (\<forall>n\<in>{0, 1, 2, 3, 4, 5, 6, 7 :: nat}. bit a n \<longleftrightarrow> bit b n)"
    by (metis lessThan_iff)
  finally show ?thesis by (simp only: ball_simps simp_thms)
qed

lemma take_bit_and_next_bit: "take_bit k v AND push_bit k (w :: 'a::len word) = 0"
  by (rule bit_word_eqI) (auto simp: bit_simps)

lemma small_or_push_bit:
  assumes "take_bit k x = (x :: 'a::len word)"
  shows "x OR push_bit k y = x + push_bit k y"
proof -
  have "take_bit k x AND push_bit k y = 0" by (rule take_bit_and_next_bit)
  then show ?thesis using assms by (simp add: disjunctive_add_eq_or)
qed

section \<open>Big-endian value of a byte string\<close>

text \<open>
  Instructions are ordered as byte strings, first byte most significant. \<open>be_value\<close> is the
  number a byte string denotes; on strings of one length it is injective and its order is the
  lexicographic order.
\<close>

fun be_value :: "u8 list \<Rightarrow> nat" where
  "be_value [] = 0"
| "be_value (b # bs) = unat b * 256 ^ length bs + be_value bs"

lemma be_value_less: "be_value bs < 256 ^ length bs"
proof (induction bs)
  case Nil
  then show ?case by simp
next
  case (Cons b bs)
  have "unat b * 256 ^ length bs + be_value bs < (unat b + 1) * 256 ^ length bs"
    using Cons.IH by simp
  also have "\<dots> \<le> 256 * 256 ^ length bs"
    using unat_u8_less [of b] by (intro mult_right_mono) simp_all
  finally show ?case by simp
qed

lemma be_value_append:
  "be_value (xs @ ys) = be_value xs * 256 ^ length ys + be_value ys"
  by (induction xs) (simp_all add: algebra_simps power_add)

lemma be_value_replicate_zero [simp]: "be_value (replicate n 0) = 0"
  by (induction n) simp_all

lemma be_value_inj:
  "length xs = length ys \<Longrightarrow> be_value xs = be_value ys \<Longrightarrow> xs = ys"
proof (induction xs ys rule: list_induct2)
  case Nil
  then show ?case by simp
next
  case (Cons x xs y ys)
  let ?p = "256 ^ length ys :: nat"
  have p: "be_value xs < ?p" "be_value ys < ?p"
    using be_value_less [of xs] be_value_less [of ys] Cons.hyps by simp_all
  have eq: "unat x * ?p + be_value xs = unat y * ?p + be_value ys"
    using Cons.prems Cons.hyps by simp
  have "unat x = (unat x * ?p + be_value xs) div ?p" using p by simp
  also have "\<dots> = unat y" using p eq by simp
  finally have xy: "unat x = unat y" .
  with eq Cons.IH show ?case by (simp add: word_unat_eq_iff)
qed

lemma be_value_take_drop:
  "k \<le> length bs \<Longrightarrow>
   be_value bs = be_value (take k bs) * 256 ^ (length bs - k) + be_value (drop k bs)"
  using be_value_append [of "take k bs" "drop k bs"] by simp

lemma be_value_take_div:
  "k \<le> length bs \<Longrightarrow> be_value (take k bs) = be_value bs div 256 ^ (length bs - k)"
  using be_value_take_drop [of k bs] be_value_less [of "drop k bs"] by simp

section \<open>Lists updated by index\<close>

lemma take_Suc_update:
  "i < length xs \<Longrightarrow> take (Suc i) (xs[i := x]) = take i xs @ [x]"
  by (simp add: take_Suc_conv_app_nth)

lemma drop_Suc_update: "drop (Suc i) (xs[i := x]) = drop (Suc i) xs"
  by simp

end
