(* ===== verification/Env.thy ===== *)
theory Env
  imports Prelude
begin

text \<open>
  The environment the program runs in and the control flow of its functions.

  Everything outside the sources (UEFI firmware services, CPU instructions issued from inline
  assembly, the XED decoder) is reached through a \<open>call\<close>. The environment is a parameter
  \<open>e :: env\<close> of the model: it answers a call from the history of all calls made so far, so no
  behaviour of firmware, CPU or decoder is fixed by the model. The history itself, \<open>trace\<close>, is
  the part of the state every component shares: it records, in order, what the program did to
  the outside.

  A C function either returns, gives the CPU to the user-mode instruction (\<open>enter_user\<close> does
  not return: the next C code to run is an exception handler on a fresh stack), halts for ever,
  or has undefined behaviour (a NULL or out-of-bounds access). \<open>run\<close> has a constructor for
  each.
\<close>

section \<open>Calls to the outside\<close>

text \<open>One variadic argument slot. The build targets the Windows x64 convention
  (\<open>-target x86_64-unknown-windows\<close>), in which every integer argument occupies 64 bits.\<close>

datatype vararg = VInt u64 | VStr string

text \<open>What \<open>iretq\<close> pops.\<close>

record iretq_frame =
  fr_rip :: u64
  fr_cs :: u64
  fr_rflags :: u64
  fr_rsp :: u64
  fr_ss :: u64

text \<open>The chips the sources name of the decoder's enumeration.\<close>

datatype xed_chip = XED_CHIP_INVALID | XED_CHIP_SKYLAKE

datatype call =
    OutputString "char16 list" | QueryMode u64 | SetMode u64
  | AllocatePages nat | FreePages u64 nat | AllocatePool u64 | FreePool u64
  | CopyMem u64 "u8 list" | SetMem u64 u64 u8
  | OpenLoadedImageProtocol u64 | CloseLoadedImageProtocol u64
  | OpenSimpleFsProtocol u64 | CloseSimpleFsProtocol u64
  | OpenVolume u64 | OpenFile u64 string | CloseDir u64
  | GetInfoSize u64 | GetInfo u64 u64 u64 | SetInfo u64 u64 u64 u64
  | FileWrite u64 "u8 list" | FileFlush u64 | FileGetPosition u64 | FileClose u64
  | Rdmsr u32 | Wrmsr u32 u32 u32 | Rdpmc u32 | Cpuid u32
  | ReadCr nat | WriteCr nat u64 | Xsetbv u32 u32 u32 | Xrstor u64 | Clflush u64
  | Cli | Lgdt u16 u64 | Lidt u16 u64 | LoadSegments u16 u16 u16
  | ReadMem8 u64 | ReadMem64 u64 | WriteMem64 u64 u64
  | XedTablesInit | XedDecode cpu_mode xed_chip "u8 list"
  | Iretq iretq_frame "u64 list"
  | Hang

text \<open>What comes back: a status (an \<open>EFI_STATUS\<close>, or XED's error code) and up to four result
  values (out-parameters or registers).\<close>

record reply =
  status :: u64
  val0 :: u64
  val1 :: u64
  val2 :: u64
  val3 :: u64

type_synonym history = "(call \<times> reply) list"
type_synonym env = "history \<Rightarrow> call \<Rightarrow> reply"

definition EFI_SUCCESS :: u64 where "EFI_SUCCESS = 0"
definition EFI_UNSUPPORTED :: u64 where "EFI_UNSUPPORTED = 0x8000000000000003"
definition EFI_BUFFER_TOO_SMALL :: u64 where "EFI_BUFFER_TOO_SMALL = 0x8000000000000005"

record world =
  trace :: history

section \<open>How a function ends\<close>

datatype ('a, 's) run =
    Done 'a 's      \<comment> \<open>returned a value\<close>
  | User 's         \<comment> \<open>left for user mode\<close>
  | Halted 's       \<comment> \<open>stopped in a halt loop\<close>
  | Crash 's        \<comment> \<open>undefined behaviour\<close>

type_synonym ('a, 's) prog = "'s \<Rightarrow> ('a, 's) run"

text \<open>The state in which a run ended.\<close>

fun final :: "('a, 's) run \<Rightarrow> 's" where
  "final (Done a s) = s"
| "final (User s) = s"
| "final (Halted s) = s"
| "final (Crash s) = s"

fun bind :: "('a, 's) run \<Rightarrow> ('a \<Rightarrow> ('b, 's) prog) \<Rightarrow> ('b, 's) run" where
  "bind (Done a s) f = f a s"
| "bind (User s) f = User s"
| "bind (Halted s) f = Halted s"
| "bind (Crash s) f = Crash s"

text \<open>Sequencing of programs: \<open>m\<close>, then \<open>f\<close> on what it returned, unless \<open>m\<close> did not return.\<close>

definition andthen :: "('a, 's) prog \<Rightarrow> ('a \<Rightarrow> ('b, 's) prog) \<Rightarrow> ('b, 's) prog" where
  "andthen m f = (\<lambda>s. bind (m s) f)"

definition return :: "'a \<Rightarrow> ('a, 's) prog" where
  "return a = (\<lambda>s. Done a s)"

definition fetch :: "('s \<Rightarrow> 'a) \<Rightarrow> ('a, 's) prog" where
  "fetch f = (\<lambda>s. Done (f s) s)"

definition modify :: "('s \<Rightarrow> 's) \<Rightarrow> (unit, 's) prog" where
  "modify f = (\<lambda>s. Done () (f s))"

definition crash :: "('a, 's) prog" where
  "crash = (\<lambda>s. Crash s)"

definition only_if :: "bool \<Rightarrow> (unit, 's) prog \<Rightarrow> (unit, 's) prog" where
  "only_if c m = (if c then m else return ())"

text \<open>\<open>for\<close> over a list of loop values.\<close>

fun for_each :: "'i list \<Rightarrow> ('i \<Rightarrow> (unit, 's) prog) \<Rightarrow> (unit, 's) prog" where
  "for_each [] f = return ()"
| "for_each (x # xs) f = andthen (f x) (\<lambda>_. for_each xs f)"

text \<open>Asking the environment.\<close>

definition emit :: "env \<Rightarrow> call \<Rightarrow> 'z world_scheme \<Rightarrow> 'z world_scheme" where
  "emit e c s = s\<lparr>trace := trace s @ [(c, e (trace s) c)]\<rparr>"

definition ext :: "env \<Rightarrow> call \<Rightarrow> (reply, 'z world_scheme) prog" where
  "ext e c = (\<lambda>s. Done (e (trace s) c) (emit e c s))"

definition extu :: "env \<Rightarrow> call \<Rightarrow> (unit, 'z world_scheme) prog" where
  "extu e c = andthen (ext e c) (\<lambda>_. return ())"

text \<open>A list of statements, one after the other.\<close>

definition in_order :: "(unit, 's) prog list \<Rightarrow> (unit, 's) prog" where
  "in_order ms = for_each ms (\<lambda>m. m)"

section \<open>Evaluation of sequenced effects\<close>

lemma andthen_apply [run_simps]: "andthen m f s = bind (m s) f"
  by (simp add: andthen_def)

lemma return_apply [run_simps]: "return a s = Done a s"
  by (simp add: return_def)

lemma fetch_apply [run_simps]: "fetch f s = Done (f s) s"
  by (simp add: fetch_def)

lemma modify_apply [run_simps]: "modify f s = Done () (f s)"
  by (simp add: modify_def)

lemma crash_apply [run_simps]: "crash s = Crash s"
  by (simp add: crash_def)

lemma only_if_apply [run_simps]: "only_if c m s = (if c then m s else Done () s)"
  by (simp add: only_if_def return_def)

lemma ext_apply [run_simps]: "ext e c s = Done (e (trace s) c) (emit e c s)"
  by (simp add: ext_def)

lemma extu_apply [run_simps]: "extu e c s = Done () (emit e c s)"
  by (simp add: extu_def run_simps)

lemma trace_emit [simp]: "trace (emit e c s) = trace s @ [(c, e (trace s) c)]"
  by (simp add: emit_def)

lemma bind_assoc: "bind (bind m f) g = bind m (\<lambda>a s. bind (f a s) g)"
  by (cases m) simp_all

lemma bind_return: "bind m (\<lambda>a s. Done a s) = m"
  by (cases m) simp_all

lemma bind_if [run_simps]: "bind (if c then m else n) f = (if c then bind m f else bind n f)"
  by simp

lemma bind_Done: "bind m f = Done a s' \<longleftrightarrow> (\<exists>x t. m = Done x t \<and> f x t = Done a s')"
  by (cases m) simp_all

lemma for_each_append: "for_each (xs @ ys) f s = bind (for_each xs f s) (\<lambda>_. for_each ys f)"
proof (induction xs arbitrary: s)
  case Nil
  then show ?case by (simp add: run_simps)
next
  case (Cons x xs)
  then show ?case by (cases "f x s") (simp_all add: run_simps)
qed

section \<open>What holds along a run\<close>

text \<open>
  \<open>keeps P m\<close>: however \<open>m\<close> ends, a state satisfying \<open>P\<close> leads to one satisfying \<open>P\<close>. It is
  closed under the program constructors, so the frame facts of the components are a few rules.
\<close>

definition keeps :: "('s \<Rightarrow> bool) \<Rightarrow> ('a, 's) prog \<Rightarrow> bool" where
  "keeps P m \<longleftrightarrow> (\<forall>s. P s \<longrightarrow> P (final (m s)))"

named_theorems keeps_intros \<open>closure of \<open>keeps\<close>\<close>

lemma keepsI: "(\<And>s. P s \<Longrightarrow> P (final (m s))) \<Longrightarrow> keeps P m"
  by (simp add: keeps_def)

lemma keepsD: "keeps P m \<Longrightarrow> P s \<Longrightarrow> P (final (m s))"
  by (simp add: keeps_def)

lemma keeps_andthen [keeps_intros]:
  assumes "keeps P m" and "\<And>a. keeps P (f a)"
  shows "keeps P (andthen m f)"
proof (rule keepsI)
  fix s assume "P s"
  with assms(1) have m: "P (final (m s))" by (rule keepsD)
  show "P (final (andthen m f s))"
  proof (cases "m s")
    case (Done a s')
    with m keepsD [OF assms(2)] show ?thesis by (simp add: run_simps)
  qed (use m in \<open>simp_all add: run_simps\<close>)
qed

lemma keeps_return [keeps_intros]: "keeps P (return a)"
  by (simp add: keeps_def run_simps)

lemma keeps_fetch [keeps_intros]: "keeps P (fetch f)"
  by (simp add: keeps_def run_simps)

lemma keeps_crash [keeps_intros]: "keeps P crash"
  by (simp add: keeps_def run_simps)

lemma keeps_only_if [keeps_intros]: "keeps P m \<Longrightarrow> keeps P (only_if c m)"
  by (simp add: keeps_def run_simps)

lemma keeps_if [keeps_intros]: "keeps P m \<Longrightarrow> keeps P n \<Longrightarrow> keeps P (if c then m else n)"
  by simp

lemma keeps_for_each [keeps_intros]:
  "(\<And>i. keeps P (f i)) \<Longrightarrow> keeps P (for_each xs f)"
  by (induction xs) (simp_all add: keeps_intros)

lemma keeps_modify: "(\<And>s. P s \<Longrightarrow> P (f s)) \<Longrightarrow> keeps P (modify f)"
  by (simp add: keeps_def run_simps)

lemma keeps_ext:
  "(\<And>s. P s \<Longrightarrow> P (emit e c s)) \<Longrightarrow> keeps P (ext e c)"
  by (simp add: keeps_def run_simps)

lemma keeps_extu:
  "(\<And>s. P s \<Longrightarrow> P (emit e c s)) \<Longrightarrow> keeps P (extu e c)"
  by (simp add: keeps_def run_simps)

lemma keeps_in_order [keeps_intros]:
  "(\<And>m. m \<in> set ms \<Longrightarrow> keeps P m) \<Longrightarrow> keeps P (in_order ms)"
  unfolding in_order_def by (induction ms) (simp_all add: keeps_intros)

section \<open>Operations that only talk to the outside\<close>

text \<open>\<open>talks s C m\<close>: from the state \<open>s\<close>, whatever the history, \<open>m\<close> returns, and all it changes is
  the history, to which it adds calls that satisfy \<open>C\<close>.\<close>

definition talks ::
  "'z world_scheme \<Rightarrow> (call \<Rightarrow> bool) \<Rightarrow> ('a, 'z world_scheme) prog \<Rightarrow> bool" where
  "talks s C m \<longleftrightarrow> (\<forall>t. \<exists>a h. m (s\<lparr>trace := t\<rparr>) = Done a (s\<lparr>trace := t @ h\<rparr>) \<and>
     (\<forall>c\<in>fst ` set h. C c))"

named_theorems talks_intros \<open>closure of \<open>talks\<close>\<close>

lemma trace_same [simp]: "s\<lparr>trace := trace s\<rparr> = (s :: 'z world_scheme)"
  by simp

lemma talksE:
  assumes "talks s C m"
  obtains a h where "m s = Done a (s\<lparr>trace := trace s @ h\<rparr>)" and "\<forall>c\<in>fst ` set h. C c"
  using assms unfolding talks_def by (metis trace_same)

lemma talksI:
  "(\<And>t. \<exists>a h. m (s\<lparr>trace := t\<rparr>) = Done a (s\<lparr>trace := t @ h\<rparr>) \<and> (\<forall>c\<in>fst ` set h. C c)) \<Longrightarrow>
   talks s C m"
  by (simp add: talks_def)

lemma talks_ext [talks_intros]: "C c \<Longrightarrow> talks s C (ext e c)"
  by (intro talksI exI conjI) (auto simp: run_simps emit_def)

lemma talks_extu [talks_intros]: "C c \<Longrightarrow> talks s C (extu e c)"
  by (intro talksI exI conjI) (auto simp: run_simps emit_def)

lemma talks_return [talks_intros]: "talks s C (return a)"
  by (rule talksI, rule exI [of _ a], rule exI [of _ "[]"]) (simp add: run_simps)

lemma talks_fetch [talks_intros]:
  "(\<And>t. talks s C (g (f (s\<lparr>trace := t\<rparr>)))) \<Longrightarrow> talks s C (andthen (fetch f) g)"
  by (simp add: talks_def run_simps)

lemma talks_andthen [talks_intros]:
  assumes "talks s C m" and "\<And>a. talks s C (f a)"
  shows "talks s C (andthen m f)"
proof (rule talksI)
  fix t
  obtain a h where 1: "m (s\<lparr>trace := t\<rparr>) = Done a (s\<lparr>trace := t @ h\<rparr>)" "\<forall>c\<in>fst ` set h. C c"
    using assms(1) unfolding talks_def by blast
  obtain a' h' where 2: "f a (s\<lparr>trace := t @ h\<rparr>) = Done a' (s\<lparr>trace := (t @ h) @ h'\<rparr>)"
    "\<forall>c\<in>fst ` set h'. C c"
    using assms(2) unfolding talks_def by blast
  show "\<exists>a h. andthen m f (s\<lparr>trace := t\<rparr>) = Done a (s\<lparr>trace := t @ h\<rparr>) \<and> (\<forall>c\<in>fst ` set h. C c)"
    using 1 2 by (intro exI [of _ a'] exI [of _ "h @ h'"]) (simp add: run_simps ball_Un image_Un)
qed

lemma talks_only_if [talks_intros]: "talks s C m \<Longrightarrow> talks s C (only_if c m)"
  by (cases c) (simp_all add: only_if_def talks_return)

lemma talks_if [talks_intros]:
  "(c \<Longrightarrow> talks s C m) \<Longrightarrow> (\<not> c \<Longrightarrow> talks s C n) \<Longrightarrow> talks s C (if c then m else n)"
  by simp

lemma talks_for_each:
  "(\<And>i. i \<in> set xs \<Longrightarrow> talks s C (f i)) \<Longrightarrow> talks s C (for_each xs f)"
  by (induction xs) (simp_all add: talks_return talks_andthen)

lemma talks_in_order:
  "(\<And>m. m \<in> set ms \<Longrightarrow> talks s C m) \<Longrightarrow> talks s C (in_order ms)"
  unfolding in_order_def by (rule talks_for_each)

section \<open>Operations that only talk, and what they say\<close>

text \<open>\<open>s'\<close> is \<open>s\<close> after the calls \<open>h\<close>, all of which satisfy \<open>C\<close>.\<close>

definition spoke :: "(call \<Rightarrow> bool) \<Rightarrow> 'z world_scheme \<Rightarrow> history \<Rightarrow> 'z world_scheme \<Rightarrow> bool" where
  "spoke C s h s' \<longleftrightarrow> s' = s\<lparr>trace := trace s @ h\<rparr> \<and> (\<forall>c\<in>fst ` set h. C c)"

lemma spoke_refl: "spoke C s [] s"
  by (simp add: spoke_def)

lemma spoke_emit: "spoke C s h s' \<Longrightarrow> C c \<Longrightarrow> spoke C s (h @ [(c, e (trace s') c)]) (emit e c s')"
  by (auto simp: spoke_def emit_def)

lemma spoke_trans: "spoke C s h s1 \<Longrightarrow> spoke C s1 k s2 \<Longrightarrow> spoke C s (h @ k) s2"
  by (auto simp: spoke_def)

text \<open>\<open>speaks s C m P\<close>: from \<open>s\<close>, \<open>m\<close> returns having only spoken, and \<open>P\<close> holds of its value and of
  the calls it made.\<close>

definition speaks :: "'z world_scheme \<Rightarrow> (call \<Rightarrow> bool) \<Rightarrow> ('a, 'z world_scheme) prog \<Rightarrow> ('a \<Rightarrow> history \<Rightarrow> bool) \<Rightarrow> bool" where
  "speaks s C m P \<longleftrightarrow> (\<exists>a h s'. m s = Done a s' \<and> spoke C s h s' \<and> P a h)"

lemma speaks_return: "P a [] \<Longrightarrow> speaks s C (return a) P"
  unfolding speaks_def by (intro exI [of _ a] exI [of _ "[]"] exI [of _ s]) (simp add: run_simps spoke_refl)

lemma speaks_andthen:
  assumes "speaks s C m Q" and "\<And>a h s'. Q a h \<Longrightarrow> speaks s' C (f a) (\<lambda>b k. P b (h @ k))"
  shows "speaks s C (andthen m f) P"
proof -
  obtain a h s1 where 1: "m s = Done a s1" "spoke C s h s1" "Q a h"
    using assms(1) unfolding speaks_def by blast
  obtain b k s2 where 2: "f a s1 = Done b s2" "spoke C s1 k s2" "P b (h @ k)"
    using assms(2) [OF 1(3)] unfolding speaks_def by blast
  show ?thesis unfolding speaks_def using 1(1) 2(1,3) spoke_trans [OF 1(2) 2(2)]
    by (intro exI [of _ b] exI [of _ "h @ k"] exI [of _ s2]) (simp add: run_simps)
qed

lemma speaks_ext:
  assumes "C c"
  shows "speaks s C (ext e c) (\<lambda>r h. h = [(c, r)] \<and> (\<exists>t. r = e t c))"
  unfolding speaks_def using spoke_emit [OF spoke_refl, where C = C and c = c and s = s and e = e] assms
  by (intro exI [of _ "e (trace s) c"] exI [of _ "[(c, e (trace s) c)]"] exI [of _ "emit e c s"])
     (auto simp: run_simps)

lemma speaks_talks: "talks s C m \<Longrightarrow> (\<And>a h. P a h) \<Longrightarrow> speaks s C m P"
  unfolding speaks_def spoke_def by (erule talksE) blast

lemma speaks_mono: "speaks s C m Q \<Longrightarrow> (\<And>a h. Q a h \<Longrightarrow> P a h) \<Longrightarrow> speaks s C m P"
  unfolding speaks_def by blast

text \<open>A call, and how to go on with its answer.\<close>

lemma speaks_call:
  assumes "C c"
    and "\<And>t s'. speaks s' C (f (e t c)) (\<lambda>b k. P b ((c, e t c) # k))"
  shows "speaks s C (andthen (ext e c) f) P"
  using speaks_ext [where C = C and c = c, OF assms(1)] by (rule speaks_andthen) (use assms(2) in auto)

lemma speaks_callu:
  assumes "C c" and "\<And>t s'. speaks s' C f (\<lambda>b k. P b ((c, e t c) # k))"
  shows "speaks s C (andthen (extu e c) (\<lambda>_. f)) P"
proof -
  have "andthen (extu e c) (\<lambda>_. f) = andthen (ext e c) (\<lambda>_. f)"
    by (simp add: fun_eq_iff run_simps)
  then show ?thesis using speaks_call [of C c "\<lambda>_. f" e P s] assms by simp
qed

text \<open>A message on the way.\<close>

lemma speaks_say: "talks s C m \<Longrightarrow> (\<And>h. P b h) \<Longrightarrow> speaks s C (andthen m (\<lambda>_. return b)) P"
  by (rule speaks_andthen [OF speaks_talks [where P = "\<lambda>_ _. True"]]) (auto intro: speaks_return)

lemma speaks_fetch: "speaks s C (g (f s)) P \<Longrightarrow> speaks s C (andthen (fetch f) g) P"
  by (simp add: speaks_def run_simps)

section \<open>Outcomes\<close>

text \<open>\<open>ends r D U H\<close>: the run is not undefined, and \<open>D\<close>, \<open>U\<close> or \<open>H\<close> holds of its result, according
  to how it ended.\<close>

fun ends :: "('a, 's) run \<Rightarrow> ('a \<Rightarrow> 's \<Rightarrow> bool) \<Rightarrow> ('s \<Rightarrow> bool) \<Rightarrow> ('s \<Rightarrow> bool) \<Rightarrow> bool" where
  "ends (Done a s) D U H = D a s"
| "ends (User s) D U H = U s"
| "ends (Halted s) D U H = H s"
| "ends (Crash s) D U H = False"

lemma ends_bind: "ends (bind r f) D U H = ends r (\<lambda>a s. ends (f a s) D U H) U H"
  by (cases r) simp_all

lemma ends_andthen: "ends (andthen m f s) D U H = ends (m s) (\<lambda>a s'. ends (f a s') D U H) U H"
  by (simp add: andthen_apply ends_bind)

lemma ends_mono:
  "ends r D U H \<Longrightarrow> (\<And>a s. D a s \<Longrightarrow> D' a s) \<Longrightarrow> (\<And>s. U s \<Longrightarrow> U' s) \<Longrightarrow> (\<And>s. H s \<Longrightarrow> H' s) \<Longrightarrow>
   ends r D' U' H'"
  by (cases r) simp_all

lemma ends_talks:
  assumes "talks s C m"
    and "\<And>a h. \<forall>c\<in>fst ` set h. C c \<Longrightarrow> m s = Done a (s\<lparr>trace := trace s @ h\<rparr>) \<Longrightarrow>
      D a (s\<lparr>trace := trace s @ h\<rparr>)"
  shows "ends (m s) D U H"
proof -
  obtain a h where "m s = Done a (s\<lparr>trace := trace s @ h\<rparr>)" "\<forall>c\<in>fst ` set h. C c"
    using assms(1) by (rule talksE)
  then show ?thesis using assms(2) by simp
qed

lemma ends_return [run_simps]: "ends (return a s) D U H = D a s"
  by (simp add: return_apply)

lemma ends_fetch [run_simps]: "ends (fetch f s) D U H = D (f s) s"
  by (simp add: fetch_apply)

lemma ends_modify [run_simps]: "ends (modify g s) D U H = D () (g s)"
  by (simp add: modify_apply)

lemma ends_only_if [run_simps]:
  "ends (only_if c m s) D U H = (if c then ends (m s) D U H else D () s)"
  by (simp add: only_if_apply)

lemmas ends_simps = ends_return ends_fetch ends_modify ends_only_if

end
