(* ===== verification/Text_Output.thy ===== *)
theory Text_Output
  imports Env
begin

text \<open>
  Console output (\<open>src/print.c\<close>): the formatter \<open>vsnprintf\<close>, \<open>print\<close>/\<open>printf\<close>, and the choice of
  the text mode in \<open>print_init\<close>. The formatter is modelled with its buffer, its two indexes and
  an explicit undefined-behaviour result (\<open>None\<close>) for a write outside the buffer, a read past
  the format's terminator, or a \<open>va_arg\<close> that finds no argument of the requested kind; it is
  proved to implement a short reference rendering.
\<close>

section \<open>Strings and buffers\<close>

text \<open>A \<open>L"..."\<close> literal. Its terminating NUL is implicit; see \<open>char_at\<close>.\<close>

definition wide :: "string \<Rightarrow> char16 list" where
  "wide str = map of_char str"

definition char_at :: "char16 list \<Rightarrow> nat \<Rightarrow> char16 option" where
  "char_at str i =
     (if i < length str then Some (str ! i) else if i = length str then Some 0 else None)"

definition put :: "char16 list \<Rightarrow> nat \<Rightarrow> char16 \<Rightarrow> char16 list option" where
  "put buf i c = (if i < length buf then Some (buf[i := c]) else None)"

text \<open>The line ending the sources write as an escape in every message.\<close>

definition crlf :: string where
  "crlf = [CHR 0x0D, CHR 0x0A]"

section \<open>vsnprintf\<close>

definition is_s :: "char16 \<Rightarrow> bool" where "is_s c \<longleftrightarrow> c = 0x53 \<or> c = 0x73"
definition is_l :: "char16 \<Rightarrow> bool" where "is_l c \<longleftrightarrow> c = 0x6c \<or> c = 0x4c"
definition is_h :: "char16 \<Rightarrow> bool" where "is_h c \<longleftrightarrow> c = 0x68 \<or> c = 0x48"
definition is_x :: "char16 \<Rightarrow> bool" where "is_x c \<longleftrightarrow> c = 0x78 \<or> c = 0x58"

lemmas fmt_chars = is_s_def is_l_def is_h_def is_x_def

text \<open>The \<open>recheck_fmt\<close> label: length modifiers are consumed until another character shows up;
  the last one decides the index of the first hexadecimal digit.\<close>

function recheck_fmt :: "char16 list \<Rightarrow> nat \<Rightarrow> nat \<Rightarrow> nat \<times> nat" where
  "recheck_fmt fmt fmt_i digit_index =
     (if fmt_i < length fmt then
        if is_l (fmt ! fmt_i) then recheck_fmt fmt (fmt_i + 1) 15
        else if is_h (fmt ! fmt_i) then recheck_fmt fmt (fmt_i + 1) 1
        else (fmt_i, digit_index)
      else (fmt_i, digit_index))"
  by pat_completeness auto
termination
  by (relation "measure (\<lambda>(fmt, i, d). length fmt - i)") auto

declare recheck_fmt.simps [simp del]

text \<open>\<open>%s\<close>: copy up to the argument's NUL or the buffer's last slot.\<close>

fun copy_str :: "nat \<Rightarrow> char16 list \<Rightarrow> nat \<Rightarrow> char16 list \<Rightarrow> (nat \<times> char16 list) option" where
  "copy_str out_length [] out_i buf = Some (out_i, buf)"
| "copy_str out_length (c # str) out_i buf =
     (if c \<noteq> 0 \<and> out_i < out_length - 1 then
        (case put buf out_i c of
           None \<Rightarrow> None
         | Some buf' \<Rightarrow> copy_str out_length str (out_i + 1) buf')
      else Some (out_i, buf))"

definition hex_chars :: "char16 list" where
  "hex_chars = [0x30, 0x31, 0x32, 0x33, 0x34, 0x35, 0x36, 0x37, 0x38, 0x39,
                0x41, 0x42, 0x43, 0x44, 0x45, 0x46]"

definition hex_char :: "u64 \<Rightarrow> nat \<Rightarrow> char16" where
  "hex_char value digit = hex_chars ! unat (drop_bit (digit * 4) value AND 0xf)"

text \<open>\<open>%x\<close>: digits from index \<open>digit\<close> down to 0, while there is room.\<close>

fun put_hex ::
  "nat \<Rightarrow> u64 \<Rightarrow> nat \<Rightarrow> nat \<Rightarrow> char16 list \<Rightarrow> (nat \<times> char16 list) option" where
  "put_hex out_length value 0 out_i buf =
     (if out_i < out_length - 1 then
        (case put buf out_i (hex_char value 0) of
           None \<Rightarrow> None
         | Some buf' \<Rightarrow> Some (out_i + 1, buf'))
      else Some (out_i, buf))"
| "put_hex out_length value (Suc digit) out_i buf =
     (if out_i < out_length - 1 then
        (case put buf out_i (hex_char value (Suc digit)) of
           None \<Rightarrow> None
         | Some buf' \<Rightarrow> put_hex out_length value digit (out_i + 1) buf')
      else Some (out_i, buf))"

text \<open>The \<open>va_arg\<close> of \<open>%x\<close>: 64 bits under \<open>l\<close>, otherwise the low 32 bits of the slot.\<close>

fun hex_arg :: "nat \<Rightarrow> vararg list \<Rightarrow> (u64 \<times> vararg list) option" where
  "hex_arg digit_index args =
     (if digit_index = 15 then
        (case args of VInt v # rest \<Rightarrow> Some (v, rest) | _ \<Rightarrow> None)
      else if digit_index = 7 \<or> digit_index = 1 then
        (case args of VInt v # rest \<Rightarrow> Some (take_bit 32 v, rest) | _ \<Rightarrow> None)
      else Some (0xbadf00d, args))"

fun str_arg :: "vararg list \<Rightarrow> (char16 list \<times> vararg list) option" where
  "str_arg (VStr str # rest) = Some (wide str, rest)"
| "str_arg _ = None"

lemma recheck_fmt_ge: "fmt_i \<le> fst (recheck_fmt fmt fmt_i d)"
  by (induction fmt fmt_i d rule: recheck_fmt.induct)
     (subst recheck_fmt.simps, force)

text \<open>The main loop; \<open>out_length\<close> is positive here.\<close>

function vsn_loop ::
  "nat \<Rightarrow> char16 list \<Rightarrow> nat \<Rightarrow> nat \<Rightarrow> char16 list \<Rightarrow> vararg list \<Rightarrow> char16 list option" where
  "vsn_loop out_length fmt fmt_i out_i buf args =
     (if out_i < out_length - 1 then
        (case char_at fmt fmt_i of
           None \<Rightarrow> None
         | Some c \<Rightarrow>
             if c = 0 then put buf out_i 0
             else if c = 0x25 then
               (let (spec_i, digit_index) = recheck_fmt fmt (fmt_i + 1) 7 in
                case char_at fmt spec_i of
                  None \<Rightarrow> None
                | Some d \<Rightarrow>
                    if d = 0 then put buf out_i 0
                    else if is_s d then
                      (case str_arg args of
                         None \<Rightarrow> None
                       | Some (str, rest) \<Rightarrow>
                           (case copy_str out_length str out_i buf of
                              None \<Rightarrow> None
                            | Some (out_i', buf') \<Rightarrow>
                                vsn_loop out_length fmt (spec_i + 1) out_i' buf' rest))
                    else if is_x d then
                      (case hex_arg digit_index args of
                         None \<Rightarrow> None
                       | Some (value, rest) \<Rightarrow>
                           (case put_hex out_length value digit_index out_i buf of
                              None \<Rightarrow> None
                            | Some (out_i', buf') \<Rightarrow>
                                vsn_loop out_length fmt (spec_i + 1) out_i' buf' rest))
                    else
                      (case put buf out_i d of
                         None \<Rightarrow> None
                       | Some buf' \<Rightarrow>
                           vsn_loop out_length fmt (spec_i + 1) (out_i + 1) buf' args))
             else
               (case put buf out_i c of
                  None \<Rightarrow> None
                | Some buf' \<Rightarrow> vsn_loop out_length fmt (fmt_i + 1) (out_i + 1) buf' args))
      else put buf out_i 0)"
  by pat_completeness auto
termination
proof (relation "measure (\<lambda>(n, fmt, i, oi, buf, args). length fmt + 1 - i)", goal_cases)
  case 1
  then show ?case by simp
next
  case (2 n fmt i oi buf args c x si di d y str rest z oi' buf')
  then have "i + 1 \<le> si" by (metis recheck_fmt_ge fst_conv)
  with 2 show ?case by (auto simp: char_at_def split: if_splits)
next
  case (3 n fmt i oi buf args c x si di d y v rest z oi' buf')
  then have "i + 1 \<le> si" by (metis recheck_fmt_ge fst_conv)
  with 3 show ?case by (auto simp: char_at_def split: if_splits)
next
  case (4 n fmt i oi buf args c x si di d buf')
  then have "i + 1 \<le> si" by (metis recheck_fmt_ge fst_conv)
  with 4 show ?case by (auto simp: char_at_def split: if_splits)
next
  case (5 n fmt i oi buf args c buf')
  then show ?case by (auto simp: char_at_def split: if_splits)
qed

declare vsn_loop.simps [simp del]

definition vsnprintf ::
  "char16 list \<Rightarrow> nat \<Rightarrow> char16 list \<Rightarrow> vararg list \<Rightarrow> char16 list option" where
  "vsnprintf out_buffer out_length fmt varargs =
     (if out_length = 0 then Some out_buffer
      else vsn_loop out_length fmt 0 0 out_buffer varargs)"

definition snprintf ::
  "char16 list \<Rightarrow> nat \<Rightarrow> char16 list \<Rightarrow> vararg list \<Rightarrow> char16 list option" where
  "snprintf out_buffer out_len fmt varargs = vsnprintf out_buffer out_len fmt varargs"

section \<open>Reference rendering\<close>

text \<open>The text a format and its arguments denote, with no buffer and no indexes.\<close>

fun modifiers :: "char16 list \<Rightarrow> nat \<Rightarrow> char16 list \<times> nat" where
  "modifiers [] d = ([], d)"
| "modifiers (c # cs) d =
     (if is_l c then modifiers cs 15 else if is_h c then modifiers cs 1 else (c # cs, d))"

definition hex_digits :: "u64 \<Rightarrow> nat \<Rightarrow> char16 list" where
  "hex_digits v d = map (hex_char v) (rev [0..<Suc d])"

lemma modifiers_length: "length (fst (modifiers cs d)) \<le> length cs"
  by (induction cs d rule: modifiers.induct) auto

function render :: "char16 list \<Rightarrow> vararg list \<Rightarrow> char16 list option" where
  "render [] args = Some []"
| "render (c # cs) args =
     (if c = 0 then Some []
      else if c \<noteq> 0x25 then map_option (\<lambda>t. c # t) (render cs args)
      else (case modifiers cs 7 of
              ([], _) \<Rightarrow> Some []
            | (d # ds, digit_index) \<Rightarrow>
                if d = 0 then Some []
                else if is_s d then
                  (case str_arg args of
                     None \<Rightarrow> None
                   | Some (str, rest) \<Rightarrow>
                       map_option (\<lambda>t. takeWhile (\<lambda>x. x \<noteq> 0) str @ t) (render ds rest))
                else if is_x d then
                  (case hex_arg digit_index args of
                     None \<Rightarrow> None
                   | Some (v, rest) \<Rightarrow>
                       map_option (\<lambda>t. hex_digits v digit_index @ t) (render ds rest))
                else map_option (\<lambda>t. d # t) (render ds args)))"
  by pat_completeness auto
termination
proof (relation "measure (\<lambda>(f, a). length f)", goal_cases)
  case 1
  then show ?case by simp
next
  case (2 c cs args)
  then show ?case by simp
next
  case (3 c cs args x y d ds z str rest)
  then show ?case using modifiers_length [of cs 7] by (metis Suc_le_eq case_prod_conv fst_conv
    in_measure le_imp_less_Suc length_Cons less_SucI)
next
  case (4 c cs args x y d ds z v rest)
  then show ?case using modifiers_length [of cs 7] by (metis Suc_le_eq case_prod_conv fst_conv
    in_measure le_imp_less_Suc length_Cons less_SucI)
next
  case (5 c cs args x y d ds)
  then show ?case using modifiers_length [of cs 7] by (metis Suc_le_eq case_prod_conv fst_conv
    in_measure le_imp_less_Suc length_Cons less_SucI)
qed

declare render.simps [simp del]

section \<open>The formatter implements the rendering\<close>

definition blit :: "char16 list \<Rightarrow> nat \<Rightarrow> char16 list \<Rightarrow> char16 list" where
  "blit buf o' str = take o' buf @ str @ drop (o' + length str) buf"

lemma length_blit [bytes_simps]:
  "o' + length str \<le> length buf \<Longrightarrow> length (blit buf o' str) = length buf"
  by (simp add: blit_def)

lemma blit_Nil [bytes_simps]: "blit buf o' [] = buf"
  by (simp add: blit_def)

lemma blit_blit:
  "o' + length (xs @ ys) \<le> length buf \<Longrightarrow>
   blit (blit buf o' xs) (o' + length xs) ys = blit buf o' (xs @ ys)"
  by (simp add: blit_def algebra_simps)

lemma put_blit: "i < length buf \<Longrightarrow> put buf i c = Some (blit buf i [c])"
  by (simp add: put_def blit_def upd_conv_take_nth_drop)

lemma blit_Cons:
  "Suc o' + length ys \<le> length buf \<Longrightarrow> blit (blit buf o' [c]) (Suc o') ys = blit buf o' (c # ys)"
  using blit_blit [of o' "[c]" ys buf] by simp

lemma copy_str_blit:
  "n \<le> length buf \<Longrightarrow> out_i \<le> n - 1 \<Longrightarrow>
   copy_str n str out_i buf =
     (let t = take (n - 1 - out_i) (takeWhile (\<lambda>x. x \<noteq> 0) str)
      in Some (out_i + length t, blit buf out_i t))"
proof (induction n str out_i buf rule: copy_str.induct)
  case (1 n out_i buf)
  then show ?case by (simp add: bytes_simps)
next
  case (2 n c str out_i buf)
  show ?case
  proof (cases "c \<noteq> 0 \<and> out_i < n - 1")
    case True
    let ?t = "take (n - 1 - Suc out_i) (takeWhile (\<lambda>x. x \<noteq> 0) str)"
    have k: "n - Suc out_i = Suc (n - Suc (Suc out_i))" using True by linarith
    have lt: "Suc out_i \<le> length buf" using True "2.prems" by linarith
    have "copy_str n str (out_i + 1) (blit buf out_i [c]) =
        Some (Suc out_i + length ?t, blit (blit buf out_i [c]) (Suc out_i) ?t)"
      using 2 True lt by (simp add: put_blit bytes_simps Let_def)
    moreover have "length ?t \<le> n - Suc (Suc out_i)" by simp
    with True "2.prems" have "Suc out_i + length ?t \<le> length buf" by linarith
    ultimately show ?thesis using True 2
      by (simp add: put_blit blit_Cons k Let_def del: length_take)
  next
    case False
    then show ?thesis using 2 by (auto simp: bytes_simps)
  qed
qed

lemma hex_digits_Suc: "hex_digits v (Suc d) = hex_char v (Suc d) # hex_digits v d"
  by (simp add: hex_digits_def)

lemma put_hex_blit:
  "n \<le> length buf \<Longrightarrow> out_i \<le> n - 1 \<Longrightarrow>
   put_hex n v d out_i buf =
     (let t = take (n - 1 - out_i) (hex_digits v d)
      in Some (out_i + length t, blit buf out_i t))"
proof (induction n v d out_i buf rule: put_hex.induct)
  case (1 n v out_i buf)
  then show ?case
    by (cases "n - 1 - out_i") (simp_all add: hex_digits_def put_blit bytes_simps Let_def)
next
  case (2 n v d out_i buf)
  show ?case
  proof (cases "out_i < n - 1")
    case True
    let ?t = "take (n - 1 - Suc out_i) (hex_digits v d)"
    have k: "n - Suc out_i = Suc (n - Suc (Suc out_i))" using True by linarith
    have lt: "Suc out_i \<le> length buf" using True "2.prems" by linarith
    have "put_hex n v d (out_i + 1) (blit buf out_i [hex_char v (Suc d)]) =
        Some (Suc out_i + length ?t, blit (blit buf out_i [hex_char v (Suc d)]) (Suc out_i) ?t)"
      using 2 True lt by (simp add: put_blit bytes_simps Let_def)
    moreover have "length ?t \<le> n - Suc (Suc out_i)" by simp
    with True "2.prems" have "Suc out_i + length ?t \<le> length buf" by linarith
    ultimately show ?thesis using True 2
      by (simp add: put_blit blit_Cons k Let_def hex_digits_Suc
          del: length_take)
  next
    case False
    then show ?thesis using 2 by (simp add: bytes_simps)
  qed
qed

lemma recheck_fmt_modifiers:
  assumes "i \<le> length fmt" and "recheck_fmt fmt i d = (j, d')"
  shows "modifiers (drop i fmt) d = (drop j fmt, d') \<and> i \<le> j \<and> j \<le> length fmt"
  using assms
proof (induction fmt i d rule: recheck_fmt.induct)
  case (1 fmt i d)
  show ?case
  proof (cases "i < length fmt")
    case True
    then have dr: "drop i fmt = fmt ! i # drop (Suc i) fmt" by (rule Cons_nth_drop_Suc [symmetric])
    consider "is_l (fmt ! i)" | "\<not> is_l (fmt ! i)" "is_h (fmt ! i)"
      | "\<not> is_l (fmt ! i)" "\<not> is_h (fmt ! i)" by blast
    then show ?thesis
    proof cases
      case 1
      then show ?thesis using "1.IH"(1) "1.prems" True by (simp add: dr recheck_fmt.simps [of fmt i d])
    next
      case 2
      then show ?thesis using "1.IH"(2) "1.prems" True by (simp add: dr recheck_fmt.simps [of fmt i d])
    next
      case 3
      then have "j = i" "d' = d" using "1.prems" True by (simp_all add: recheck_fmt.simps [of fmt i d])
      moreover have "modifiers (drop i fmt) d = (drop i fmt, d)" using 3 by (simp add: dr)
      ultimately show ?thesis using True by simp
    qed
  next
    case False
    then show ?thesis using "1.prems" by (auto simp: recheck_fmt.simps [of fmt "length fmt" d])
  qed
qed

text \<open>One emitted fragment \<open>t\<close>, then the rest of the format.\<close>

lemma blit_fragment:
  assumes "n \<le> length buf" and "0 < n" and "out_i \<le> n - 1"
    and "k = length (take (n - 1 - out_i) t)"
  shows "blit (blit buf out_i (take (n - 1 - out_i) t)) (out_i + k)
           (take (n - 1 - (out_i + k)) u @ [0])
         = blit buf out_i (take (n - 1 - out_i) (t @ u) @ [0])"
proof -
  have "out_i + length (take (n - 1 - out_i) t @ take (n - 1 - (out_i + k)) u @ [0]) \<le> length buf"
    using assms by auto
  then show ?thesis using assms(4)
    by (subst assms(4), subst blit_blit) (auto simp: min_def split: if_splits)
qed

lemma vsn_loop_full:
  "n \<le> length buf \<Longrightarrow> 0 < n \<Longrightarrow> out_i = n - 1 \<Longrightarrow>
   vsn_loop n fmt i out_i buf args = Some (blit buf out_i [0])"
  by (simp add: vsn_loop.simps [of n fmt i] put_blit)

text \<open>What an iteration leaves to the rest of the loop, in terms of the text \<open>t\<close> it produces.\<close>

definition rest_renders :: "nat \<Rightarrow> char16 list \<Rightarrow> nat \<Rightarrow> nat \<Rightarrow> char16 list \<Rightarrow> bool" where
  "rest_renders n fmt i out_i buf \<longleftrightarrow> (\<forall>j u t v args.
     u = take (n - 1 - out_i) t \<longrightarrow> i < j \<longrightarrow> j \<le> length fmt \<longrightarrow> render (drop j fmt) args = Some v \<longrightarrow>
     vsn_loop n fmt j (out_i + length u) (blit buf out_i u) args =
       Some (blit buf out_i (take (n - 1 - out_i) (t @ v) @ [0])))"

lemma rest_renders_text:
  "rest_renders n fmt i out_i buf \<Longrightarrow> u = take (n - 1 - out_i) t \<Longrightarrow> i < j \<Longrightarrow> j \<le> length fmt \<Longrightarrow>
   render (drop j fmt) args = Some v \<Longrightarrow> vsn_loop n fmt j (out_i + length u) (blit buf out_i u) args =
     Some (blit buf out_i (take (n - 1 - out_i) (t @ v) @ [0]))"
  unfolding rest_renders_def by blast

lemma rest_renders_char:
  assumes "rest_renders n fmt i out_i buf" and "out_i < n - 1"
    and "i < j" and "j \<le> length fmt" and "render (drop j fmt) args = Some v"
  shows "vsn_loop n fmt j (Suc out_i) (blit buf out_i [x]) args =
    Some (blit buf out_i (take (n - Suc out_i) (x # v) @ [0]))"
proof -
  have "[x] = take (n - 1 - out_i) [x]" using assms(2) by (cases "n - 1 - out_i") simp_all
  from rest_renders_text [OF assms(1) this assms(3-5)] show ?thesis by simp
qed

text \<open>An iteration at a percent sign.\<close>

lemma vsn_loop_percent:
  assumes bounds: "n \<le> length buf" "out_i < n - 1" "i < length fmt"
    and pc: "fmt ! i = 0x25" and tx: "render (drop i fmt) args = Some tx"
    and rest: "rest_renders n fmt i out_i buf"
  shows "vsn_loop n fmt i out_i buf args = Some (blit buf out_i (take (n - 1 - out_i) tx @ [0]))"
proof -
  have dr: "drop i fmt = 0x25 # drop (Suc i) fmt" using bounds(3) pc by (simp add: Cons_nth_drop_Suc [symmetric])
  have ca: "char_at fmt i = Some 0x25" using bounds(3) pc by (simp add: char_at_def)
  have lt: "out_i < length buf" using bounds by linarith
  obtain si di where rc: "recheck_fmt fmt (Suc i) 7 = (si, di)" by fastforce
  then have m: "modifiers (drop (Suc i) fmt) 7 = (drop si fmt, di)" "Suc i \<le> si" "si \<le> length fmt"
    using recheck_fmt_modifiers [of "Suc i" fmt 7 si di] bounds(3) by auto
  note unf = vsn_loop.simps [of n fmt i out_i]
  show ?thesis
  proof (cases "si = length fmt")
    case True
    then have "char_at fmt si = Some 0" by (simp add: char_at_def)
    then show ?thesis using tx bounds lt m(1) rc True
      by (simp add: unf ca dr render.simps put_blit)
  next
    case False
    define d where "d = fmt ! si"
    have dr': "drop si fmt = d # drop (Suc si) fmt" using False m by (simp add: Cons_nth_drop_Suc d_def)
    have ca': "char_at fmt si = Some d" using False m by (simp add: char_at_def d_def)
    have si: "i < Suc si" "Suc si \<le> length fmt" using m False by simp_all
    note step = unf ca ca' rc
    note rn = tx [unfolded dr render.simps]
    note emit = rest_renders_text [OF rest refl si] and emit1 = rest_renders_char [OF rest bounds(2) si]
    consider "d = 0" | "d \<noteq> 0" "is_s d" | "d \<noteq> 0" "\<not> is_s d" "is_x d"
      | "d \<noteq> 0" "\<not> is_s d" "\<not> is_x d" by blast
    then show ?thesis
    proof cases
      case 1
      then show ?thesis using rn bounds lt m(1) by (simp add: step dr' put_blit)
    next
      case 2
      then obtain str rest v where
        *: "str_arg args = Some (str, rest)" "render (drop (Suc si) fmt) rest = Some v"
          "tx = takeWhile (\<lambda>x. x \<noteq> 0) str @ v"
        using rn m(1) by (auto simp: dr' split: option.splits)
      then show ?thesis using 2 bounds emit [OF *(2)]
        by (simp add: step copy_str_blit Let_def)
    next
      case hex: 3
      then obtain w rest v where
        *: "hex_arg di args = Some (w, rest)" "render (drop (Suc si) fmt) rest = Some v"
          "tx = hex_digits w di @ v"
        using rn m(1) by (auto simp: dr' simp del: hex_arg.simps split: option.splits)
      then show ?thesis using hex bounds emit [OF *(2)]
        by (simp add: step put_hex_blit Let_def del: hex_arg.simps)
    next
      case 4
      then obtain v where *: "render (drop (Suc si) fmt) args = Some v" "tx = d # v"
        using rn m(1) by (auto simp: dr')
      then show ?thesis using 4 bounds lt emit1 [OF *(1), of d]
        by (simp add: step put_blit)
    qed
  qed
qed

lemma vsn_loop_render:
  assumes "n \<le> length buf" and "0 < n" and "out_i \<le> n - 1" and "i \<le> length fmt"
    and "render (drop i fmt) args = Some tx"
  shows "vsn_loop n fmt i out_i buf args = Some (blit buf out_i (take (n - 1 - out_i) tx @ [0]))"
  using assms
proof (induction "length fmt - i" arbitrary: i out_i buf args tx rule: less_induct)
  case less
  consider "out_i = n - 1" | "out_i < n - 1" "i = length fmt" | "out_i < n - 1" "i < length fmt"
    using less.prems by linarith
  then show ?case
  proof cases
    case 1
    then show ?thesis using less.prems by (simp add: vsn_loop_full)
  next
    case 2
    then show ?thesis using less.prems
      by (simp add: vsn_loop.simps [of n fmt "length fmt"] char_at_def put_blit render.simps)
  next
    case 3
    define c where "c = fmt ! i"
    have dr: "drop i fmt = c # drop (Suc i) fmt" using 3 by (simp add: Cons_nth_drop_Suc c_def)
    have ca: "char_at fmt i = Some c" using 3 by (simp add: char_at_def c_def)
    have lt: "out_i < length buf" using 3 less.prems by linarith
    have rest: "rest_renders n fmt i out_i buf" unfolding rest_renders_def
    proof (intro allI impI)
      fix j and u t v :: "char16 list" and args'
      assume *: "u = take (n - 1 - out_i) t" "i < j" "j \<le> length fmt" "render (drop j fmt) args' = Some v"
      have "length u \<le> n - 1 - out_i" using *(1) by simp
      then have u: "out_i + length u \<le> n - 1" "out_i + length u \<le> length buf"
        using 3 less.prems by linarith+
      then have "vsn_loop n fmt j (out_i + length u) (blit buf out_i u) args' =
          Some (blit (blit buf out_i u) (out_i + length u) (take (n - 1 - (out_i + length u)) v @ [0]))"
        using * less.prems by (intro less.hyps) (simp_all add: length_blit)
      then show "vsn_loop n fmt j (out_i + length u) (blit buf out_i u) args' =
          Some (blit buf out_i (take (n - 1 - out_i) (t @ v) @ [0]))"
        using *(1) less.prems blit_fragment [of n buf out_i "length u" t v] by simp
    qed
    consider "c = 0" | "c \<noteq> 0" "c \<noteq> 0x25" | "c = 0x25" by blast
    then show ?thesis
    proof cases
      case 1
      then show ?thesis using less.prems 3 lt
        by (simp add: vsn_loop.simps [of n fmt i out_i] ca dr render.simps put_blit)
    next
      case 2
      then obtain v where v: "render (drop (Suc i) fmt) args = Some v" "tx = c # v"
        using less.prems(5) by (auto simp: dr render.simps)
      have "i < Suc i" "Suc i \<le> length fmt" using 3 by simp_all
      from rest_renders_char [OF rest 3(1) this v(1), of c] show ?thesis using 2 3 lt v(2)
        by (simp add: vsn_loop.simps [of n fmt i out_i] ca put_blit)
    next
      case pc: 3
      then show ?thesis using vsn_loop_percent [OF less.prems(1) 3 _ less.prems(5) rest] by (simp add: c_def)
    qed
  qed
qed
section \<open>Printing\<close>

text \<open>
  \<open>print\<close> hands a string, up to its NUL, to the firmware's console. \<open>printf\<close> formats into a local
  buffer of \<open>0x400\<close> elements first; the buffer is not initialised, and \<open>printf_in\<close> has its
  contents as a parameter. A \<open>va_arg\<close> that does not fit the format is undefined behaviour of the
  caller.
\<close>

definition print :: "env \<Rightarrow> char16 list \<Rightarrow> (unit, 'z world_scheme) prog" where
  "print e str = extu e (OutputString (takeWhile (\<lambda>c. c \<noteq> 0) str))"

definition printf_in ::
  "char16 list \<Rightarrow> env \<Rightarrow> string \<Rightarrow> vararg list \<Rightarrow> (unit, 'z world_scheme) prog" where
  "printf_in buffer e fmt varargs =
     (case vsnprintf buffer 0x400 (wide fmt) varargs of
        None \<Rightarrow> crash
      | Some text \<Rightarrow> print e text)"

definition printf :: "env \<Rightarrow> string \<Rightarrow> vararg list \<Rightarrow> (unit, 'z world_scheme) prog" where
  "printf e fmt varargs = printf_in (replicate 0x400 0) e fmt varargs"

lemma print_apply [run_simps]:
  "print e str s = Done () (emit e (OutputString (takeWhile (\<lambda>c. c \<noteq> 0) str)) s)"
  by (simp add: print_def run_simps)

lemma str_arg_content: "str_arg args = Some (str, rest) \<Longrightarrow> 0 \<notin> set (takeWhile (\<lambda>x. x \<noteq> 0) str)"
  by (auto dest: set_takeWhileD)

lemma hex_chars_nonzero: "k < 16 \<Longrightarrow> hex_chars ! k \<noteq> 0"
proof -
  assume "k < 16"
  then have "hex_chars ! k \<in> set hex_chars" by (intro nth_mem) (simp add: hex_chars_def)
  then show ?thesis by (auto simp: hex_chars_def)
qed

lemma nibble_less: "unat (drop_bit k v AND 0xf :: u64) < 16"
proof -
  have "drop_bit k v AND 0xf = take_bit 4 (drop_bit k v)"
    by (simp add: take_bit_eq_mask mask_eq_exp_minus_1)
  then show ?thesis using take_bit_nat_less_exp [of 4 "unat (drop_bit k v)"]
    by (simp add: unsigned_take_bit_eq)
qed

lemma hex_char_nonzero: "hex_char v d \<noteq> 0"
  unfolding hex_char_def by (rule hex_chars_nonzero) (rule nibble_less)

lemma render_no_NUL: "render fmt args = Some tx \<Longrightarrow> 0 \<notin> set tx"
proof (induction fmt args arbitrary: tx rule: render.induct)
  case (1 args)
  then show ?case by (simp add: render.simps)
next
  case (2 c cs args)
  obtain r di where m: "modifiers cs 7 = (r, di)" by fastforce
  consider "c = 0" | "c \<noteq> 0" "c \<noteq> 0x25" | "c = 0x25" by blast
  then show ?case
  proof cases
    case 1
    then show ?thesis using "2.prems" by (simp add: render.simps)
  next
    case 2
    then show ?thesis using "2.IH"(1) "2.prems" by (auto simp: render.simps)
  next
    case 3
    show ?thesis
    proof (cases r)
      case Nil
      then show ?thesis using 3 "2.prems" m by (simp add: render.simps)
    next
      case (Cons d ds)
      show ?thesis
        using "2.prems" 3 m Cons "2.IH"(2) [OF _ _ m [symmetric] Cons]
          "2.IH"(3) [OF _ _ m [symmetric] Cons] "2.IH"(4) [OF _ _ m [symmetric] Cons]
        by (auto simp: render.simps hex_digits_def hex_char_nonzero dest: str_arg_content set_takeWhileD
            simp del: hex_arg.simps split: if_splits option.splits)
    qed
  qed
qed

lemma printf_in_renders:
  assumes "length buffer = 0x400" and "render (wide fmt) args = Some tx"
  shows "printf_in buffer e fmt args = extu e (OutputString (take 0x3ff tx))"
proof -
  have "vsnprintf buffer 0x400 (wide fmt) args = Some (blit buffer 0 (take 0x3ff tx @ [0]))"
    using vsn_loop_render [of "0x400" buffer 0 0 "wide fmt" args tx] assms
    by (simp add: vsnprintf_def)
  moreover have "0 \<notin> set (take 0x3ff tx)"
    using render_no_NUL [OF assms(2)] in_set_takeD by fast
  ultimately show ?thesis by (simp add: printf_in_def print_def blit_def takeWhile_append)
qed

lemma printf_renders:
  "render (wide fmt) args = Some tx \<Longrightarrow> printf e fmt args = extu e (OutputString (take 0x3ff tx))"
  unfolding printf_def by (rule printf_in_renders) simp

section \<open>Formats and their arguments\<close>

text \<open>
  \<open>accepts fmt args\<close>: every \<open>%s\<close> of the format finds a string and every \<open>%x\<close> an integer, so the
  formatter never goes wrong on it. The formats of the program are literals, for which this is a
  computation.
\<close>

fun accepts :: "string \<Rightarrow> vararg list \<Rightarrow> bool" and accepts_spec :: "string \<Rightarrow> vararg list \<Rightarrow> bool" where
  "accepts [] args = True"
| "accepts (c # cs) args = (if c = CHR ''%'' then accepts_spec cs args else accepts cs args)"
| "accepts_spec [] args = True"
| "accepts_spec (c # cs) args =
     (if c \<in> {CHR ''l'', CHR ''L'', CHR ''h'', CHR ''H''} then accepts_spec cs args
      else if c \<in> {CHR ''s'', CHR ''S''} then
        (case args of VStr str # rest \<Rightarrow> accepts cs rest | _ \<Rightarrow> False)
      else if c \<in> {CHR ''x'', CHR ''X''} then
        (case args of VInt v # rest \<Rightarrow> accepts cs rest | _ \<Rightarrow> False)
      else accepts cs args)"

lemma accepts_crlf [simp]: "accepts crlf args" "accepts (crlf @ str) args = accepts str args"
  by (simp_all add: crlf_def)

lemma accepts_plain: "CHR ''%'' \<notin> set str \<Longrightarrow> accepts (str @ fmt) args = accepts fmt args"
  by (induction str) auto

lemma of_char_char16: "(of_char c :: char16) = of_char d \<longleftrightarrow> c = d"
proof -
  have "unat (of_char x :: char16) = of_char x" for x
  proof -
    have "(of_char x :: char16) = of_nat (of_char x)" by (rule of_nat_of_char [symmetric])
    moreover have "(of_char x :: nat) < 256" by simp
    then have "(of_char x :: nat) < 2 ^ 16" by (rule less_trans) simp
    then have "(of_char x :: nat) mod 2 ^ 16 = of_char x" by (rule mod_less)
    ultimately show ?thesis by (simp only: unat_of_nat) simp
  qed
  then show ?thesis by (metis of_char_eq_iff)
qed

lemma spec_chars:
  "(of_char c :: char16) = 0x25 \<longleftrightarrow> c = CHR ''%''"
  "is_l (of_char c) \<longleftrightarrow> c = CHR ''l'' \<or> c = CHR ''L''" "is_h (of_char c) \<longleftrightarrow> c = CHR ''h'' \<or> c = CHR ''H''"
  "is_s (of_char c) \<longleftrightarrow> c = CHR ''S'' \<or> c = CHR ''s''" "is_x (of_char c) \<longleftrightarrow> c = CHR ''x'' \<or> c = CHR ''X''"
  using of_char_char16 [of c "CHR ''%''"] of_char_char16 [of c "CHR ''l''"] of_char_char16 [of c "CHR ''L''"]
    of_char_char16 [of c "CHR ''h''"] of_char_char16 [of c "CHR ''H''"] of_char_char16 [of c "CHR ''S''"]
    of_char_char16 [of c "CHR ''s''"] of_char_char16 [of c "CHR ''x''"] of_char_char16 [of c "CHR ''X''"]
  by (simp_all add: fmt_chars)

lemma wide_simps: "wide [] = []" "wide (c # cs) = of_char c # wide cs"
  by (simp_all add: wide_def)

text \<open>The part of \<open>render\<close> after a percent sign, whose modifiers have been read.\<close>

definition render_at :: "char16 list \<times> nat \<Rightarrow> vararg list \<Rightarrow> char16 list option" where
  "render_at m args = (case m of
      ([], _) \<Rightarrow> Some []
    | (d # ds, digit_index) \<Rightarrow>
        if d = 0 then Some []
        else if is_s d then
          (case str_arg args of
             None \<Rightarrow> None
           | Some (str, rest) \<Rightarrow> map_option (\<lambda>t. takeWhile (\<lambda>x. x \<noteq> 0) str @ t) (render ds rest))
        else if is_x d then
          (case hex_arg digit_index args of
             None \<Rightarrow> None
           | Some (v, rest) \<Rightarrow> map_option (\<lambda>t. hex_digits v digit_index @ t) (render ds rest))
        else map_option (\<lambda>t. d # t) (render ds args))"

lemma render_Cons:
  "render (c # cs) args =
     (if c = 0 then Some [] else if c \<noteq> 0x25 then map_option (\<lambda>t. c # t) (render cs args)
      else render_at (modifiers cs 7) args)"
  by (simp add: render.simps render_at_def)

lemma accepts_render:
  "accepts fmt args \<Longrightarrow> \<exists>tx. render (wide fmt) args = Some tx"
  "accepts_spec cs args' \<Longrightarrow> d = 7 \<or> d = 15 \<or> d = 1 \<Longrightarrow>
     \<exists>tx. render_at (modifiers (wide cs) d) args' = Some tx"
proof (induction fmt args and cs args' arbitrary: and d rule: accepts_accepts_spec.induct)
  case (4 c cs args)
  have plain: "\<not> is_l (of_char c)" "\<not> is_h (of_char c)"
    if "c \<notin> {CHR ''l'', CHR ''L'', CHR ''h'', CHR ''H''}"
    using that by (simp_all add: spec_chars)
  consider (mod) "c \<in> {CHR ''l'', CHR ''L'', CHR ''h'', CHR ''H''}"
    | (str) "c \<notin> {CHR ''l'', CHR ''L'', CHR ''h'', CHR ''H''}" "c \<in> {CHR ''s'', CHR ''S''}"
    | (hex) "c \<notin> {CHR ''l'', CHR ''L'', CHR ''h'', CHR ''H''}" "c \<notin> {CHR ''s'', CHR ''S''}"
        "c \<in> {CHR ''x'', CHR ''X''}"
    | (other) "c \<notin> {CHR ''l'', CHR ''L'', CHR ''h'', CHR ''H''}" "c \<notin> {CHR ''s'', CHR ''S''}"
        "c \<notin> {CHR ''x'', CHR ''X''}"
    by blast
  then show ?case
  proof cases
    case mod
    then have "accepts_spec cs args" using "4.prems"(1) by simp
    moreover have "is_l (of_char c) \<or> is_h (of_char c)" using mod by (auto simp: spec_chars)
    ultimately show ?thesis using 4(1) [OF mod] by (auto simp: wide_simps)
  next
    case str
    then obtain t rest where a: "args = VStr t # rest" "accepts cs rest"
      using "4.prems"(1) by (auto split: list.splits vararg.splits)
    with 4(2) [OF str a(1) refl] obtain tx where "render (wide cs) rest = Some tx" by blast
    moreover have "is_s (of_char c)" using str(2) by (auto simp: spec_chars)
    ultimately show ?thesis using plain [OF str(1)] a(1)
      by (simp add: wide_simps render_at_def)
  next
    case hex
    then obtain v rest where a: "args = VInt v # rest" "accepts cs rest"
      using "4.prems"(1) by (auto split: list.splits vararg.splits)
    with 4(3) [OF hex a(1) refl] obtain tx where "render (wide cs) rest = Some tx" by blast
    moreover obtain w where "hex_arg d args = Some (w, rest)" using a(1) "4.prems"(2) by auto
    moreover have "is_x (of_char c)" "\<not> is_s (of_char c)" using hex(2,3) by (auto simp: spec_chars)
    ultimately show ?thesis using plain [OF hex(1)]
      by (simp add: wide_simps render_at_def del: hex_arg.simps)
  next
    case other
    then have "accepts cs args" using "4.prems"(1) by simp
    with 4(4) [OF other] obtain tx where "render (wide cs) args = Some tx" by blast
    moreover have "\<not> is_s (of_char c)" "\<not> is_x (of_char c)" using other(2,3) by (simp_all add: spec_chars)
    ultimately show ?thesis using plain [OF other(1)]
      by (simp add: wide_simps render_at_def)
  qed
qed (auto simp: wide_simps spec_chars render_Cons render_at_def render.simps(1))

definition formatted :: "string \<Rightarrow> vararg list \<Rightarrow> char16 list" where
  "formatted fmt args = take 0x3ff (the (render (wide fmt) args))"

lemma printf_accepts: "accepts fmt args \<Longrightarrow> printf e fmt args = extu e (OutputString (formatted fmt args))"
  using accepts_render(1) by (fastforce simp: formatted_def intro: printf_renders)

lemma printf_apply [run_simps]:
  "accepts fmt args \<Longrightarrow> printf e fmt args s = Done () (emit e (OutputString (formatted fmt args)) s)"
  by (simp add: printf_accepts run_simps)

section \<open>Choosing the text mode\<close>

text \<open>
  \<open>print_init\<close>'s loop asks for the modes 0, 1, 2, ... until one other than 1 is refused and keeps
  the first one with the largest area. Nothing in the code bounds it, so it runs on fuel:
  \<open>None\<close> is running out.
\<close>

fun query_modes ::
  "nat \<Rightarrow> env \<Rightarrow> u64 \<Rightarrow> u64 \<Rightarrow> u64 \<Rightarrow> (u64 option, 'z world_scheme) prog" where
  "query_modes 0 e current_mode max_area selected_mode = return None"
| "query_modes (Suc fuel) e current_mode max_area selected_mode =
     andthen (ext e (QueryMode current_mode)) (\<lambda>r.
       if status r \<noteq> EFI_SUCCESS then
         (if current_mode = 1 then query_modes fuel e (current_mode + 1) max_area selected_mode
          else return (Some selected_mode))
       else
         (let rows = val0 r; cols = val1 r; area = rows * cols in
          if area > max_area then
            andthen (printf e (''Candidate text mode: 0x%x (rows: 0x%x, cols: 0x%x, area: 0x%x)'' @ crlf)
                       [VInt current_mode, VInt rows, VInt cols, VInt area])
              (\<lambda>_. query_modes fuel e (current_mode + 1) area current_mode)
          else query_modes fuel e (current_mode + 1) max_area selected_mode))"

definition print_init :: "nat \<Rightarrow> env \<Rightarrow> (unit option, 'z world_scheme) prog" where
  "print_init fuel e =
     andthen (query_modes fuel e 0 0 0) (\<lambda>found. case found of
         None \<Rightarrow> return None
       | Some selected_mode \<Rightarrow>
           andthen (printf e (''Setting text mode 0x%x'' @ crlf) [VInt selected_mode]) (\<lambda>_.
           andthen (ext e (SetMode selected_mode)) (\<lambda>r.
           andthen (only_if (status r \<noteq> EFI_SUCCESS)
                      (print e (wide (''Could not set the new text mode!'' @ crlf)))) (\<lambda>_.
           return (Some ())))))"

section \<open>Properties of the formatter\<close>

text \<open>C29: \<open>vsnprintf\<close> implements the rendering. Whenever the arguments fit the format, a buffer of
  \<open>n\<close> elements receives the rendered text, cut to \<open>n - 1\<close> elements and terminated by NUL, no
  element after the terminator is touched, and no access leaves the buffer or the format.\<close>

theorem vsnprintf_renders:
  assumes "0 < n" and "n \<le> length buf" and "render fmt args = Some tx"
  shows "vsnprintf buf n fmt args =
           Some (take (n - 1) tx @ [0] @ drop (Suc (min (length tx) (n - 1))) buf)"
proof -
  have "vsnprintf buf n fmt args = Some (blit buf 0 (take (n - 1) tx @ [0]))"
    using vsn_loop_render [of n buf 0 0 fmt args tx] assms by (simp add: vsnprintf_def)
  then show ?thesis by (simp add: blit_def min_def)
qed

theorem vsnprintf_renders_witness:
  "vsnprintf (replicate 8 7) 6 (wide ''<%hx%%>'') [VInt 0xa5]
     = Some (wide ''<A5%>'' @ [0, 7, 7])"
proof -
  have "render (wide ''<%hx%%>'') [VInt 0xa5] = Some (wide ''<A5%>'')"
    by (simp add: wide_def render.simps fmt_chars hex_digits_def hex_char_def hex_chars_def)
  then show ?thesis
    using vsnprintf_renders [of 6 "replicate 8 7" "wide ''<%hx%%>''" "[VInt 0xa5]" "wide ''<A5%>''"]
    by (simp add: wide_def numeral_eq_Suc)
qed

text \<open>C30: \<open>printf\<close> sends the rendered text. Whatever its uninitialised buffer holds, when the
  arguments fit the format the only effect of a \<open>printf\<close> is one line to the console: the rendered
  text, cut to the \<open>0x3ff\<close> elements the buffer has room for.\<close>

theorem printf_text:
  assumes "length buffer = 0x400" and "render (wide fmt) args = Some tx"
  shows "printf_in buffer e fmt args s = Done () (emit e (OutputString (take 0x3ff tx)) s) \<and>
    printf e fmt args s = Done () (emit e (OutputString (take 0x3ff tx)) s)"
  by (simp add: printf_in_renders [OF assms] printf_renders [OF assms(2)] extu_apply)

theorem printf_text_witness:
  "\<forall>e (s :: world).
     printf_in (replicate 0x400 0x41) e ''PT[%x]'' [VInt 0x1ff] s =
       Done () (emit e (OutputString (wide ''PT[000001FF]'')) s) \<and>
     printf e ''PT[%x]'' [VInt 0x1ff] s = Done () (emit e (OutputString (wide ''PT[000001FF]'')) s)"
proof (intro allI)
  fix e and s :: world
  have "render (wide ''PT[%x]'') [VInt 0x1ff] = Some (wide ''PT[000001FF]'')"
    by (simp add: wide_def render.simps fmt_chars hex_digits_def hex_char_def hex_chars_def upt_rec)
  from printf_text [OF _ this, of "replicate 0x400 0x41" e s]
  show "printf_in (replicate 0x400 0x41) e ''PT[%x]'' [VInt 0x1ff] s =
       Done () (emit e (OutputString (wide ''PT[000001FF]'')) s) \<and>
     printf e ''PT[%x]'' [VInt 0x1ff] s = Done () (emit e (OutputString (wide ''PT[000001FF]'')) s)"
    by (simp add: wide_def)
qed

text \<open>Reading hexadecimal digits back.\<close>

fun hex_value :: "char16 list \<Rightarrow> nat" where
  "hex_value [] = 0"
| "hex_value (c # cs) =
     (if c \<le> 0x39 then unat c - 48 else unat c - 55) * 16 ^ length cs + hex_value cs"

lemma hex_value_char: "k < 16 \<Longrightarrow> hex_value [hex_chars ! k] = k"
proof -
  have "\<forall>k \<in> {0..<16}. hex_value [hex_chars ! k] = k"
    by (simp add: atLeastLessThan_nat_numeral hex_chars_def)
  then show "k < 16 \<Longrightarrow> ?thesis" by simp
qed

lemma unat_nibble: "unat (drop_bit (d * 4) v AND 0xf :: u64) = unat v div 16 ^ d mod 16"
proof -
  have "drop_bit (d * 4) v AND 0xf = take_bit 4 (drop_bit (d * 4) v)"
    by (simp add: take_bit_eq_mask mask_eq_exp_minus_1)
  moreover have "unat (take_bit 4 (drop_bit (d * 4) v)) = take_bit 4 (drop_bit (d * 4) (unat v))"
    by (simp add: unsigned_take_bit_eq unsigned_drop_bit_eq)
  moreover have "\<dots> = unat v div 2 ^ (d * 4) mod 2 ^ 4"
    by (simp only: take_bit_eq_mod drop_bit_eq_div)
  ultimately have "unat (drop_bit (d * 4) v AND 0xf) = unat v div 2 ^ (d * 4) mod 2 ^ 4"
    by (simp only:)
  moreover have "2 ^ (d * 4) = (16 :: nat) ^ d" by (simp add: mult.commute [of d] power_mult)
  ultimately show ?thesis by (simp only:) simp
qed

lemma hex_value_hex_char: "hex_value [hex_char v d] = unat v div 16 ^ d mod 16"
  unfolding hex_char_def by (subst hex_value_char) (simp_all add: unat_nibble)

lemma hex_value_Cons: "hex_value (c # cs) = hex_value [c] * 16 ^ length cs + hex_value cs"
  by simp

lemma hex_value_digits: "hex_value (hex_digits v d) = unat v mod 16 ^ Suc d"
proof (induction d)
  case 0
  then show ?case by (simp add: hex_digits_def hex_value_hex_char del: hex_value.simps)
next
  case (Suc d)
  have "length (hex_digits v d) = Suc d" by (simp add: hex_digits_def)
  then have "hex_value (hex_digits v (Suc d)) =
      (unat v div 16 ^ Suc d mod 16) * 16 ^ Suc d + unat v mod 16 ^ Suc d"
    using Suc by (simp only: hex_digits_Suc hex_value_Cons [of "hex_char v (Suc d)"] hex_value_hex_char)
  also have "\<dots> = unat v mod (16 ^ Suc d * 16)"
    using mod_mult2_eq [of "unat v" "16 ^ Suc d" 16] by (simp only: mult.commute)
  finally show ?case by (simp add: mult.commute)
qed

text \<open>C31: the sixteen digits \<open>%lx\<close> prints determine the value: reading them back gives it.\<close>

theorem hex_roundtrip: "hex_value (hex_digits v 15) = unat v"
proof -
  have "unat v < 16 ^ Suc 15" using unat_u64_less [of v] by simp
  then show ?thesis by (simp only: hex_value_digits mod_less)
qed

text \<open>Modes as the firmware documents them: a query has one answer per mode.\<close>

definition answers_modes :: "env \<Rightarrow> (u64 \<Rightarrow> (u64 \<times> u64) option) \<Rightarrow> bool" where
  "answers_modes e q \<longleftrightarrow> (\<forall>h m. case q m of
       None \<Rightarrow> status (e h (QueryMode m)) \<noteq> EFI_SUCCESS
     | Some (r, c) \<Rightarrow> status (e h (QueryMode m)) = EFI_SUCCESS \<and>
         val0 (e h (QueryMode m)) = r \<and> val1 (e h (QueryMode m)) = c)"

definition area :: "(u64 \<Rightarrow> (u64 \<times> u64) option) \<Rightarrow> nat \<Rightarrow> u64" where
  "area q k = (case q (of_nat k) of None \<Rightarrow> 0 | Some (r, c) \<Rightarrow> r * c)"

text \<open>The first mode of the largest area among the modes below \<open>k\<close>, with that area.\<close>

fun best_mode :: "(u64 \<Rightarrow> (u64 \<times> u64) option) \<Rightarrow> nat \<Rightarrow> u64 \<times> u64" where
  "best_mode q 0 = (0, 0)"
| "best_mode q (Suc k) =
     (let (a, m) = best_mode q k in if area q k > a then (area q k, of_nat k) else (a, m))"

lemma query_modes_best:
  assumes q: "answers_modes e q"
    and stop: "q (of_nat N) = None" and N: "N \<noteq> 1" "N < 2 ^ 64"
    and go: "\<And>i. i < N \<Longrightarrow> i \<noteq> 1 \<Longrightarrow> q (of_nat i) \<noteq> None"
    and "k \<le> N" and "N - k < fuel" and "best_mode q k = (a, m)"
  shows "\<exists>s'. query_modes fuel e (of_nat k) a m s = Done (Some (snd (best_mode q N))) s'"
  using assms(6-8)
proof (induction fuel arbitrary: k a m s)
  case 0
  then show ?case by simp
next
  case (Suc fuel)
  have ok: "case q (of_nat k) of
       None \<Rightarrow> status (e h (QueryMode (of_nat k))) \<noteq> EFI_SUCCESS
     | Some (r, c) \<Rightarrow> status (e h (QueryMode (of_nat k))) = EFI_SUCCESS \<and>
         val0 (e h (QueryMode (of_nat k))) = r \<and> val1 (e h (QueryMode (of_nat k))) = c" for h
    using q by (simp add: answers_modes_def)
  show ?case
  proof (cases "k = N")
    case True
    have "of_nat k \<noteq> (1 :: u64)"
    proof
      assume "of_nat k = (1 :: u64)"
      then have "unat (of_nat k :: u64) = 1" by simp
      then show False using True N by (simp add: unat_of_nat)
    qed
    then show ?thesis using ok stop True Suc.prems by (simp add: run_simps)
  next
    case False
    then have k: "k < N" "Suc k \<le> N" "N - Suc k < fuel" using Suc.prems by auto
    have plus: "of_nat k + 1 = (of_nat (Suc k) :: u64)" by simp
    show ?thesis
    proof (cases "q (of_nat k)")
      case None
      then have "k = 1" using go k by blast
      moreover have "best_mode q (Suc k) = (a, m)" using Suc.prems None by (simp add: area_def)
      ultimately show ?thesis using ok None Suc.IH [OF k(2,3), of a m]
        by (simp add: run_simps del: best_mode.simps)
    next
      case (Some rc)
      then obtain r c where rc: "q (of_nat k) = Some (r, c)" by (cases rc) simp
      then have b: "best_mode q (Suc k) = (if r * c > a then (r * c, of_nat k) else (a, m))"
        using Suc.prems by (simp add: area_def)
      show ?thesis
        using ok rc Suc.IH [OF k(2,3)] b
        by (auto simp add: run_simps plus Let_def simp del: best_mode.simps of_nat_Suc)
    qed
  qed
qed

lemma best_mode_max:
  "best_mode q N = (a, w) \<Longrightarrow>
   \<exists>m. w = of_nat m \<and> (m < N \<or> m = 0) \<and> (\<forall>i<N. area q i \<le> a) \<and> (a = area q m \<or> a = 0)"
proof (induction N arbitrary: a w)
  case 0
  then show ?case by (intro exI [of _ 0]) simp
next
  case (Suc N)
  obtain a' w' where b: "best_mode q N = (a', w')" by fastforce
  from Suc.IH [OF b] obtain m where m: "w' = of_nat m" "m < N \<or> m = 0" "\<forall>i<N. area q i \<le> a'"
    "a' = area q m \<or> a' = 0" by blast
  show ?case
  proof (cases "area q N > a'")
    case True
    then have "\<forall>i<Suc N. area q i \<le> area q N" using m(3) by (auto simp: less_Suc_eq)
    then show ?thesis using True Suc.prems b by (intro exI [of _ N]) auto
  next
    case False
    then have "\<forall>i<Suc N. area q i \<le> a'" using m(3) by (auto simp: less_Suc_eq not_less)
    then show ?thesis using False Suc.prems b m by (intro exI [of _ m]) auto
  qed
qed

text \<open>C32: text-mode selection. When the firmware refuses mode \<open>N\<close> and accepts every smaller mode
  (mode 1 may be missing), \<open>print_init\<close> terminates within \<open>N + 1\<close> queries and asks the firmware
  to set an accepted mode whose area no other mode exceeds.\<close>

theorem print_init_selects_largest_mode:
  assumes "answers_modes e q" and "q (of_nat N) = None" and "N \<noteq> 1" and "N < 2 ^ 64"
    and "\<And>i. i < N \<Longrightarrow> i \<noteq> 1 \<Longrightarrow> q (of_nat i) \<noteq> None" and "N < fuel"
  shows "\<exists>s' m. print_init fuel e s = Done (Some ()) s' \<and>
           SetMode (of_nat m) \<in> fst ` set (trace s') \<and> (m < N \<or> m = 0) \<and>
           (\<forall>i<N. area q i \<le> area q m)"
proof -
  obtain a w where b: "best_mode q N = (a, w)" by fastforce
  from best_mode_max [OF b] obtain m where
    m: "w = of_nat m" "m < N \<or> m = 0" "\<forall>i<N. area q i \<le> a" "a = area q m \<or> a = 0" by blast
  obtain s1 where "query_modes fuel e 0 0 0 s = Done (Some w) s1"
    using query_modes_best [OF assms(1-4), of 0 fuel 0 0 s] assms(5,6) b by auto
  moreover have "\<forall>i<N. area q i \<le> area q m" using m(3,4) by auto
  ultimately show ?thesis using m(1,2)
    by (auto simp: print_init_def run_simps intro!: exI [of _ m])
qed

text \<open>A firmware with modes 0 (80x25), 2 (100x31) and 3 (90x30).\<close>

definition sample_modes :: "u64 \<Rightarrow> (u64 \<times> u64) option" where
  "sample_modes m = (if m = 0 then Some (25, 80) else if m = 2 then Some (31, 100)
     else if m = 3 then Some (30, 90) else None)"

definition sample_console :: env where
  "sample_console h c = (case c of
       QueryMode m \<Rightarrow> (case sample_modes m of
           None \<Rightarrow> \<lparr>status = EFI_UNSUPPORTED, val0 = 0, val1 = 0, val2 = 0, val3 = 0\<rparr>
         | Some (r, k) \<Rightarrow> \<lparr>status = 0, val0 = r, val1 = k, val2 = 0, val3 = 0\<rparr>)
     | _ \<Rightarrow> \<lparr>status = 0, val0 = 0, val1 = 0, val2 = 0, val3 = 0\<rparr>)"

theorem print_init_selects_largest_mode_witness:
  "\<exists>s' m. print_init 5 sample_console \<lparr>trace = []\<rparr> = Done (Some ()) s' \<and>
     SetMode (of_nat m) \<in> fst ` set (trace s') \<and> (m < 4 \<or> m = 0) \<and>
     (\<forall>i<4. area sample_modes i \<le> area sample_modes m)"
proof (rule print_init_selects_largest_mode)
  show "answers_modes sample_console sample_modes"
    by (auto simp: answers_modes_def sample_console_def EFI_SUCCESS_def EFI_UNSUPPORTED_def
        split: option.splits)
  show "sample_modes (of_nat 4) = None" by (simp add: sample_modes_def)
  show "sample_modes (of_nat i) \<noteq> None" if "i < 4" "i \<noteq> 1" for i
    using that by (auto simp: sample_modes_def less_Suc_eq numeral_eq_Suc)
qed simp_all

end
