(* ===== verification/Exception_Context.thy ===== *)
theory Exception_Context
  imports Env
begin

text \<open>
  The frame an exception handler finds on the stack (\<open>src/exception_context.h\<close>,
  \<open>src/exception_handlers.S\<close>). The C union of the two frame layouts is six stack slots read in two
  ways; which way is right is decided by \<open>EXCEPTIONS_WITH_ERROR_CODE_MASK\<close>.
\<close>

section \<open>The context\<close>

record exception_context =
  exception_number :: u64
  slot0 :: u64
  slot1 :: u64
  slot2 :: u64
  slot3 :: u64
  slot4 :: u64
  slot5 :: u64

definition iretq_frame_no_error_code :: "exception_context \<Rightarrow> iretq_frame" where
  "iretq_frame_no_error_code c =
     \<lparr>fr_rip = slot0 c, fr_cs = slot1 c, fr_rflags = slot2 c, fr_rsp = slot3 c, fr_ss = slot4 c\<rparr>"

definition error_code :: "exception_context \<Rightarrow> u64" where
  "error_code c = slot0 c"

definition iretq_frame_with_error_code :: "exception_context \<Rightarrow> iretq_frame" where
  "iretq_frame_with_error_code c =
     \<lparr>fr_rip = slot1 c, fr_cs = slot2 c, fr_rflags = slot3 c, fr_rsp = slot4 c, fr_ss = slot5 c\<rparr>"

definition EXCEPTIONS_WITH_ERROR_CODE_MASK :: u64 where
  "EXCEPTIONS_WITH_ERROR_CODE_MASK =
     push_bit 8 1 OR push_bit 10 1 OR push_bit 11 1 OR push_bit 12 1 OR push_bit 13 1 OR
     push_bit 14 1 OR push_bit 17 1 OR push_bit 21 1"

text \<open>The test every handler makes before it looks at the frame.\<close>

definition has_error_code :: "exception_context \<Rightarrow> bool" where
  "has_error_code c \<longleftrightarrow>
     push_bit (unat (exception_number c)) 1 AND EXCEPTIONS_WITH_ERROR_CODE_MASK \<noteq> 0"

definition frame_of :: "exception_context \<Rightarrow> iretq_frame" where
  "frame_of c = (if has_error_code c then iretq_frame_with_error_code c
                 else iretq_frame_no_error_code c)"

section \<open>From the CPU to the context\<close>

text \<open>
  On an exception the CPU pushes \<open>ss\<close>, \<open>rsp\<close>, \<open>rflags\<close>, \<open>cs\<close>, \<open>rip\<close> and, for some vectors, an error
  code; the stub \<open>handle_...\<close> of the vector pushes its number and \<open>do_handle_exception\<close> passes the
  stack pointer as the context. Stacks are written from the top; \<open>below\<close> is what was there before.
\<close>

definition cpu_pushes :: "iretq_frame \<Rightarrow> u64 option \<Rightarrow> u64 list \<Rightarrow> u64 list" where
  "cpu_pushes f err below =
     (case err of None \<Rightarrow> [] | Some code \<Rightarrow> [code]) @
     [fr_rip f, fr_cs f, fr_rflags f, fr_rsp f, fr_ss f] @ below"

definition handle_vector :: "nat \<Rightarrow> u64 list \<Rightarrow> u64 list" where
  "handle_vector vector stack = of_nat vector # stack"

definition do_handle_exception :: "u64 list \<Rightarrow> exception_context" where
  "do_handle_exception stack =
     \<lparr>exception_number = stack ! 0, slot0 = stack ! 1, slot1 = stack ! 2, slot2 = stack ! 3,
      slot3 = stack ! 4, slot4 = stack ! 5, slot5 = stack ! 6\<rparr>"

text \<open>The vectors for which the CPU pushes an error code.\<close>

definition error_code_vectors :: "nat set" where
  "error_code_vectors = {8, 10, 11, 12, 13, 14, 17, 21}"

lemma mask_value: "EXCEPTIONS_WITH_ERROR_CODE_MASK = 0x227d00"
  by (simp add: EXCEPTIONS_WITH_ERROR_CODE_MASK_def)

lemma has_error_code_bit:
  "has_error_code c \<longleftrightarrow> bit EXCEPTIONS_WITH_ERROR_CODE_MASK (unat (exception_number c))"
  by (simp add: has_error_code_def and.commute push_bit_eq_mult and_exp_eq_0_iff_not_bit)

lemma bit_mask_vector:
  assumes "v < 22"
  shows "bit EXCEPTIONS_WITH_ERROR_CODE_MASK v \<longleftrightarrow> v \<in> error_code_vectors"
proof -
  have "\<forall>v \<in> {0..<22}. bit EXCEPTIONS_WITH_ERROR_CODE_MASK v \<longleftrightarrow> v \<in> error_code_vectors"
    by (simp add: mask_value error_code_vectors_def atLeastLessThan_nat_numeral)
  with assms show ?thesis by simp
qed

lemma has_error_code_vector:
  assumes "exception_number c = of_nat v" and "v < 22"
  shows "has_error_code c \<longleftrightarrow> v \<in> error_code_vectors"
proof -
  have "unat (of_nat v :: u64) = v" using assms(2) by (simp add: unat_of_nat)
  then show ?thesis using assms by (simp add: has_error_code_bit bit_mask_vector)
qed

text \<open>C26: the handler reads the frame the CPU pushed. For each of the 22 vectors with a stub, and
  an error code exactly where the CPU pushes one, \<open>frame_of\<close> is the interrupted frame, the
  exception number is the vector, and where there is an error code \<open>error_code\<close> is it.\<close>

theorem frame_of_pushed:
  assumes "v < 22" and "err \<noteq> None \<longleftrightarrow> v \<in> error_code_vectors"
    and "c = do_handle_exception (handle_vector v (cpu_pushes f err below))"
  shows "frame_of c = f \<and> exception_number c = of_nat v \<and> (\<forall>x. err = Some x \<longrightarrow> error_code c = x)"
proof -
  have n: "exception_number c = of_nat v"
    using assms(3) by (simp add: do_handle_exception_def handle_vector_def)
  then have "has_error_code c \<longleftrightarrow> err \<noteq> None"
    using assms by (simp add: has_error_code_vector)
  with n assms(3) show ?thesis
    by (cases err) (simp_all add: frame_of_def do_handle_exception_def handle_vector_def
        cpu_pushes_def iretq_frame_with_error_code_def iretq_frame_no_error_code_def error_code_def
        numeral_eq_Suc)
qed

theorem frame_of_pushed_witness:
  "frame_of (do_handle_exception (handle_vector 14 (cpu_pushes
      \<lparr>fr_rip = 0x1fff, fr_cs = 0x1b, fr_rflags = 0x102, fr_rsp = 0, fr_ss = 0x23\<rparr> (Some 0x14) [])))
   = \<lparr>fr_rip = 0x1fff, fr_cs = 0x1b, fr_rflags = 0x102, fr_rsp = 0, fr_ss = 0x23\<rparr>"
proof -
  have "(Some (0x14 :: u64) \<noteq> None) = (14 \<in> error_code_vectors)"
    by (simp add: error_code_vectors_def)
  from frame_of_pushed [OF _ this refl, of _ "[]"] show ?thesis by simp
qed

end
