(* ===== verification/Save_File.thy ===== *)
theory Save_File
  imports Exception_Context Text_Output
begin

text \<open>
  The save file (\<open>src/save_file.c\<close>, \<open>src/save_file.h\<close>): the variable-length integers, the record
  of one interesting instruction, and the file operations. The file itself is the firmware's; the
  module's only variable is the pointer \<open>output_file\<close>, \<open>0\<close> being NULL.
\<close>

section \<open>State and types\<close>

record save_world = world +
  output_file :: u64

datatype instruction_type =
    NOT_INTERESTING
  | KERNEL_EXCEPTION
  | KERNEL_PAGE_FAULT
  | MACHINE_CHECK
  | UNDOCUMENTED_UD
  | UNDOCUMENTED_NOT_UD
  | VEX_MALFORMED_BUT_ACCEPTED
  | NOP
  | XED_LENGTH_MISMATCH

text \<open>The enumeration's values; \<open>NOP\<close> exists only with \<open>COUNT_NOPS\<close>.\<close>

fun instruction_type_value :: "build \<Rightarrow> instruction_type \<Rightarrow> nat" where
  "instruction_type_value b NOT_INTERESTING = 0"
| "instruction_type_value b KERNEL_EXCEPTION = 1"
| "instruction_type_value b KERNEL_PAGE_FAULT = 2"
| "instruction_type_value b MACHINE_CHECK = 3"
| "instruction_type_value b UNDOCUMENTED_UD = 4"
| "instruction_type_value b UNDOCUMENTED_NOT_UD = 5"
| "instruction_type_value b VEX_MALFORMED_BUT_ACCEPTED = 6"
| "instruction_type_value b NOP = 7"
| "instruction_type_value b XED_LENGTH_MISMATCH = (if count_nops b then 8 else 7)"

section \<open>Writing data\<close>

definition save_data :: "env \<Rightarrow> u8 list \<Rightarrow> (u64, 'z save_world_scheme) prog" where
  "save_data e data = andthen (fetch output_file) (\<lambda>file.
     if file = 0 then crash
     else andthen (ext e (FileWrite file data)) (\<lambda>r. return (status r)))"

text \<open>The loop of \<open>save_uint64\<close>: seven bits per byte, low group first, into \<open>out_value\<close>;
  \<open>None\<close> is a write outside the array.\<close>

function save_uint64_loop :: "u64 \<Rightarrow> u8 list \<Rightarrow> nat \<Rightarrow> (u64 \<times> u8 list \<times> nat) option" where
  "save_uint64_loop value out_value size' =
     (if value \<ge> push_bit 7 1 then
        (if size' < length out_value then
           save_uint64_loop (drop_bit 7 value)
             (out_value[size' := ucast ((value AND (push_bit 7 1 - 1)) OR push_bit 7 1)]) (size' + 1)
         else None)
      else Some (value, out_value, size'))"
  by pat_completeness auto
termination
  by (relation "measure (\<lambda>(v, out, n). length out - n)") auto

declare save_uint64_loop.simps [simp del]

definition OUT_VALUE_SIZE :: nat where
  "OUT_VALUE_SIZE = 8 * 8 div 7 + 1"

definition save_uint64 :: "env \<Rightarrow> u64 \<Rightarrow> (u64, 'z save_world_scheme) prog" where
  "save_uint64 e value =
     (case save_uint64_loop value (replicate OUT_VALUE_SIZE 0) 0 of
        None \<Rightarrow> crash
      | Some (value', out_value, size') \<Rightarrow>
          if size' < length out_value then
            save_data e (take (size' + 1) (out_value[size' := ucast value']))
          else crash)"

fun save_uint64_array :: "env \<Rightarrow> u64 list \<Rightarrow> (u64, 'z save_world_scheme) prog" where
  "save_uint64_array e [] = return EFI_SUCCESS"
| "save_uint64_array e (value # values) =
     andthen (save_uint64 e value) (\<lambda>status.
       if status \<noteq> EFI_SUCCESS then return status else save_uint64_array e values)"

section \<open>The record of an instruction\<close>

definition EXTRA_DATA_PRESENT_FLAG :: u8 where "EXTRA_DATA_PRESENT_FLAG = 0x80"

text \<open>The byte for the exception number, and the byte that packs length and type.\<close>

definition exception_byte :: "exception_context \<Rightarrow> bool \<Rightarrow> u8" where
  "exception_byte ctx extra_data_present =
     (if extra_data_present then ucast (exception_number ctx) OR EXTRA_DATA_PRESENT_FLAG
      else ucast (exception_number ctx))"

definition length_byte :: "build \<Rightarrow> instruction_type \<Rightarrow> nat \<Rightarrow> u8" where
  "length_byte b ty len = of_nat len OR push_bit 4 (of_nat (instruction_type_value b ty))"

definition save_instruction_data ::
  "build \<Rightarrow> env \<Rightarrow> exception_context \<Rightarrow> instruction_type \<Rightarrow> u8 list \<Rightarrow> nat \<Rightarrow> bool \<Rightarrow> u64 \<Rightarrow> u64 list \<Rightarrow>
   (u64, 'z save_world_scheme) prog" where
  "save_instruction_data b e ctx ty bytes len extra_data_present extra_data perf_counters_values =
     (if no_save b then return EFI_SUCCESS else
      let exception_number = exception_byte ctx extra_data_present in
      andthen (save_data e [exception_number]) (\<lambda>status.
      if status \<noteq> EFI_SUCCESS then
        andthen (printf e (''Could not write exception number, status = 0x%lx'' @ crlf) [VInt status])
          (\<lambda>_. return status) else
      andthen (if ucast exception_number AND EXCEPTIONS_WITH_ERROR_CODE_MASK \<noteq> 0
               then save_uint64 e (error_code ctx) else return EFI_SUCCESS) (\<lambda>status.
      if status \<noteq> EFI_SUCCESS then
        andthen (printf e (''Could not write exception error code, status = 0x%lx'' @ crlf) [VInt status])
          (\<lambda>_. return status) else
      andthen (if extra_data_present then save_uint64 e extra_data else return EFI_SUCCESS) (\<lambda>status.
      if status \<noteq> EFI_SUCCESS then
        andthen (printf e (''Could not write extra info, status = 0x%lx'' @ crlf) [VInt status])
          (\<lambda>_. return status) else
      andthen (save_uint64_array e perf_counters_values) (\<lambda>status.
      if status \<noteq> EFI_SUCCESS then
        andthen (printf e (''Could not save performance counters values, status = 0x%lx'' @ crlf) [VInt status])
          (\<lambda>_. return status) else
      andthen (save_data e [length_byte b ty len]) (\<lambda>status.
      if status \<noteq> EFI_SUCCESS then
        andthen (printf e (''Could not write instruction length, status = 0x%lx'' @ crlf) [VInt status])
          (\<lambda>_. return status) else
      andthen (save_data e (take len bytes)) (\<lambda>status.
      if status \<noteq> EFI_SUCCESS then
        andthen (printf e (''Could not write instruction bytes, status = 0x%lx'' @ crlf) [VInt status])
          (\<lambda>_. return status) else
      return status)))))))"

section \<open>Flushing, position, closing\<close>

definition flush_save_file :: "build \<Rightarrow> env \<Rightarrow> (u64, 'z save_world_scheme) prog" where
  "flush_save_file b e =
     (if no_save b then return EFI_SUCCESS
      else andthen (fetch output_file) (\<lambda>file.
        if file = 0 then crash
        else andthen (ext e (FileFlush file)) (\<lambda>r. return (status r))))"

text \<open>The position is \<open>(UINT64)-1\<close> unless the firmware stores one.\<close>

definition get_save_file_position :: "build \<Rightarrow> env \<Rightarrow> (u64, 'z save_world_scheme) prog" where
  "get_save_file_position b e =
     (if no_save b then return 0
      else andthen (fetch output_file) (\<lambda>file.
        if file = 0 then crash
        else andthen (ext e (FileGetPosition file)) (\<lambda>r.
          return (if status r = EFI_SUCCESS then val0 r else - 1))))"

definition close_save_file :: "build \<Rightarrow> env \<Rightarrow> (unit, 'z save_world_scheme) prog" where
  "close_save_file b e =
     (if no_save b then return ()
      else andthen (fetch output_file) (\<lambda>file.
        if file = 0 then crash
        else andthen (extu e (FileClose file)) (\<lambda>_.
          modify (\<lambda>s. s\<lparr>output_file := 0\<rparr>))))"

end
