(* ===== verification/Save_Format.thy ===== *)
theory Save_Format
  imports Save_File "HOL-Library.Sublist"
begin

text \<open>
  What the save file holds. An \<open>emitter\<close> is an operation whose successful runs append exactly
  one known byte string to the file and whose failing runs append a prefix of it; every writing
  operation of \<open>src/save_file.c\<close> is one. Decoders for the byte strings show that the log of a
  session can be read back.
\<close>

section \<open>Bytes the firmware accepted\<close>

fun call_bytes :: "call \<Rightarrow> reply \<Rightarrow> u8 list" where
  "call_bytes (FileWrite f data) r = (if status r = EFI_SUCCESS then data else [])"
| "call_bytes _ r = []"

text \<open>A \<open>Write\<close> that reports success has written the whole buffer at the position, which advances
  by as much: the file holds the successful writes in order.\<close>

definition written :: "history \<Rightarrow> u8 list" where
  "written h = concat (map (\<lambda>(c, r). call_bytes c r) h)"

lemma written_append [simp]: "written (h @ h') = written h @ written h'"
  by (simp add: written_def)

lemma written_Nil [simp]: "written [] = []"
  by (simp add: written_def)

lemma written_Cons [simp]: "written ((c, r) # h) = call_bytes c r @ written h"
  by (simp add: written_def)

text \<open>Calls by what they mean for a session: \<open>quiet\<close> ones neither write to or close the file, nor
  enter user mode, change the code page or stop; \<open>filing\<close> ones may also write.\<close>

fun filing :: "call \<Rightarrow> bool" where
  "filing (FileClose f) = False"
| "filing (CopyMem a d) = False"
| "filing (Iretq f r) = False"
| "filing Hang = False"
| "filing c = True"

fun quiet :: "call \<Rightarrow> bool" where
  "quiet (FileWrite f d) = False"
| "quiet c = filing c"

lemma quiet_filing: "quiet c \<Longrightarrow> filing c"
  by (cases c) simp_all

lemma written_quiet: "\<forall>c\<in>fst ` set h. quiet c \<Longrightarrow> written h = []"
proof (induction h)
  case Nil
  then show ?case by simp
next
  case (Cons x h)
  obtain c r where x: "x = (c, r)" by fastforce
  have "written (x # h) = call_bytes c r @ written h" by (simp add: written_def x)
  then show ?case using Cons x by (cases c) simp_all
qed

text \<open>The firmware refused a write.\<close>

definition write_failed :: "history \<Rightarrow> bool" where
  "write_failed h \<longleftrightarrow> (\<exists>f d r. (FileWrite f d, r) \<in> set h \<and> status r \<noteq> EFI_SUCCESS)"

lemma write_failed_append [simp]: "write_failed (h @ h') \<longleftrightarrow> write_failed h \<or> write_failed h'"
  by (auto simp: write_failed_def)

section \<open>The interface of the writing operations\<close>

locale emitter =
  fixes op :: "('z save_world_scheme) \<Rightarrow> (u64, 'z save_world_scheme) run"
    and data :: "u8 list"
  assumes emits: "output_file s \<noteq> 0 \<Longrightarrow>
    \<exists>st h. op s = Done st (s\<lparr>trace := trace s @ h\<rparr>) \<and>
      (if st = EFI_SUCCESS then written h = data else write_failed h) \<and>
      prefix (written h) data \<and> (\<forall>c\<in>fst ` set h. filing c)"
begin

lemma emit_returns: "output_file s \<noteq> 0 \<Longrightarrow> \<exists>st s'. op s = Done st s'"
  using emits [of s] by auto

lemma emit_success:
  "output_file s \<noteq> 0 \<Longrightarrow> op s = Done EFI_SUCCESS s' \<Longrightarrow>
   written (trace s') = written (trace s) @ data"
  using emits [of s] by auto

lemma emit_failure:
  "output_file s \<noteq> 0 \<Longrightarrow> op s = Done st s' \<Longrightarrow> st \<noteq> EFI_SUCCESS \<Longrightarrow> write_failed (trace s')"
  using emits [of s] by auto

end

text \<open>Operations in sequence, with the early return on an error and its message.\<close>

lemma emitter_return: "emitter (return EFI_SUCCESS) []"
proof
  fix s :: "'a save_world_scheme"
  show "\<exists>st h. return EFI_SUCCESS s = Done st (s\<lparr>trace := trace s @ h\<rparr>) \<and>
      (if st = EFI_SUCCESS then written h = [] else write_failed h) \<and>
      prefix (written h) [] \<and> (\<forall>c\<in>fst ` set h. filing c)"
    by (rule exI [of _ EFI_SUCCESS], rule exI [of _ "[]"]) (simp add: run_simps)
qed

definition reports :: "(u64 \<Rightarrow> (u64, 'z save_world_scheme) prog) \<Rightarrow> bool" where
  "reports report \<longleftrightarrow> (\<forall>st s. \<exists>h. report st s = Done st (s\<lparr>trace := trace s @ h\<rparr>) \<and>
     (\<forall>c\<in>fst ` set h. quiet c))"

lemma reports_return: "reports (\<lambda>st. return st)"
  unfolding reports_def by (intro allI exI [of _ "[]"]) (simp add: run_simps)

lemma reports_printf:
  assumes "\<And>st. accepts fmt [VInt st]"
  shows "reports (\<lambda>st. andthen (printf e fmt [VInt st]) (\<lambda>_. return st))"
proof -
  have "\<exists>h. andthen (printf e fmt [VInt st]) (\<lambda>_. return st) s = Done st (s\<lparr>trace := trace s @ h\<rparr>) \<and>
      (\<forall>c\<in>fst ` set h. quiet c)" for st and s :: "'a save_world_scheme"
    by (rule exI [of _ "[(OutputString (formatted fmt [VInt st]),
          e (trace s) (OutputString (formatted fmt [VInt st])))]"])
       (simp add: run_simps assms emit_def)
  then show ?thesis by (simp add: reports_def)
qed

lemma emitter_then:
  assumes "emitter op d" and "emitter rest d'" and "reports report"
  shows "emitter (andthen op (\<lambda>st. if st \<noteq> EFI_SUCCESS then report st else rest)) (d @ d')"
proof
  fix s :: "'a save_world_scheme"
  let ?m = "andthen op (\<lambda>st. if st \<noteq> EFI_SUCCESS then report st else rest)"
  assume nn: "output_file s \<noteq> 0"
  from emitter.emits [OF assms(1) nn] obtain st h where
    1: "op s = Done st (s\<lparr>trace := trace s @ h\<rparr>)"
      "if st = EFI_SUCCESS then written h = d else write_failed h" "prefix (written h) d"
      "\<forall>c\<in>fst ` set h. filing c"
    by blast
  let ?s1 = "s\<lparr>trace := trace s @ h\<rparr>"
  show "\<exists>st' k. ?m s = Done st' (s\<lparr>trace := trace s @ k\<rparr>) \<and>
      (if st' = EFI_SUCCESS then written k = d @ d' else write_failed k) \<and>
      prefix (written k) (d @ d') \<and> (\<forall>c\<in>fst ` set k. filing c)"
  proof (cases "st = EFI_SUCCESS")
    case True
    have "output_file ?s1 \<noteq> 0" using nn by simp
    from emitter.emits [OF assms(2) this] obtain st2 h2 where
      2: "rest ?s1 = Done st2 (?s1\<lparr>trace := trace ?s1 @ h2\<rparr>)"
        "if st2 = EFI_SUCCESS then written h2 = d' else write_failed h2" "prefix (written h2) d'"
        "\<forall>c\<in>fst ` set h2. filing c"
      by blast
    then show ?thesis using 1 True
      by (intro exI [of _ st2] exI [of _ "h @ h2"]) (auto simp: run_simps split: if_splits)
  next
    case False
    obtain h2 where "report st ?s1 = Done st (?s1\<lparr>trace := trace ?s1 @ h2\<rparr>)"
      "\<forall>c\<in>fst ` set h2. quiet c"
      using assms(3) unfolding reports_def by blast
    then show ?thesis using 1 False written_quiet [of h2] quiet_filing
      by (intro exI [of _ st] exI [of _ "h @ h2"]) (auto simp: run_simps prefix_prefix)
  qed
qed

lemma emitter_save_data: "emitter (save_data e data) data"
proof
  fix s :: "'a save_world_scheme"
  let ?c = "FileWrite (output_file s) data"
  assume "output_file s \<noteq> 0"
  then show "\<exists>st h. save_data e data s = Done st (s\<lparr>trace := trace s @ h\<rparr>) \<and>
      (if st = EFI_SUCCESS then written h = data else write_failed h) \<and>
      prefix (written h) data \<and> (\<forall>c\<in>fst ` set h. filing c)"
    by (intro exI [of _ "status (e (trace s) ?c)"] exI [of _ "[(?c, e (trace s) ?c)]"])
       (simp add: save_data_def run_simps emit_def write_failed_def)
qed

interpretation save_data: emitter "save_data e data" data for e data
  by (rule emitter_save_data)

section \<open>Variable-length integers\<close>

text \<open>The byte string of a value, and its reading.\<close>

function leb128 :: "u64 \<Rightarrow> u8 list" where
  "leb128 v = (if v \<ge> 0x80 then ucast ((v AND 0x7f) OR 0x80) # leb128 (drop_bit 7 v) else [ucast v])"
  by pat_completeness auto
termination
proof (relation "measure unat", goal_cases)
  case 1
  then show ?case by simp
next
  case (2 v)
  then have "0x80 \<le> unat v" by (simp add: word_le_nat_alt)
  moreover have "unat (drop_bit 7 v) = unat v div 2 ^ 7"
    by (simp only: unsigned_drop_bit_eq) (simp add: drop_bit_eq_div)
  ultimately show ?case by simp
qed

declare leb128.simps [simp del]

fun leb_decode :: "u8 list \<Rightarrow> (nat \<times> u8 list) option" where
  "leb_decode [] = None"
| "leb_decode (b # bs) =
     (if b < 0x80 then Some (unat b, bs)
      else map_option (\<lambda>(n, r). (unat b - 128 + 128 * n, r)) (leb_decode bs))"

lemma unat_drop_bit_u64: "unat (drop_bit k (v :: u64)) = unat v div 2 ^ k"
  by (simp only: unsigned_drop_bit_eq) (simp add: drop_bit_eq_div)

lemma leb_group: "(v AND 0x7f) OR 0x80 = take_bit 7 v + (0x80 :: u64)"
proof -
  have "v AND 0x7f = take_bit 7 v" by (simp add: take_bit_eq_mask mask_eq_exp_minus_1)
  moreover have "take_bit 7 v + push_bit 7 1 = take_bit 7 v OR push_bit 7 1"
    using take_bit_and_next_bit by (rule disjunctive_add_eq_or)
  ultimately show ?thesis by simp
qed

lemma unat_leb_group: "unat (ucast ((v AND 0x7f) OR 0x80 :: u64) :: u8) = unat v mod 128 + 128"
proof -
  have t: "unat (take_bit 7 v) = unat v mod 128"
    by (simp only: unsigned_take_bit_eq) (simp add: take_bit_eq_mod)
  have "unat (take_bit 7 v + 0x80) = unat v mod 128 + 128"
    by (subst unat_plus_simple [THEN iffD1]) (simp_all add: t word_le_nat_alt unat_word_ariths)
  then show ?thesis by (simp add: leb_group unsigned_ucast_eq take_bit_eq_mod)
qed

lemma unat_ucast_small: "v < 0x80 \<Longrightarrow> unat (ucast (v :: u64) :: u8) = unat v"
  by (simp add: unsigned_ucast_eq take_bit_eq_mod word_less_nat_alt)

lemma ge_0x80_u8: "0x80 \<le> (b :: u8) \<longleftrightarrow> 128 \<le> unat b"
  by (simp add: word_le_nat_alt)

lemma leb_decode_encode: "leb_decode (leb128 v @ rest) = Some (unat v, rest)"
proof (induction v rule: leb128.induct)
  case (1 v)
  show ?case
  proof (cases "0x80 \<le> v")
    case True
    let ?b = "ucast ((v AND 0x7f) OR 0x80) :: u8"
    have b: "unat ?b = unat v mod 128 + 128" by (rule unat_leb_group)
    then have "\<not> ?b < 0x80" by (simp add: word_less_nat_alt)
    then show ?thesis using True 1 b
      by (subst leb128.simps) (simp add: unat_drop_bit_u64)
  next
    case False
    then have "leb128 v = [ucast v]" by (subst leb128.simps) simp
    moreover have "v < 0x80" using False by simp
    then have "unat (ucast v :: u8) = unat v" "unat v < 128"
      by (simp_all only: unat_ucast_small) (simp add: word_less_nat_alt)
    ultimately show ?thesis by (simp add: word_less_nat_alt)
  qed
qed

lemma leb128_length_le: "unat v < 2 ^ (7 * k) \<Longrightarrow> 0 < k \<Longrightarrow> length (leb128 v) \<le> k"
proof (induction k arbitrary: v)
  case 0
  then show ?case by simp
next
  case (Suc k)
  show ?case
  proof (cases "0x80 \<le> v")
    case True
    then have "128 \<le> unat v" by (simp add: word_le_nat_alt)
    then have k: "0 < k" using Suc.prems by (cases k) simp_all
    have "unat v div 2 ^ 7 < 2 ^ (7 * k)"
      using Suc.prems(1) by (simp add: power_add less_mult_imp_div_less algebra_simps)
    then have "length (leb128 (drop_bit 7 v)) \<le> k" using k by (intro Suc.IH) (simp_all add: unat_drop_bit_u64)
    then show ?thesis using True by (subst leb128.simps) simp
  next
    case False
    then show ?thesis by (subst leb128.simps) simp
  qed
qed

lemma leb128_length: "1 \<le> length (leb128 v) \<and> length (leb128 v) \<le> OUT_VALUE_SIZE"
proof -
  have "unat v < 2 ^ (7 * 10)" using unat_u64_less [of v] by simp
  then have "length (leb128 v) \<le> 10" by (rule leb128_length_le) simp
  moreover have "1 \<le> length (leb128 v)" by (subst leb128.simps) simp
  ultimately show ?thesis by (simp add: OUT_VALUE_SIZE_def)
qed

lemma save_uint64_loop_leb128:
  "n + length (leb128 v) \<le> length out \<Longrightarrow>
   \<exists>v' out' n'. save_uint64_loop v out n = Some (v', out', n') \<and> n' < length out' \<and>
     take (n' + 1) (out'[n' := ucast v']) = take n out @ leb128 v"
proof (induction v arbitrary: out n rule: leb128.induct)
  case (1 v)
  show ?case
  proof (cases "0x80 \<le> v")
    case True
    let ?b = "ucast ((v AND 0x7f) OR 0x80) :: u8"
    have l: "leb128 v = ?b # leb128 (drop_bit 7 v)" using True by (subst leb128.simps) simp
    have lt: "n < length out" using "1.prems" l by simp
    have "\<exists>v' out' n'. save_uint64_loop (drop_bit 7 v) (out[n := ?b]) (n + 1) = Some (v', out', n') \<and>
       n' < length out' \<and>
       take (n' + 1) (out'[n' := ucast v']) = take (n + 1) (out[n := ?b]) @ leb128 (drop_bit 7 v)"
      using "1.prems" l by (intro "1.IH" True) simp
    moreover have "take (n + 1) (out[n := ?b]) = take n out @ [?b]"
      using take_Suc_update [OF lt, of ?b] by simp
    ultimately show ?thesis using True lt
      by (simp add: save_uint64_loop.simps [of v out n] l)
  next
    case False
    then have "leb128 v = [ucast v]" by (subst leb128.simps) simp
    then show ?thesis using False "1.prems"
      by (simp add: save_uint64_loop.simps [of v out n] take_Suc_update)
  qed
qed

lemma save_uint64_eq: "save_uint64 e v = save_data e (leb128 v)"
proof -
  obtain v' out' n' where "save_uint64_loop v (replicate OUT_VALUE_SIZE 0) 0 = Some (v', out', n')"
    "n' < length out'" "take (n' + 1) (out'[n' := ucast v']) = leb128 v"
    using save_uint64_loop_leb128 [of 0 v "replicate OUT_VALUE_SIZE 0"] leb128_length [of v] by auto
  then show ?thesis by (simp add: save_uint64_def)
qed


text \<open>The loop of \<open>save_uint64\<close> writes the byte string of the value, which always fits.\<close>

interpretation save_uint64: emitter "save_uint64 e value" "leb128 value" for e "value"
  by (simp only: save_uint64_eq) (rule save_data.emitter_axioms)

lemma emitter_array: "emitter (save_uint64_array e vs) (concat (map leb128 vs))"
proof (induction vs)
  case Nil
  then show ?case using emitter_return by simp
next
  case (Cons v vs)
  from emitter_then [OF save_uint64.emitter_axioms Cons reports_return]
  show ?case by simp
qed

interpretation save_array: emitter "save_uint64_array e values" "concat (map leb128 values)"
  for e "values"
  by (rule emitter_array)

section \<open>Records\<close>

text \<open>The byte string of a record.\<close>

definition record_bytes ::
  "build \<Rightarrow> exception_context \<Rightarrow> instruction_type \<Rightarrow> u8 list \<Rightarrow> nat \<Rightarrow> bool \<Rightarrow> u64 \<Rightarrow> u64 list \<Rightarrow> u8 list" where
  "record_bytes b ctx ty bytes len present extra counters =
     [exception_byte ctx present] @ (if present then leb128 extra else []) @
     concat (map leb128 counters) @ [length_byte b ty len] @ take len bytes"

lemma exception_byte_mask: "ucast (x :: u8) AND EXCEPTIONS_WITH_ERROR_CODE_MASK = 0"
proof (rule bit_word_eqI)
  fix n
  have "\<not> bit EXCEPTIONS_WITH_ERROR_CODE_MASK n" if "n < 8"
    using that bit_mask_vector [of n] by (auto simp: error_code_vectors_def)
  then show "bit (ucast x AND EXCEPTIONS_WITH_ERROR_CODE_MASK) n \<longleftrightarrow> bit (0 :: u64) n"
    by (auto simp: bit_simps dest: bit_imp_le_length)
qed

lemma emitter_if:
  "(c \<Longrightarrow> emitter op d) \<Longrightarrow> emitter (if c then op else return EFI_SUCCESS) (if c then d else [])"
  by (simp add: emitter_return)

lemma emitter_last:
  assumes "emitter op d" and "reports report"
  shows "emitter (andthen op (\<lambda>st. if st \<noteq> EFI_SUCCESS then report st else return st)) d"
proof -
  have "(\<lambda>st. if st \<noteq> EFI_SUCCESS then report st else return st) =
      (\<lambda>st. if st \<noteq> EFI_SUCCESS then report st else return EFI_SUCCESS)"
    by auto
  then show ?thesis using emitter_then [OF assms(1) emitter_return assms(2)] by simp
qed

lemma emitter_record:
  assumes "\<not> no_save b"
  shows "emitter (save_instruction_data b e ctx ty bytes len present extra counters)
           (record_bytes b ctx ty bytes len present extra counters)"
proof -
  note parts = emitter_then [OF _ _ reports_printf] emitter_last [OF _ reports_printf]
  have "emitter (save_instruction_data b e ctx ty bytes len present extra counters)
      ([exception_byte ctx present] @ [] @ (if present then leb128 extra else []) @
       concat (map leb128 counters) @ [length_byte b ty len] @ take len bytes)"
    unfolding save_instruction_data_def Let_def
    using assms
    by (simp only: if_False exception_byte_mask simp_thms)
       (intro parts save_data.emitter_axioms emitter_if save_uint64.emitter_axioms emitter_return
         save_array.emitter_axioms; simp)
  then show ?thesis by (simp add: record_bytes_def)
qed

section \<open>Reading the log back\<close>

text \<open>A record as a reader sees it.\<close>

record saved =
  sv_exception :: nat
  sv_extra :: "nat option"
  sv_counters :: "nat list"
  sv_type :: nat
  sv_bytes :: "u8 list"

fun decode_values :: "nat \<Rightarrow> u8 list \<Rightarrow> (nat list \<times> u8 list) option" where
  "decode_values 0 bs = Some ([], bs)"
| "decode_values (Suc n) bs =
     (case leb_decode bs of
        None \<Rightarrow> None
      | Some (v, r) \<Rightarrow> map_option (\<lambda>(vs, r'). (v # vs, r')) (decode_values n r))"

text \<open>\<open>n\<close> is the number of counters the build saves per record.\<close>

fun decode_record :: "nat \<Rightarrow> u8 list \<Rightarrow> (saved \<times> u8 list) option" where
  "decode_record n [] = None"
| "decode_record n (x # bs) =
     (case (if x < 0x80 then Some (None, bs)
            else map_option (\<lambda>(v, r). (Some v, r)) (leb_decode bs)) of
        None \<Rightarrow> None
      | Some (extra, r) \<Rightarrow>
          (case decode_values n r of
             None \<Rightarrow> None
           | Some (vs, []) \<Rightarrow> None
           | Some (vs, y # r') \<Rightarrow>
               let len = unat y mod 16 in
               if length r' < len then None
               else Some (\<lparr>sv_exception = unat x mod 128, sv_extra = extra, sv_counters = vs,
                           sv_type = unat y div 16, sv_bytes = take len r'\<rparr>, drop len r')))"

fun decode_records :: "nat \<Rightarrow> nat \<Rightarrow> u8 list \<Rightarrow> (saved list \<times> u8 list) option" where
  "decode_records n 0 bs = Some ([], bs)"
| "decode_records n (Suc k) bs =
     (case decode_record n bs of
        None \<Rightarrow> None
      | Some (r, bs') \<Rightarrow> map_option (\<lambda>(rs, bs''). (r # rs, bs'')) (decode_records n k bs'))"

lemma decode_values_encode:
  "decode_values (length vs) (concat (map leb128 vs) @ r) = Some (map unat vs, r)"
  by (induction vs) (simp_all add: leb_decode_encode)

lemma unat_exception_byte:
  assumes "unat (exception_number ctx) < 128"
  shows "unat (exception_byte ctx present) = unat (exception_number ctx) + (if present then 128 else 0)"
proof -
  let ?x = "ucast (exception_number ctx) :: u8"
  have x: "unat ?x = unat (exception_number ctx)"
    using assms by (simp add: unsigned_ucast_eq take_bit_eq_mod)
  then have "unat (take_bit 7 ?x) = unat ?x"
    using assms by (simp only: unsigned_take_bit_eq) (simp add: take_bit_eq_mod)
  then have "take_bit 7 ?x = ?x" by (simp only: word_unat_eq_iff)
  then have "?x OR push_bit 7 1 = ?x + push_bit 7 1" by (rule small_or_push_bit)
  then have "unat (?x OR 0x80) = unat ?x + 128"
    using assms x by (simp add: unat_word_ariths)
  then show ?thesis using x by (simp add: exception_byte_def EXTRA_DATA_PRESENT_FLAG_def)
qed

lemma instruction_type_value_less: "instruction_type_value b ty < 16"
  by (cases ty) simp_all

lemma unat_length_byte:
  assumes "len < 16"
  shows "unat (length_byte b ty len) = 16 * instruction_type_value b ty + len"
proof -
  let ?t = "instruction_type_value b ty"
  have x: "unat (of_nat len :: u8) = len" using assms by (simp add: unat_of_nat)
  then have "unat (take_bit 4 (of_nat len :: u8)) = unat (of_nat len :: u8)"
    using assms by (simp only: unsigned_take_bit_eq) (simp add: take_bit_eq_mod)
  then have "take_bit 4 (of_nat len) = (of_nat len :: u8)" by (simp only: word_unat_eq_iff)
  then have "length_byte b ty len = of_nat len + push_bit 4 (of_nat ?t)"
    unfolding length_byte_def by (rule small_or_push_bit)
  also have "\<dots> = of_nat (len + 16 * ?t)" by (simp add: push_bit_eq_mult)
  finally have lb: "length_byte b ty len = of_nat (len + 16 * ?t)" .
  have "len + 16 * ?t < 2 ^ LENGTH(8)"
    using assms instruction_type_value_less [of b ty] by simp
  then show ?thesis by (simp only: lb unat_of_nat mod_less)
qed

lemma decode_record_bytes:
  assumes "unat (exception_number ctx) < 128" and "len < 16" and "len \<le> length bytes"
  shows "decode_record (length counters)
           (record_bytes b ctx ty bytes len present extra counters @ rest) =
         Some (\<lparr>sv_exception = unat (exception_number ctx),
                sv_extra = (if present then Some (unat extra) else None),
                sv_counters = map unat counters,
                sv_type = instruction_type_value b ty,
                sv_bytes = take len bytes\<rparr>, rest)"
  using assms unat_exception_byte [OF assms(1), of present] unat_length_byte [OF assms(2), of b ty]
  by (cases present)
     (simp_all add: record_bytes_def decode_values_encode leb_decode_encode word_less_nat_alt
       Let_def min_def del: leb_decode.simps)

section \<open>Properties of the save file\<close>

text \<open>A firmware on which every call succeeds, for the concrete instances.\<close>

definition ok_env :: env where
  "ok_env h c = \<lparr>status = EFI_SUCCESS, val0 = 0, val1 = 0, val2 = 0, val3 = 0\<rparr>"

definition open_file :: save_world where
  "open_file = \<lparr>trace = [], output_file = 0x1000\<rparr>"

text \<open>C24: \<open>save_uint64\<close> on an open file always returns, stays inside its ten-byte buffer, and when
  the firmware accepts the write the file grows by at most ten bytes from which the value can be
  read back, whatever follows them.\<close>

theorem save_uint64_roundtrip:
  assumes "output_file s \<noteq> 0"
  shows "\<exists>st s' bs. save_uint64 e v s = Done st s' \<and> 1 \<le> length bs \<and> length bs \<le> 10 \<and>
           (st = EFI_SUCCESS \<longrightarrow> written (trace s') = written (trace s) @ bs) \<and>
           (\<forall>rest. leb_decode (bs @ rest) = Some (unat v, rest))"
proof -
  from save_uint64.emits [OF assms] obtain st s' where
    "save_uint64 e v s = Done st s'"
    "st = EFI_SUCCESS \<longrightarrow> written (trace s') = written (trace s) @ leb128 v"
    by (fastforce split: if_splits)
  then show ?thesis using leb128_length [of v] leb_decode_encode [of v]
    by (intro exI [of _ st] exI [of _ s'] exI [of _ "leb128 v"]) (simp add: OUT_VALUE_SIZE_def)
qed

theorem save_uint64_roundtrip_witness:
  "\<exists>st s' bs. save_uint64 ok_env 300 open_file = Done st s' \<and> 1 \<le> length bs \<and> length bs \<le> 10 \<and>
     (st = EFI_SUCCESS \<longrightarrow> written (trace s') = written (trace open_file) @ bs) \<and>
     (\<forall>rest. leb_decode (bs @ rest) = Some (300, rest))"
  using save_uint64_roundtrip [of open_file ok_env 300] by (simp add: open_file_def)

text \<open>C17: \<open>save_instruction_data\<close> on an open file always returns; on success the file has grown by
  one record, from which exception number, extra information, counters, type and instruction bytes
  can be read back whatever follows; on an error it has grown by a proper or improper prefix of
  that record.\<close>

theorem save_instruction_data_roundtrip:
  assumes "\<not> no_save b" and "output_file s \<noteq> 0"
    and "unat (exception_number ctx) < 128" and "len < 16" and "len \<le> length bytes"
  shows "\<exists>st s' out record.
      save_instruction_data b e ctx ty bytes len present extra counters s = Done st s' \<and>
      written (trace s') = written (trace s) @ out \<and> prefix out record \<and>
      (st = EFI_SUCCESS \<longrightarrow> out = record) \<and>
      (\<forall>rest. decode_record (length counters) (record @ rest) =
         Some (\<lparr>sv_exception = unat (exception_number ctx),
                sv_extra = (if present then Some (unat extra) else None),
                sv_counters = map unat counters,
                sv_type = instruction_type_value b ty,
                sv_bytes = take len bytes\<rparr>, rest))"
proof -
  let ?r = "record_bytes b ctx ty bytes len present extra counters"
  from emitter.emits [OF emitter_record [OF assms(1)] assms(2)] obtain st h where
    run: "save_instruction_data b e ctx ty bytes len present extra counters s =
        Done st (s\<lparr>trace := trace s @ h\<rparr>)"
    and out: "if st = EFI_SUCCESS then written h = ?r else write_failed h" "prefix (written h) ?r"
    by blast
  have "st = EFI_SUCCESS \<longrightarrow> written h = ?r" using out(1) by simp
  then show ?thesis using decode_record_bytes [OF assms(3-5)] run out(2)
    by (intro exI [of _ st] exI [of _ "s\<lparr>trace := trace s @ h\<rparr>"] exI [of _ "written h"] exI [of _ ?r])
       simp
qed

definition sample_ud_context :: exception_context where
  "sample_ud_context =
     \<lparr>exception_number = 6, slot0 = 0, slot1 = 0, slot2 = 0, slot3 = 0, slot4 = 0, slot5 = 0\<rparr>"

theorem save_instruction_data_roundtrip_witness:
  "\<exists>st s' out record.
      save_instruction_data (makefile_build Mode64) ok_env sample_ud_context
        UNDOCUMENTED_UD [0x0f, 0xff, 0] 2 False 0 [7, 9, 200] open_file = Done st s' \<and>
      written (trace s') = written (trace open_file) @ out \<and> prefix out record \<and>
      (st = EFI_SUCCESS \<longrightarrow> out = record) \<and>
      (\<forall>rest. decode_record (length [7, 9, 200 :: u64]) (record @ rest) =
         Some (\<lparr>sv_exception = unat (exception_number sample_ud_context),
                sv_extra = (if False then Some (unat (0 :: u64)) else None),
                sv_counters = map unat [7, 9, 200 :: u64],
                sv_type = instruction_type_value (makefile_build Mode64) UNDOCUMENTED_UD,
                sv_bytes = take 2 [0x0f, 0xff, 0]\<rparr>, rest))"
  by (rule save_instruction_data_roundtrip)
     (simp_all add: makefile_build_def open_file_def sample_ud_context_def)

text \<open>C25: the error code is never saved. The test before writing it compares the exception number
  itself, not the bit it selects, with the mask; an 8-bit number never meets a mask whose lowest
  bit is 8, so the run is the same for every value of the error code.\<close>

theorem error_code_never_saved:
  "save_instruction_data b e (ctx\<lparr>slot0 := code\<rparr>) ty bytes len present extra counters =
   save_instruction_data b e ctx ty bytes len present extra counters"
  unfolding save_instruction_data_def Let_def
  by (simp only: exception_byte_mask) (simp add: exception_byte_def)

end
