(* ===== verification/Prefix_Filter.thy ===== *)
theory Prefix_Filter
  imports Prelude
begin

text \<open>
  Which byte strings the search runs: \<open>is_prefix\<close>, \<open>count_prefixes\<close> and
  \<open>contains_invalid_count_of_prefixes\<close> of \<open>src/instruction_execution_loop.c\<close>. The last one is a
  scan with nine flags; it is proved equal to a closed description of the rejected strings.
\<close>

section \<open>Recognising prefixes\<close>

definition is_prefix :: "cpu_mode \<Rightarrow> u8 \<Rightarrow> u8 \<Rightarrow> bool" where
  "is_prefix m byte next_byte =
     (if byte AND NOT (0x26 XOR 0x3e) = 0x26 then True
      else if m = Mode64 \<and> byte AND 0xf0 = 0x40 then True
      else if byte = 0x62 then (if m = Mode64 then True else next_byte \<ge> 0xc0)
      else if byte AND 0xfe = 0x66 \<or> byte AND 0xfe = 0x64 \<or> byte AND 0xfe = 0xc4 \<or>
              byte AND 0xfe = 0xf2 then True
      else byte = 0xf0)"

text \<open>A read of the array; \<open>None\<close> is a read outside it.\<close>

definition byte_at :: "u8 list \<Rightarrow> nat \<Rightarrow> u8 option" where
  "byte_at bytes i = (if i < length bytes then Some (bytes ! i) else None)"

text \<open>The loop of \<open>count_prefixes\<close>. The guard of the second read is the source's
  \<open>prefixes < length + 1\<close>, which always holds.\<close>

function count_prefixes_from :: "cpu_mode \<Rightarrow> u8 list \<Rightarrow> nat \<Rightarrow> nat \<Rightarrow> nat option" where
  "count_prefixes_from m bytes len prefixes =
     (if prefixes < len then
        (case byte_at bytes prefixes of
           None \<Rightarrow> None
         | Some byte \<Rightarrow>
             (case (if prefixes < len + 1 then byte_at bytes (prefixes + 1) else Some 0) of
                None \<Rightarrow> None
              | Some next_byte \<Rightarrow>
                  if is_prefix m byte next_byte then
                    (if byte AND 0xfe = 0xc4 then Some (prefixes + 1)
                     else count_prefixes_from m bytes len (prefixes + 1))
                  else Some prefixes))
      else Some prefixes)"
  by pat_completeness auto
termination
  by (relation "measure (\<lambda>(m, bytes, len, k). len - k)") auto

declare count_prefixes_from.simps [simp del]

definition count_prefixes :: "cpu_mode \<Rightarrow> u8 list \<Rightarrow> nat \<Rightarrow> nat option" where
  "count_prefixes m bytes len = count_prefixes_from m bytes len 0"

section \<open>Rejecting prefix combinations\<close>

definition MAX_PREFIXES :: nat where "MAX_PREFIXES = 1"

record seen =
  segment_override_seen :: bool
  operand_size_override_seen :: bool
  address_size_override_seen :: bool
  lock_seen :: bool
  repne_seen :: bool
  rep_seen :: bool
  rex_seen :: bool

definition nothing_seen :: seen where
  "nothing_seen = \<lparr>segment_override_seen = False, operand_size_override_seen = False,
     address_size_override_seen = False, lock_seen = False, repne_seen = False,
     rep_seen = False, rex_seen = False\<rparr>"

text \<open>What the \<open>switch\<close> decides for one byte: return at once, go on with the flags updated, or
  look at the fields of an EVEX or VEX prefix.\<close>

datatype switch_result =
    Return bool
  | Next seen
  | Evex
  | Vex bool bool  \<comment> \<open>\<open>vex_invalid\<close>, \<open>vex_malformed_instruction_expect_ud\<close>\<close>

definition switch_byte :: "cpu_mode \<Rightarrow> u8 list \<Rightarrow> nat \<Rightarrow> nat \<Rightarrow> seen \<Rightarrow> switch_result" where
  "switch_byte m bytes len i s =
     (let byte = bytes ! i in
      if byte = 0x26 \<or> byte = 0x2e \<or> byte = 0x36 \<or> byte = 0x3e \<or> byte = 0x64 \<or> byte = 0x65 then
        (if rex_seen s \<or> segment_override_seen s then Return True
         else Next (s\<lparr>segment_override_seen := True\<rparr>))
      else if byte = 0x62 then
        (if m \<noteq> Mode64 \<and> (i + 1 = len \<or> bytes ! (i + 1) < 0xc0) then Return False else Evex)
      else if byte = 0x66 then
        (if rex_seen s \<or> operand_size_override_seen s then Return True
         else Next (s\<lparr>operand_size_override_seen := True\<rparr>))
      else if byte = 0x67 then
        (if rex_seen s \<or> address_size_override_seen s then Return True
         else Next (s\<lparr>address_size_override_seen := True\<rparr>))
      else if byte = 0xf0 then
        (if rex_seen s \<or> lock_seen s then Return True else Next (s\<lparr>lock_seen := True\<rparr>))
      else if byte = 0xf2 then
        (if rex_seen s \<or> repne_seen s then Return True else Next (s\<lparr>repne_seen := True\<rparr>))
      else if byte = 0xf3 then
        (if rex_seen s \<or> rep_seen s then Return True else Next (s\<lparr>rep_seen := True\<rparr>))
      else if byte = 0xc4 \<or> byte = 0xc5 then
        (if m \<noteq> Mode64 \<and> (i + 1 \<ge> len \<or> bytes ! (i + 1) < 0xc0) then Return False
         else (let vex_invalid = (byte = 0xc4 \<and> rex_seen s) \<or> operand_size_override_seen s \<or>
                     rep_seen s \<or> repne_seen s
               in Vex vex_invalid (\<not> vex_invalid \<and> ((byte = 0xc5 \<and> rex_seen s) \<or> lock_seen s))))
      else if m = Mode64 \<and> byte AND 0xf0 = 0x40 then
        (if rex_seen s then Return True else Next (s\<lparr>rex_seen := True\<rparr>))
      else Return False)"

text \<open>The field checks after an EVEX prefix at position \<open>i\<close>.\<close>

definition evex_rejected :: "u8 list \<Rightarrow> nat \<Rightarrow> nat \<Rightarrow> bool" where
  "evex_rejected bytes len i =
     (if i + 3 \<ge> len then False
      else if bytes ! (i + 1) AND 0xf0 \<noteq> 0xf0 then True
      else if bytes ! (i + 2) AND 0x78 \<noteq> 0 then True
      else if bytes ! (i + 3) AND 0x9f \<noteq> 0x08 then True
      else False)"

text \<open>The field checks after a VEX prefix at position \<open>i\<close>; they come before the result.\<close>

definition vex_rejected :: "u8 list \<Rightarrow> nat \<Rightarrow> nat \<Rightarrow> bool" where
  "vex_rejected bytes len i =
     (if bytes ! i = 0xc4 \<and> i + 2 < len then
        bytes ! (i + 1) AND 0xe0 \<noteq> 0xe0 \<or> bytes ! (i + 2) AND 0x78 \<noteq> 0x78
      else if bytes ! i = 0xc5 \<and> i + 1 < len then
        bytes ! (i + 1) AND 0xf8 \<noteq> 0xf8
      else False)"

text \<open>The \<open>for\<close> loop. The second result is the global \<open>malformed_instruction_expect_ud\<close>, which
  the function clears first and sets only on its last exit.\<close>

function scan_prefixes ::
  "cpu_mode \<Rightarrow> u8 list \<Rightarrow> nat \<Rightarrow> nat \<Rightarrow> seen \<Rightarrow> bool \<times> bool" where
  "scan_prefixes m bytes len i s =
     (if i < len then
        (case switch_byte m bytes len i s of
           Return r \<Rightarrow> (r, False)
         | Next s' \<Rightarrow> if i \<ge> MAX_PREFIXES then (True, False) else scan_prefixes m bytes len (i + 1) s'
         | Evex \<Rightarrow> if i \<ge> MAX_PREFIXES then (True, False) else (evex_rejected bytes len i, False)
         | Vex vex_invalid vex_malformed \<Rightarrow>
             if i \<ge> MAX_PREFIXES then (True, False)
             else if vex_rejected bytes len i then (True, False)
             else (vex_invalid, vex_malformed))
      else (False, False))"
  by pat_completeness auto
termination
  by (relation "measure (\<lambda>(m, bytes, len, i, s). len - i)") auto

declare scan_prefixes.simps [simp del]

definition contains_invalid_count_of_prefixes ::
  "cpu_mode \<Rightarrow> u8 list \<Rightarrow> nat \<Rightarrow> bool \<times> bool" where
  "contains_invalid_count_of_prefixes m bytes len = scan_prefixes m bytes len 0 nothing_seen"

section \<open>The rejected strings in closed form\<close>

text \<open>A one-byte prefix: segment, operand-size or address-size override, LOCK, REPNE, REP, REX.\<close>

definition simple_prefix :: "cpu_mode \<Rightarrow> u8 \<Rightarrow> bool" where
  "simple_prefix m b \<longleftrightarrow>
     b \<in> {0x26, 0x2e, 0x36, 0x3e, 0x64, 0x65, 0x66, 0x67, 0xf0, 0xf2, 0xf3} \<or>
     (m = Mode64 \<and> b AND 0xf0 = 0x40)"

text \<open>Outside 64-bit mode \<open>62\<close>, \<open>c4\<close>, \<open>c5\<close> are BOUND, LES, LDS unless the next byte has its two
  high bits set.\<close>

definition escape_at :: "cpu_mode \<Rightarrow> u8 list \<Rightarrow> nat \<Rightarrow> nat \<Rightarrow> bool" where
  "escape_at m bytes len i \<longleftrightarrow> m = Mode64 \<or> (i + 1 < len \<and> bytes ! (i + 1) \<ge> 0xc0)"

definition evex_at :: "cpu_mode \<Rightarrow> u8 list \<Rightarrow> nat \<Rightarrow> nat \<Rightarrow> bool" where
  "evex_at m bytes len i \<longleftrightarrow> bytes ! i = 0x62 \<and> escape_at m bytes len i"

definition vex_at :: "cpu_mode \<Rightarrow> u8 list \<Rightarrow> nat \<Rightarrow> nat \<Rightarrow> bool" where
  "vex_at m bytes len i \<longleftrightarrow> (bytes ! i = 0xc4 \<or> bytes ! i = 0xc5) \<and> escape_at m bytes len i"

text \<open>At most one prefix; EVEX and VEX only with fixed payload fields.\<close>

definition rejected :: "cpu_mode \<Rightarrow> u8 list \<Rightarrow> nat \<Rightarrow> bool" where
  "rejected m bytes len \<longleftrightarrow>
     (if len = 0 then False
      else if simple_prefix m (bytes ! 0) then
        1 < len \<and> (simple_prefix m (bytes ! 1) \<or> evex_at m bytes len 1 \<or> vex_at m bytes len 1)
      else if evex_at m bytes len 0 then evex_rejected bytes len 0
      else if vex_at m bytes len 0 then vex_rejected bytes len 0
      else False)"

lemma rex_byte_distinct:
  "b AND 0xf0 = 0x40 \<Longrightarrow> c AND 0xf0 \<noteq> 0x40 \<Longrightarrow> b \<noteq> c" for b c :: u8
  by auto

lemma switch_simple_prefix:
  "simple_prefix m (bytes ! i) \<Longrightarrow>
   switch_byte m bytes len i s = Return True \<or> (\<exists>s'. switch_byte m bytes len i s = Next s')"
  unfolding simple_prefix_def
  by (elim disjE insertE conjE emptyE; simp add: switch_byte_def rex_byte_distinct)

lemma switch_simple_prefix_first:
  "simple_prefix m (bytes ! i) \<Longrightarrow> \<exists>s'. switch_byte m bytes len i nothing_seen = Next s'"
  unfolding simple_prefix_def
  by (elim disjE insertE conjE emptyE; simp add: switch_byte_def nothing_seen_def rex_byte_distinct)

lemma switch_evex: "evex_at m bytes len i \<Longrightarrow> switch_byte m bytes len i s = Evex"
  unfolding evex_at_def escape_at_def
  by (elim conjE disjE; simp add: switch_byte_def not_less)

lemma switch_vex: "vex_at m bytes len i \<Longrightarrow> \<exists>v w. switch_byte m bytes len i s = Vex v w"
  unfolding vex_at_def escape_at_def
  by (elim conjE disjE; simp add: switch_byte_def Let_def not_less)

lemma switch_vex_first:
  "vex_at m bytes len i \<Longrightarrow> switch_byte m bytes len i nothing_seen = Vex False False"
  unfolding vex_at_def escape_at_def
  by (elim conjE disjE; simp add: switch_byte_def Let_def nothing_seen_def not_less)

lemma switch_other:
  assumes "i < len" and np: "\<not> simple_prefix m (bytes ! i)" and "\<not> evex_at m bytes len i"
    and "\<not> vex_at m bytes len i"
  shows "switch_byte m bytes len i s = Return False"
proof -
  have short: "m \<noteq> Mode64 \<and> (i + 1 \<ge> len \<or> bytes ! (i + 1) < 0xc0)"
    if "bytes ! i = 0x62 \<or> bytes ! i = 0xc4 \<or> bytes ! i = 0xc5"
    using that assms(3,4) by (auto simp: evex_at_def vex_at_def escape_at_def not_less not_le)
  consider "bytes ! i = 0x62" | "bytes ! i = 0xc4" | "bytes ! i = 0xc5"
    | "bytes ! i \<noteq> 0x62" "bytes ! i \<noteq> 0xc4" "bytes ! i \<noteq> 0xc5" by blast
  then show ?thesis
  proof cases
    case 1
    then have "m \<noteq> Mode64 \<and> (i + 1 = len \<or> bytes ! (i + 1) < 0xc0)"
      using short \<open>i < len\<close> by auto
    then show ?thesis using 1 by (simp add: switch_byte_def)
  next
    case 4
    then show ?thesis using np by (simp add: switch_byte_def simple_prefix_def)
  qed (use short in \<open>simp_all add: switch_byte_def\<close>)
qed

lemma contains_invalid_eq:
  "contains_invalid_count_of_prefixes m bytes len = (rejected m bytes len, False)"
proof -
  have second: "scan_prefixes m bytes len 1 s =
      (1 < len \<and> (simple_prefix m (bytes ! 1) \<or> evex_at m bytes len 1 \<or> vex_at m bytes len 1), False)"
    for s
  proof (cases "1 < len")
    case True
    consider "simple_prefix m (bytes ! 1)" | "evex_at m bytes len 1" | "vex_at m bytes len 1"
      | "\<not> simple_prefix m (bytes ! 1)" "\<not> evex_at m bytes len 1" "\<not> vex_at m bytes len 1"
      by blast
    then show ?thesis using True
      switch_simple_prefix [of m bytes 1 len s] switch_vex [of m bytes len 1 s] switch_evex [of m bytes len 1 s]
      switch_other [of 1 len m bytes s]
      by cases (auto simp: scan_prefixes.simps [of m bytes len "Suc 0"] MAX_PREFIXES_def)
  qed (simp add: scan_prefixes.simps [of m bytes len "Suc 0"])
  note first = scan_prefixes.simps [of m bytes len 0 nothing_seen]
  consider "len = 0" | "0 < len" "simple_prefix m (bytes ! 0)"
    | "0 < len" "\<not> simple_prefix m (bytes ! 0)" "evex_at m bytes len 0"
    | "0 < len" "\<not> simple_prefix m (bytes ! 0)" "\<not> evex_at m bytes len 0" "vex_at m bytes len 0"
    | "0 < len" "\<not> simple_prefix m (bytes ! 0)" "\<not> evex_at m bytes len 0" "\<not> vex_at m bytes len 0"
    by blast
  then show ?thesis
  proof cases
    case 1
    then show ?thesis
      by (simp add: contains_invalid_count_of_prefixes_def rejected_def
          scan_prefixes.simps [of m bytes 0 0 nothing_seen])
  next
    case 2
    then show ?thesis using switch_simple_prefix_first [of m bytes 0 len] second
      by (auto simp: contains_invalid_count_of_prefixes_def first rejected_def MAX_PREFIXES_def)
  qed (simp_all add: contains_invalid_count_of_prefixes_def first rejected_def MAX_PREFIXES_def
      switch_evex switch_vex_first switch_other)
qed

text \<open>C16: the prefix filter is exactly the closed description, in every CPU mode and for every
  string and length; and it never leaves \<open>malformed_instruction_expect_ud\<close> set, because with
  \<open>MAX_PREFIXES = 1\<close> a VEX prefix behind another prefix is rejected before its fields are read.\<close>

theorem contains_invalid_count_of_prefixes_eq:
  "contains_invalid_count_of_prefixes m bytes len = (rejected m bytes len, False)"
  by (rule contains_invalid_eq)

section \<open>Counting prefixes\<close>

lemma segment_mask: "byte AND NOT (0x26 XOR 0x3e) = 0x26 \<longleftrightarrow> byte \<in> {0x26, 0x2e, 0x36, 0x3e :: u8}"
  by (simp add: u8_eq_bits bit_simps) argo

lemma pair_masks:
  fixes byte :: u8
  shows "byte AND 0xfe = 0x66 \<longleftrightarrow> byte = 0x66 \<or> byte = 0x67"
    and "byte AND 0xfe = 0x64 \<longleftrightarrow> byte = 0x64 \<or> byte = 0x65"
    and "byte AND 0xfe = 0xc4 \<longleftrightarrow> byte = 0xc4 \<or> byte = 0xc5"
    and "byte AND 0xfe = 0xf2 \<longleftrightarrow> byte = 0xf2 \<or> byte = 0xf3"
  by (simp add: u8_eq_bits bit_simps, argo)+

lemma evex_payload_mask:
  assumes "b AND 0x78 = (0 :: u8)"
  shows "b \<notin> {0x26, 0x2e, 0x36, 0x3e, 0x64, 0x65, 0x66, 0x67, 0xf0, 0xf2, 0xf3,
      0x62, 0xc4, 0xc5} \<and> b AND 0xf0 \<noteq> 0x40"
  using assms by (auto simp: u8_eq_bits bit_simps)
lemma is_prefix_iff:
  "is_prefix m byte next_byte \<longleftrightarrow>
     simple_prefix m byte \<or> (byte = 0x62 \<and> (m = Mode64 \<or> next_byte \<ge> 0xc0)) \<or>
     byte = 0xc4 \<or> byte = 0xc5"
  unfolding is_prefix_def segment_mask pair_masks simple_prefix_def by auto

lemma evex_payload_not_prefix: "b AND 0x78 = 0 \<Longrightarrow> \<not> is_prefix m b n"
  using evex_payload_mask [of b] by (auto simp: is_prefix_iff simple_prefix_def)

lemma zero_not_prefix: "\<not> is_prefix m 0 n"
  by (rule evex_payload_not_prefix) simp

text \<open>The loop stops at the first position \<open>j\<close> that is past the length or no prefix.\<close>

lemma count_prefixes_from_stops:
  assumes "k \<le> j" and "j + 1 < length bytes"
    and "len \<le> j \<or> \<not> is_prefix m (bytes ! j) (bytes ! (j + 1))"
  shows "\<exists>r. count_prefixes_from m bytes len k = Some r \<and> r \<le> j"
  using assms
proof (induction "j - k" arbitrary: k)
  case 0
  then show ?case by (auto simp: count_prefixes_from.simps [of m bytes len k] byte_at_def)
next
  case (Suc d)
  then have "\<exists>r. count_prefixes_from m bytes len (k + 1) = Some r \<and> r \<le> j"
    by (intro Suc.hyps(1)) simp_all
  moreover have "k + 1 < length bytes" "k + 1 \<le> j" using Suc by simp_all
  ultimately show ?case
    by (auto simp: count_prefixes_from.simps [of m bytes len k] byte_at_def)
qed

lemma count_prefixes_from_vex:
  assumes "k + 1 < length bytes" and "bytes ! k = 0xc4 \<or> bytes ! k = 0xc5"
  shows "\<exists>r. count_prefixes_from m bytes len k = Some r \<and> r \<le> k + 1"
  using assms
  by (auto simp: count_prefixes_from.simps [of m bytes len k] byte_at_def pair_masks is_prefix_iff)

lemma count_prefixes_from_le:
  "count_prefixes_from m bytes len k = Some r \<Longrightarrow> k \<le> len \<Longrightarrow> r \<le> len"
proof (induction m bytes len k rule: count_prefixes_from.induct)
  case (1 m bytes len k)
  show ?case using "1.prems" "1.IH"
    by (auto simp: count_prefixes_from.simps [of m bytes len k] split: if_splits option.splits)
qed

text \<open>\<open>zero_from bytes n\<close>: nothing but zeros from position \<open>n\<close> on.\<close>

definition zero_from :: "u8 list \<Rightarrow> nat \<Rightarrow> bool" where
  "zero_from bytes n \<longleftrightarrow> (\<forall>j. n \<le> j \<longrightarrow> j < length bytes \<longrightarrow> bytes ! j = 0)"

lemma zero_fromD: "zero_from bytes n \<Longrightarrow> n \<le> j \<Longrightarrow> j < length bytes \<Longrightarrow> bytes ! j = 0"
  by (simp add: zero_from_def)

lemma count_prefixes_accepted:
  assumes acc: "\<not> rejected m bytes n" and n: "1 \<le> n" and z: "zero_from bytes n"
    and len: "5 \<le> length bytes"
  shows "\<exists>k. count_prefixes m bytes len' = Some k \<and> k \<le> 3"
proof -
  have stop: ?thesis if "j \<le> 3" "\<not> is_prefix m (bytes ! j) (bytes ! (j + 1))" for j
    using count_prefixes_from_stops [of 0 j bytes len' m] that len
    by (auto simp: count_prefixes_def)
  have zero: "bytes ! j = 0" if "n \<le> j" "j < 5" for j
    using that len by (intro zero_fromD [OF z]) simp_all
  have end_here: ?thesis if "n \<le> 3"
    using stop [of n] zero [of n] that by (simp add: zero_not_prefix)
  consider "\<not> is_prefix m (bytes ! 0) (bytes ! 1)" | "bytes ! 0 = 0xc4 \<or> bytes ! 0 = 0xc5"
    | "simple_prefix m (bytes ! 0)"
    | "bytes ! 0 = 0x62" "\<not> simple_prefix m (bytes ! 0)" "m = Mode64 \<or> bytes ! 1 \<ge> 0xc0"
    using is_prefix_iff [of m "bytes ! 0" "bytes ! 1"] by blast
  then show ?thesis
  proof cases
    case 1
    then show ?thesis using stop [of 0] by simp
  next
    case 2
    then show ?thesis using count_prefixes_from_vex [of 0 bytes m len'] len
      by (force simp: count_prefixes_def)
  next
    case 3
    show ?thesis
    proof (cases "n \<le> 3")
      case False
      then have "\<not> simple_prefix m (bytes ! 1)" "\<not> evex_at m bytes n 1" "\<not> vex_at m bytes n 1"
        using 3 acc by (simp_all add: rejected_def)
      then have "\<not> is_prefix m (bytes ! 1) (bytes ! 2) \<or> bytes ! 1 = 0xc4 \<or> bytes ! 1 = 0xc5"
        using False by (auto simp: is_prefix_iff evex_at_def vex_at_def escape_at_def numeral_eq_Suc)
      then consider "\<not> is_prefix m (bytes ! 1) (bytes ! 2)" | "bytes ! 1 = 0xc4 \<or> bytes ! 1 = 0xc5"
        by blast
      then show ?thesis
      proof cases
        case 1
        then show ?thesis using stop [of 1] by (simp add: numeral_eq_Suc)
      next
        case 2
        have ne: "bytes \<noteq> []" "Suc 0 < length bytes" using len by auto
        have p0: "is_prefix m (bytes ! 0) (bytes ! 1)" using 3 by (simp add: is_prefix_iff)
        have "bytes ! 0 \<noteq> 0xc4 \<and> bytes ! 0 \<noteq> 0xc5" using 3 by (auto simp: simple_prefix_def)
        then have "count_prefixes m bytes len' =
            (if 0 < len' then count_prefixes_from m bytes len' 1 else Some 0)"
          using p0 ne by (simp add: count_prefixes_def pair_masks byte_at_def
              count_prefixes_from.simps [of m bytes len' 0])
        then show ?thesis using count_prefixes_from_vex [of 1 bytes m len'] 2 len by force
      qed
    qed (rule end_here)
  next
    case 4
    show ?thesis
    proof (cases "n \<le> 3")
      case False
      then have "evex_at m bytes n 0" using 4 by (simp add: evex_at_def escape_at_def)
      then have "\<not> evex_rejected bytes n 0" using acc 4 False by (simp add: rejected_def)
      then have "bytes ! 2 AND 0x78 = 0"
        using False by (simp add: evex_rejected_def numeral_eq_Suc split: if_splits)
      then show ?thesis using stop [of 2] by (simp add: evex_payload_not_prefix)
    qed (rule end_here)
  qed
qed

text \<open>C22: counting the prefixes of the current instruction never reads outside the 15-byte array.
  The instruction is a string the filter accepted at some length \<open>n\<close>, grown by zero bytes; at any
  length the count is at most three, so the read of the following byte is in range although its
  guard does not test that.\<close>

theorem count_prefixes_in_bounds:
  assumes "\<not> fst (contains_invalid_count_of_prefixes m bytes n)" and "1 \<le> n"
    and "zero_from bytes n" and "length bytes = 15"
  shows "\<exists>k. count_prefixes m bytes len = Some k \<and> k \<le> 3 \<and> k \<le> len"
proof -
  have "\<not> rejected m bytes n" using assms(1) by (simp add: contains_invalid_eq)
  then obtain k where "count_prefixes m bytes len = Some k" "k \<le> 3"
    using count_prefixes_accepted [of m bytes n len] assms(2-4) by auto
  moreover have "k \<le> len" using count_prefixes_from_le [of m bytes len 0 k] calculation(1)
    by (simp add: count_prefixes_def)
  ultimately show ?thesis by blast
qed

theorem count_prefixes_in_bounds_witness:
  "\<exists>k. count_prefixes Mode64 (0x62 # replicate 14 0) 15 = Some k \<and> k \<le> 3 \<and> k \<le> 15"
  by (rule count_prefixes_in_bounds [of _ _ 1])
     (simp_all add: contains_invalid_eq rejected_def simple_prefix_def evex_at_def vex_at_def
       escape_at_def evex_rejected_def zero_from_def nth_Cons')

text \<open>Bytes after which the loop of \<open>count_prefixes\<close> goes on: prefixes but those of VEX.\<close>

definition goes_past :: "cpu_mode \<Rightarrow> u8 list \<Rightarrow> nat \<Rightarrow> bool" where
  "goes_past m bytes i \<longleftrightarrow> is_prefix m (bytes ! i) (bytes ! (i + 1)) \<and> bytes ! i \<noteq> 0xc4 \<and> bytes ! i \<noteq> 0xc5"

lemma count_prefixes_from_overread:
  "len \<le> length bytes \<Longrightarrow>
   count_prefixes_from m bytes len k = None \<longleftrightarrow>
     len = length bytes \<and> k < len \<and> (\<forall>i. k \<le> i \<and> i + 1 < len \<longrightarrow> goes_past m bytes i)"
proof (induction m bytes len k rule: count_prefixes_from.induct)
  case (1 m bytes len k)
  note step = count_prefixes_from.simps [of m bytes len k] byte_at_def
  consider "len \<le> k" | "k + 1 = length bytes" "k < len" | "k < len" "k + 1 < length bytes" using "1.prems" by linarith
  then show ?case
  proof cases
    case 1
    then show ?thesis by (simp add: step)
  next
    case 2
    then show ?thesis using "1.prems" by (auto simp: step)
  next
    case 3
    have first: "(\<forall>i. k \<le> i \<and> i + 1 < len \<longrightarrow> goes_past m bytes i) \<longleftrightarrow>
        (k + 1 < len \<longrightarrow> goes_past m bytes k) \<and> (\<forall>i. k + 1 \<le> i \<and> i + 1 < len \<longrightarrow> goes_past m bytes i)"
      by (metis Suc_eq_plus1 le_Suc_eq le_antisym not_less_eq_eq)
    have "count_prefixes_from m bytes len k =
        (if goes_past m bytes k then count_prefixes_from m bytes len (k + 1)
         else if is_prefix m (bytes ! k) (bytes ! (k + 1)) then Some (k + 1) else Some k)"
      using 3 by (auto simp: step goes_past_def pair_masks)
    moreover have "count_prefixes_from m bytes len (k + 1) = None \<longleftrightarrow> len = length bytes \<and> k + 1 < len \<and>
        (\<forall>i. k + 1 \<le> i \<and> i + 1 < len \<longrightarrow> goes_past m bytes i)" if "goes_past m bytes k"
      using "1.IH" [OF 3(1), of "bytes ! k" "bytes ! (k + 1)"] that 3 "1.prems"
      by (simp add: byte_at_def goes_past_def pair_masks)
    ultimately show ?thesis unfolding first using 3 by auto
  qed
qed

text \<open>C23: the guard of that read does not protect the array, in any CPU mode and at any length.
  \<open>count_prefixes\<close> reads past the end of its array exactly if the length is the whole array and every
  byte but the last is a prefix other than VEX; the last byte may be anything. (With the guard
  \<open>prefixes + 1 < length\<close> it never would.)\<close>

theorem count_prefixes_overread:
  assumes "len \<le> length bytes"
  shows "count_prefixes m bytes len = None \<longleftrightarrow> len = length bytes \<and> 0 < len \<and>
    (\<forall>i. i + 1 < len \<longrightarrow> is_prefix m (bytes ! i) (bytes ! (i + 1)) \<and> bytes ! i \<noteq> 0xc4 \<and> bytes ! i \<noteq> 0xc5)"
  using count_prefixes_from_overread [OF assms, of m 0] by (simp add: count_prefixes_def goes_past_def)

theorem count_prefixes_overread_witness:
  "count_prefixes Mode64 (replicate 15 0x66) 15 = None \<and>
   count_prefixes Mode32 (replicate 14 0xf3 @ [0x90]) 15 = None \<and>
   count_prefixes Mode64 (replicate 15 0x66) 14 \<noteq> None \<and>
   count_prefixes Mode64 (0xc5 # replicate 14 0x66) 15 \<noteq> None"
proof -
  have p: "is_prefix m 0x66 x" "is_prefix m 0xf3 x" for m x
    by (simp_all add: is_prefix_iff simple_prefix_def)
  have vex: "count_prefixes Mode64 (0xc5 # replicate 14 0x66) 15 \<noteq> None"
    unfolding count_prefixes_overread [of 15 "0xc5 # replicate 14 0x66" Mode64, simplified]
    by (auto intro!: exI [of _ 0])
  show ?thesis
    using vex count_prefixes_overread [of 15 "replicate 15 0x66" Mode64]
      count_prefixes_overread [of 15 "replicate 14 0xf3 @ [0x90]" Mode32]
      count_prefixes_overread [of 14 "replicate 15 0x66" Mode64]
    by (auto simp: p nth_append)
qed

end
