(* ===== verification/Search.thy ===== *)
theory Search
  imports Prefix_Filter
begin

text \<open>
  The tunnelling search: how the next instruction is made from the current one, at the end of
  \<open>check_last_instruction\<close> (\<open>src/instruction_execution_loop.c\<close>, from \<open>cur_byte_is_prefix\<close> on). The
  \<open>goto\<close> into the first branch is the mutual recursion of the two loops.

  Byte strings are compared by \<open>be_value\<close>. The theorems say that the search only moves up in this
  order, that it ends, and that a string it passes over either continues the string it was at or
  has a prefix the filter rejects.
\<close>

section \<open>The next instruction\<close>

text \<open>The \<open>while\<close> loop behind the label \<open>update_byte_index\<close>: trailing \<open>ff\<close> bytes become \<open>00\<close>. The
  new index, or \<open>None\<close> when the first byte was \<open>ff\<close> as well.\<close>

fun update_byte_index :: "u8 list \<Rightarrow> nat \<Rightarrow> u8 list \<times> nat option" where
  "update_byte_index bytes 0 =
     (if bytes ! 0 = 0xff then (bytes[0 := 0], None) else (bytes, Some 0))"
| "update_byte_index bytes (Suc i) =
     (if bytes ! Suc i = 0xff then update_byte_index (bytes[Suc i := 0]) i
      else (bytes, Some (Suc i)))"

text \<open>Where the search goes: everything was tried, or the next bytes with the index and length
  variables and the \<open>malformed_instruction_expect_ud\<close> flag, or an access outside the array.\<close>

datatype search_result =
    Exhausted "u8 list"
  | Candidate "u8 list" nat nat bool
  | Search_Fault

text \<open>The end of the subtree of the first \<open>idx + 1\<close> bytes, as a value.\<close>

definition subtree_end :: "u8 list \<Rightarrow> nat \<Rightarrow> nat" where
  "subtree_end bytes idx =
     (be_value (take (Suc idx) bytes) + 1) * 256 ^ (length bytes - Suc idx)"

lemma subtree_end_le:
  assumes "idx < length bytes"
  shows "subtree_end bytes idx \<le> 256 ^ length bytes"
proof -
  have "be_value (take (Suc idx) bytes) + 1 \<le> 256 ^ Suc idx"
    using be_value_less [of "take (Suc idx) bytes"] assms by simp
  then have "subtree_end bytes idx \<le> 256 ^ Suc idx * 256 ^ (length bytes - Suc idx)"
    unfolding subtree_end_def by (rule mult_right_mono) simp
  also have "\<dots> = 256 ^ (Suc idx + (length bytes - Suc idx))"
    by (rule power_add [symmetric])
  also have "Suc idx + (length bytes - Suc idx) = length bytes" using assms by simp
  finally show ?thesis .
qed

lemma be_value_take_Suc:
  "i < length bs \<Longrightarrow> be_value (take (Suc i) bs) = be_value (take i bs) * 256 + unat (bs ! i)"
  by (simp add: take_Suc_conv_app_nth be_value_append)

lemma subtree_end_carry:
  assumes "Suc i < length bytes" and "bytes ! Suc i = 0xff"
  shows "subtree_end (bytes[Suc i := 0]) i = subtree_end bytes (Suc i)"
proof -
  have "length bytes - Suc i = Suc (length bytes - Suc (Suc i))" using assms(1) by simp
  moreover have "unat (bytes ! Suc i) = 255" using assms(2) by simp
  ultimately show ?thesis using assms(1)
    by (simp add: subtree_end_def be_value_take_Suc [of "Suc i"] add_mult_distrib)
qed

lemma be_value_take_increment:
  assumes "i < length bytes" and "bytes ! i \<noteq> 0xff"
  shows "be_value (take (Suc i) (bytes[i := bytes ! i + 1])) = be_value (take (Suc i) bytes) + 1"
  using assms by (simp add: be_value_take_Suc word_ne_max_plus_one)

lemma subtree_end_increment:
  assumes "i < length bytes" and "bytes ! i \<noteq> 0xff"
  shows "subtree_end (bytes[i := bytes ! i + 1]) i =
           subtree_end bytes i + 256 ^ (length bytes - Suc i)"
  unfolding subtree_end_def be_value_take_increment [OF assms]
  by (simp add: add_mult_distrib)

lemma update_byte_index_spec:
  assumes "update_byte_index bytes idx = (bytes', r)" and "idx < length bytes"
  shows "length bytes' = length bytes \<and>
    (case r of
       None \<Rightarrow> subtree_end bytes idx = 256 ^ length bytes
     | Some idx' \<Rightarrow> idx' \<le> idx \<and> bytes' ! idx' \<noteq> 0xff \<and>
         subtree_end bytes' idx' = subtree_end bytes idx \<and>
         take (Suc idx') bytes' = take (Suc idx') bytes)"
  using assms
proof (induction bytes idx arbitrary: bytes' r rule: update_byte_index.induct)
  case (1 bytes)
  then show ?case
    by (auto simp: subtree_end_def be_value_take_Suc [of 0] power_eq_if split: if_splits)
next
  case (2 bytes i)
  show ?case
  proof (cases "bytes ! Suc i = 0xff")
    case True
    have "length bytes' = length (bytes[Suc i := 0]) \<and>
      (case r of
         None \<Rightarrow> subtree_end (bytes[Suc i := 0]) i = 256 ^ length (bytes[Suc i := 0])
       | Some idx' \<Rightarrow> idx' \<le> i \<and> bytes' ! idx' \<noteq> 0xff \<and>
           subtree_end bytes' idx' = subtree_end (bytes[Suc i := 0]) i \<and>
           take (Suc idx') bytes' = take (Suc idx') (bytes[Suc i := 0]))"
      using 2 True by (intro "2.IH") simp_all
    then show ?thesis using True 2 by (auto simp: subtree_end_carry split: option.splits)
  next
    case False
    then show ?thesis using "2.prems" by auto
  qed
qed

text \<open>The \<open>do ... while\<close> loop; \<open>len\<close> is \<open>cur_instruction_length\<close>.\<close>

function next_candidate :: "cpu_mode \<Rightarrow> u8 list \<Rightarrow> nat \<Rightarrow> nat \<Rightarrow> search_result" where
  "next_candidate m bytes idx len =
     (if idx < length bytes then
        (if bytes ! idx = 0xff then
           (case update_byte_index bytes idx of
              (bytes', None) \<Rightarrow> Exhausted bytes'
            | (bytes', Some idx') \<Rightarrow> next_candidate m bytes' idx' (idx' + 1))
         else
           (let bytes' = bytes[idx := bytes ! idx + 1];
                (invalid, malformed) = contains_invalid_count_of_prefixes m bytes' len
            in if invalid then next_candidate m bytes' idx len
               else Candidate bytes' idx len malformed))
      else Search_Fault)"
  by pat_completeness auto
termination
proof (relation "measures [\<lambda>(m, bytes, idx, len). 256 ^ length bytes - subtree_end bytes idx,
                           \<lambda>(m, bytes, idx, len). if bytes ! idx = 0xff then 1 else 0]",
       goal_cases)
  case 1
  then show ?case by simp
next
  case (2 m bytes idx len bytes' r idx')
  then show ?case using update_byte_index_spec [of bytes idx bytes' "Some idx'"] by auto
next
  case (3 m bytes idx len bytes' p invalid malformed)
  have b: "bytes' = bytes[idx := bytes ! idx + 1]" using 3 by simp
  have "subtree_end bytes' idx = subtree_end bytes idx + 256 ^ (length bytes - Suc idx)"
    using 3(1,2) unfolding b by (rule subtree_end_increment)
  moreover have "subtree_end bytes' idx \<le> 256 ^ length bytes"
    using subtree_end_le [of idx bytes'] 3(1) b by simp
  moreover have "0 < (256 :: nat) ^ (length bytes - Suc idx)" by simp
  ultimately have "256 ^ length bytes - subtree_end bytes' idx < 256 ^ length bytes - subtree_end bytes idx"
    by linarith
  then show ?case using b by simp
qed

declare next_candidate.simps [simp del]

text \<open>Lines from \<open>cur_byte_is_prefix\<close> to the end: the branch on the instruction's length, then the
  loop. With the result goes \<open>last_instruction_length\<close>.\<close>

definition advance ::
  "cpu_mode \<Rightarrow> u8 list \<Rightarrow> nat \<Rightarrow> nat \<Rightarrow> nat \<Rightarrow> search_result \<times> nat" where
  "advance m bytes idx len last_len =
     (case count_prefixes m bytes len of
        None \<Rightarrow> (Search_Fault, last_len)
      | Some prefixes \<Rightarrow>
          (let cur_byte_is_prefix = idx < prefixes in
           if len = last_len \<and> \<not> cur_byte_is_prefix then
             (if idx < length bytes then
                (case update_byte_index bytes idx of
                   (bytes', None) \<Rightarrow> (Exhausted bytes', last_len)
                 | (bytes', Some idx') \<Rightarrow> (next_candidate m bytes' idx' (idx' + 1), last_len))
              else (Search_Fault, last_len))
           else (next_candidate m bytes (len - 1) len, len)))"

section \<open>What the filter depends on\<close>

lemma rejected_cong:
  assumes "\<And>j. j < k \<Longrightarrow> x ! j = y ! j"
  shows "rejected m x k = rejected m y k"
proof -
  have esc: "escape_at m x k i = escape_at m y k i" for i
    using assms by (auto simp: escape_at_def)
  have evex: "evex_at m x k i = evex_at m y k i" "vex_at m x k i = vex_at m y k i"
    "vex_rejected x k i = vex_rejected y k i" "evex_rejected x k i = evex_rejected y k i" if "i < k" for i
    using assms that esc by (simp_all add: evex_at_def vex_at_def vex_rejected_def evex_rejected_def)
  show ?thesis
  proof (cases "k = 0")
    case False
    then show ?thesis using assms [of 0] assms [of 1] evex [of 0] evex [of 1]
      by (cases "1 < k") (simp_all add: rejected_def)
  qed (simp add: rejected_def)
qed

lemma rejected_take:
  assumes "take k x = take k y"
  shows "rejected m x k = rejected m y k"
  using assms by (intro rejected_cong) (metis nth_take)

text \<open>The strings in a range of values that no rejected prefix (of at most \<open>d\<close> bytes) excludes:
  there are none.\<close>

definition all_rejected :: "cpu_mode \<Rightarrow> nat \<Rightarrow> nat \<Rightarrow> nat \<Rightarrow> nat \<Rightarrow> bool" where
  "all_rejected m n d lo hi \<longleftrightarrow>
     (\<forall>y. length y = n \<longrightarrow> lo \<le> be_value y \<longrightarrow> be_value y < hi \<longrightarrow>
        (\<exists>k\<ge>1. k \<le> d \<and> rejected m y k))"

lemma all_rejectedD:
  "all_rejected m n d lo hi \<Longrightarrow> length y = n \<Longrightarrow> lo \<le> be_value y \<Longrightarrow> be_value y < hi \<Longrightarrow>
   \<exists>k\<ge>1. k \<le> d \<and> rejected m y k"
  unfolding all_rejected_def by simp

lemma all_rejectedI:
  "(\<And>y. length y = n \<Longrightarrow> lo \<le> be_value y \<Longrightarrow> be_value y < hi \<Longrightarrow> \<exists>k\<ge>1. k \<le> d \<and> rejected m y k) \<Longrightarrow>
   all_rejected m n d lo hi"
  unfolding all_rejected_def by simp

lemma all_rejected_join:
  assumes "all_rejected m n d lo mid" and "all_rejected m n d mid hi"
  shows "all_rejected m n d lo hi"
proof (rule all_rejectedI)
  fix y :: "u8 list"
  assume "length y = n" "lo \<le> be_value y" "be_value y < hi"
  then show "\<exists>k\<ge>1. k \<le> d \<and> rejected m y k"
    using all_rejectedD [OF assms(1), of y] all_rejectedD [OF assms(2), of y]
    by (cases "be_value y < mid") simp_all
qed

lemma all_rejected_mono:
  assumes "all_rejected m n d' lo hi" and "d' \<le> d"
  shows "all_rejected m n d lo hi"
proof (rule all_rejectedI)
  fix y :: "u8 list"
  assume "length y = n" "lo \<le> be_value y" "be_value y < hi"
  then obtain k where "1 \<le> k" "k \<le> d'" "rejected m y k" using all_rejectedD [OF assms(1)] by blast
  then show "\<exists>k\<ge>1. k \<le> d \<and> rejected m y k" using assms(2) order_trans by blast
qed

lemma all_rejected_empty: "hi \<le> lo \<Longrightarrow> all_rejected m n d lo hi"
  unfolding all_rejected_def by auto

text \<open>The strings of a subtree are those that start with its root.\<close>

lemma be_value_zero_from:
  assumes "zero_from bytes k" and "k \<le> length bytes"
  shows "be_value bytes = be_value (take k bytes) * 256 ^ (length bytes - k)"
proof -
  have "drop k bytes = replicate (length bytes - k) 0"
    using assms by (intro nth_equalityI) (simp_all add: zero_fromD)
  then show ?thesis using be_value_take_drop [OF assms(2)] by simp
qed

lemma subtree_eq_take:
  assumes "zero_from bytes (Suc idx)" and "idx < length bytes" and "length y = length bytes"
    and "be_value bytes \<le> be_value y" and "be_value y < subtree_end bytes idx"
  shows "take (Suc idx) y = take (Suc idx) bytes"
proof -
  let ?p = "256 ^ (length bytes - Suc idx) :: nat"
  let ?v = "be_value (take (Suc idx) bytes)"
  have "?v * ?p \<le> be_value y" "be_value y < (?v + 1) * ?p"
    using assms be_value_zero_from [of bytes "Suc idx"] by (simp_all add: subtree_end_def)
  then have "be_value y div ?p = ?v"
    by (intro div_nat_eqI) (simp_all add: mult.commute)
  then have "be_value (take (Suc idx) y) = ?v"
    using be_value_take_div [of "Suc idx" y] assms(2,3) by simp
  then show ?thesis using assms(2,3) by (intro be_value_inj) simp_all
qed

lemma be_value_increment:
  assumes "zero_from bytes (Suc idx)" and "idx < length bytes" and "bytes ! idx \<noteq> 0xff"
  shows "be_value (bytes[idx := bytes ! idx + 1]) = subtree_end bytes idx"
proof -
  let ?b = "bytes[idx := bytes ! idx + 1]"
  have "zero_from ?b (Suc idx)" using assms(1) by (simp add: zero_from_def)
  then have "be_value ?b = be_value (take (Suc idx) ?b) * 256 ^ (length ?b - Suc idx)"
    using assms(2) by (intro be_value_zero_from) simp_all
  also have "be_value (take (Suc idx) ?b) = be_value (take (Suc idx) bytes) + 1"
    using assms(2,3) by (rule be_value_take_increment)
  finally show ?thesis by (simp add: subtree_end_def)
qed

lemma update_byte_index_zero:
  "update_byte_index bytes idx = (bytes', Some idx') \<Longrightarrow> idx < length bytes \<Longrightarrow>
   zero_from bytes (Suc idx) \<Longrightarrow> zero_from bytes' (Suc idx')"
proof (induction bytes idx rule: update_byte_index.induct)
  case (1 bytes)
  then show ?case by (simp split: if_splits)
next
  case (2 bytes i)
  show ?case
  proof (cases "bytes ! Suc i = 0xff")
    case True
    have "zero_from (bytes[Suc i := 0]) (Suc i)"
      using "2.prems"(3) by (auto simp: zero_from_def nth_list_update)
    then show ?thesis using 2 True by simp
  next
    case False
    then show ?thesis using "2.prems" by simp
  qed
qed

section \<open>Where the search goes\<close>

text \<open>The contract of the loop from index \<open>idx\<close>: a candidate is the smallest accepted string at or
  after the end of the subtree, up to strings with a rejected prefix.\<close>

fun next_candidate_ok :: "cpu_mode \<Rightarrow> u8 list \<Rightarrow> nat \<Rightarrow> search_result \<Rightarrow> bool" where
  "next_candidate_ok m bytes idx (Candidate bytes' idx' len' malformed) \<longleftrightarrow>
     len' = Suc idx' \<and> idx' \<le> idx \<and> length bytes' = length bytes \<and> zero_from bytes' (Suc idx') \<and>
     \<not> rejected m bytes' (Suc idx') \<and> \<not> malformed \<and> subtree_end bytes idx \<le> be_value bytes' \<and>
     all_rejected m (length bytes) (Suc idx) (subtree_end bytes idx) (be_value bytes')"
| "next_candidate_ok m bytes idx (Exhausted bytes') \<longleftrightarrow>
     all_rejected m (length bytes) (Suc idx) (subtree_end bytes idx) (256 ^ length bytes)"
| "next_candidate_ok m bytes idx Search_Fault \<longleftrightarrow> False"

lemma next_candidate_ok_carry:
  assumes "next_candidate_ok m bytes' idx' r" and "idx' \<le> idx" and "length bytes' = length bytes"
    and "subtree_end bytes' idx' = subtree_end bytes idx"
  shows "next_candidate_ok m bytes idx r"
  using assms by (cases r) (auto intro: all_rejected_mono)

lemma next_candidate_ok_skip:
  assumes "next_candidate_ok m bytes' idx r" and "rejected m bytes' (Suc idx)"
    and "zero_from bytes' (Suc idx)" and "be_value bytes' = subtree_end bytes idx"
    and "length bytes' = length bytes" and "idx < length bytes"
    and "subtree_end bytes idx \<le> subtree_end bytes' idx"
  shows "next_candidate_ok m bytes idx r"
proof -
  have "all_rejected m (length bytes) (Suc idx) (subtree_end bytes idx) (subtree_end bytes' idx)"
  proof (rule all_rejectedI)
    fix y :: "u8 list"
    assume y: "length y = length bytes" "subtree_end bytes idx \<le> be_value y"
      "be_value y < subtree_end bytes' idx"
    then have "take (Suc idx) y = take (Suc idx) bytes'"
      using assms(3-6) by (intro subtree_eq_take) simp_all
    then have "rejected m y (Suc idx)" using assms(2) rejected_take by blast
    then show "\<exists>k\<ge>1. k \<le> Suc idx \<and> rejected m y k" by (intro exI [of _ "Suc idx"]) simp
  qed
  then show ?thesis using assms(1,5,7) by (cases r) (auto intro: all_rejected_join)
qed

lemma next_candidate_accept:
  "idx < length bytes \<Longrightarrow> bytes ! idx \<noteq> 0xff \<Longrightarrow> \<not> rejected m (bytes[idx := bytes ! idx + 1]) len \<Longrightarrow>
   next_candidate m bytes idx len = Candidate (bytes[idx := bytes ! idx + 1]) idx len False"
  by (subst next_candidate.simps) (simp add: Let_def contains_invalid_eq)

lemma next_candidate_skip:
  "idx < length bytes \<Longrightarrow> bytes ! idx \<noteq> 0xff \<Longrightarrow> rejected m (bytes[idx := bytes ! idx + 1]) len \<Longrightarrow>
   next_candidate m bytes idx len = next_candidate m (bytes[idx := bytes ! idx + 1]) idx len"
  by (subst next_candidate.simps) (simp add: Let_def contains_invalid_eq)

lemma next_candidate_carry:
  "idx < length bytes \<Longrightarrow> bytes ! idx = 0xff \<Longrightarrow> update_byte_index bytes idx = (bytes', r) \<Longrightarrow>
   next_candidate m bytes idx len =
     (case r of None \<Rightarrow> Exhausted bytes' | Some idx' \<Rightarrow> next_candidate m bytes' idx' (idx' + 1))"
  by (subst next_candidate.simps) (simp split: option.split)

lemma next_candidate_spec:
  "idx < length bytes \<Longrightarrow> zero_from bytes (Suc idx) \<Longrightarrow> len = Suc idx \<Longrightarrow>
   next_candidate_ok m bytes idx (next_candidate m bytes idx len)"
proof (induction m bytes idx len rule: next_candidate.induct)
  case (1 m bytes idx len)
  show ?case
  proof (cases "bytes ! idx = 0xff")
    case ff: True
    obtain bytes' r where u: "update_byte_index bytes idx = (bytes', r)" by fastforce
    show ?thesis
    proof (cases r)
      case None
      then have "subtree_end bytes idx = 256 ^ length bytes"
        using update_byte_index_spec [OF u "1.prems"(1)] by simp
      then show ?thesis using next_candidate_carry [OF "1.prems"(1) ff u] None
        by (simp add: all_rejected_empty)
    next
      case (Some idx')
      then have s: "length bytes' = length bytes" "idx' \<le> idx"
        "subtree_end bytes' idx' = subtree_end bytes idx"
        using update_byte_index_spec [OF u "1.prems"(1)] by simp_all
      have "zero_from bytes' (Suc idx')"
        using update_byte_index_zero [of bytes idx bytes' idx'] u Some "1.prems" by simp
      then have "next_candidate_ok m bytes' idx' (next_candidate m bytes' idx' (idx' + 1))"
        using s "1.prems" by (intro "1.IH"(1) [OF "1.prems"(1) ff u [symmetric] Some]) simp_all
      then have "next_candidate_ok m bytes idx (next_candidate m bytes' idx' (idx' + 1))"
        using s(2) s(1) s(3) by (rule next_candidate_ok_carry)
      then show ?thesis using next_candidate_carry [OF "1.prems"(1) ff u] Some by simp
    qed
  next
    case False
    let ?b = "bytes[idx := bytes ! idx + 1]"
    have z: "zero_from ?b (Suc idx)" using "1.prems"(2) by (simp add: zero_from_def)
    have v: "be_value ?b = subtree_end bytes idx"
      using "1.prems"(2,1) False by (rule be_value_increment)
    show ?thesis
    proof (cases "rejected m ?b len")
      case True
      then have p: "(True, False) = contains_invalid_count_of_prefixes m ?b len"
        by (simp add: contains_invalid_eq)
      have "next_candidate_ok m ?b idx (next_candidate m ?b idx len)"
        using "1.prems" z by (intro "1.IH"(2) [OF "1.prems"(1) False refl refl p TrueI]) simp_all
      moreover have "subtree_end bytes idx \<le> subtree_end ?b idx"
        using subtree_end_increment [OF "1.prems"(1) False] by simp
      ultimately have "next_candidate_ok m bytes idx (next_candidate m ?b idx len)"
        using "1.prems" True z v by - (rule next_candidate_ok_skip, simp_all)
      then show ?thesis using next_candidate_skip [OF "1.prems"(1) False True] by simp
    next
      case acc: False
      have "all_rejected m (length bytes) (Suc idx) (subtree_end bytes idx) (be_value ?b)"
        unfolding v by (rule all_rejected_empty) simp
      moreover have "\<not> rejected m ?b (Suc idx)" using acc "1.prems"(3) by metis
      ultimately show ?thesis
        unfolding next_candidate_accept [OF "1.prems"(1) False acc] next_candidate_ok.simps
        using "1.prems"(3) z eq_refl [OF v [symmetric]] by (intro conjI) simp_all
    qed
  qed
qed

section \<open>One step of the search\<close>

lemma update_then_next:
  assumes "idx < length bytes"
  shows "(case update_byte_index bytes idx of
            (bytes', None) \<Rightarrow> (Exhausted bytes', last_len)
          | (bytes', Some idx') \<Rightarrow> (next_candidate m bytes' idx' (idx' + 1), last_len)) =
         (next_candidate m bytes idx (idx + 1), last_len)"
proof (cases "bytes ! idx = 0xff")
  case True
  obtain bytes' r where u: "update_byte_index bytes idx = (bytes', r)" by fastforce
  show ?thesis using next_candidate_carry [OF assms True u] u by (simp split: option.split)
next
  case False
  then have "update_byte_index bytes idx = (bytes, Some idx)" by (cases idx) simp_all
  then show ?thesis by simp
qed

text \<open>What is true of the variables between two instructions. The candidate at length \<open>idx + 1\<close> was
  accepted; longer lengths only append zero bytes to it.\<close>

definition search_inv :: "cpu_mode \<Rightarrow> u8 list \<Rightarrow> nat \<Rightarrow> nat \<Rightarrow> bool" where
  "search_inv m bytes idx len \<longleftrightarrow>
     length bytes = 15 \<and> idx < len \<and> len \<le> 15 \<and> zero_from bytes (Suc idx) \<and>
     \<not> rejected m bytes (Suc idx)"

text \<open>The number of leading bytes whose subtree the step leaves: the byte under the index, or the
  whole instruction when it turned out to be longer than the last one (or ends in a prefix).\<close>

definition cut_length :: "cpu_mode \<Rightarrow> u8 list \<Rightarrow> nat \<Rightarrow> nat \<Rightarrow> nat \<Rightarrow> nat" where
  "cut_length m bytes idx len last_len =
     (if len = last_len \<and> \<not> idx < the (count_prefixes m bytes len) then Suc idx else len)"

lemma cut_length_bounds:
  "search_inv m bytes idx len \<Longrightarrow>
   idx < cut_length m bytes idx len last_len \<and> cut_length m bytes idx len last_len \<le> len"
  by (auto simp: cut_length_def search_inv_def)

lemma search_inv_zero_cut:
  assumes "search_inv m bytes idx len" and "idx < k"
  shows "zero_from bytes k"
  using assms by (auto simp: search_inv_def zero_from_def)

lemma search_inv_cut:
  assumes "search_inv m bytes idx len" and "idx < k" and "k \<le> len"
  shows "k - 1 < length bytes" and "k - 1 < 15" and "zero_from bytes (Suc (k - 1))"
  using assms search_inv_zero_cut [OF assms(1,2)] by (auto simp: search_inv_def)

lemma advance_eq:
  assumes inv: "search_inv m bytes idx len"
  shows "\<exists>last'. advance m bytes idx len last_len =
           (next_candidate m bytes (cut_length m bytes idx len last_len - 1)
              (cut_length m bytes idx len last_len), last')"
proof -
  have "\<exists>k. count_prefixes m bytes len = Some k \<and> k \<le> 3"
    using inv by (intro count_prefixes_accepted [of m bytes "Suc idx"]) (simp_all add: search_inv_def)
  then obtain p where "count_prefixes m bytes len = Some p" by blast
  moreover have "idx < length bytes" using inv by (simp add: search_inv_def)
  ultimately show ?thesis
    using update_then_next [of idx bytes last_len m]
    by (simp add: advance_def cut_length_def)
qed

lemma advance_next_ok:
  assumes inv: "search_inv m bytes idx len" and d: "d = cut_length m bytes idx len last_len"
  shows "next_candidate_ok m bytes (d - 1) (fst (advance m bytes idx len last_len))"
proof -
  have b: "idx < d" "d \<le> len" using cut_length_bounds [OF inv] d by simp_all
  note search_inv_cut [OF inv b]
  then have "next_candidate_ok m bytes (d - 1) (next_candidate m bytes (d - 1) d)"
    using b by (intro next_candidate_spec) simp_all
  then show ?thesis using advance_eq [OF inv, of last_len] d by auto
qed

lemma advance_no_fault:
  "search_inv m bytes idx len \<Longrightarrow> fst (advance m bytes idx len last_len) \<noteq> Search_Fault"
  using advance_next_ok [OF _ refl, of m bytes idx len last_len] by auto

lemma be_value_less_subtree_end:
  assumes "zero_from bytes (Suc i)" and "i < length bytes"
  shows "be_value bytes < subtree_end bytes i"
  using be_value_zero_from [OF assms(1)] assms(2) by (simp add: subtree_end_def)

lemma advance_candidate:
  assumes inv: "search_inv m bytes idx len"
    and adv: "advance m bytes idx len last_len = (Candidate bytes' idx' len' mal, last')"
  shows "search_inv m bytes' idx' len' \<and> len' = Suc idx' \<and> \<not> mal \<and> be_value bytes < be_value bytes'"
proof -
  let ?d = "cut_length m bytes idx len last_len"
  have b: "idx < ?d" "?d \<le> len" using cut_length_bounds [OF inv] by simp_all
  have ok: "next_candidate_ok m bytes (?d - 1) (Candidate bytes' idx' len' mal)"
    using advance_next_ok [OF inv refl, of last_len] adv by simp
  have "be_value bytes < subtree_end bytes (?d - 1)"
    using search_inv_cut [OF inv b] by (intro be_value_less_subtree_end)
  moreover have "?d - 1 < 15" by (rule search_inv_cut [OF inv b])
  ultimately show ?thesis using ok b inv by (simp add: search_inv_def)
qed

text \<open>A string the step passes over starts with the bytes that were cut, or has a rejected
  prefix.\<close>

definition passes_over :: "cpu_mode \<Rightarrow> u8 list \<Rightarrow> nat \<Rightarrow> nat \<Rightarrow> bool" where
  "passes_over m bytes d hi \<longleftrightarrow>
     (\<forall>y. length y = 15 \<longrightarrow> be_value bytes \<le> be_value y \<longrightarrow> be_value y < hi \<longrightarrow>
        take d y = take d bytes \<or> (\<exists>k\<ge>1. k \<le> d \<and> rejected m y k))"

lemma passes_overI:
  assumes inv: "search_inv m bytes idx len" and d: "idx < d" "d \<le> len"
    and rej: "all_rejected m (length bytes) d (subtree_end bytes (d - 1)) hi"
  shows "passes_over m bytes d hi"
  unfolding passes_over_def
proof (intro allI impI)
  fix y :: "u8 list"
  assume y: "length y = 15" "be_value bytes \<le> be_value y" "be_value y < hi"
  have b: "zero_from bytes (Suc (d - 1))" "d - 1 < length bytes" "length y = length bytes"
    using search_inv_cut [OF inv d] inv y(1) by (simp_all add: search_inv_def)
  show "take d y = take d bytes \<or> (\<exists>k\<ge>1. k \<le> d \<and> rejected m y k)"
  proof (cases "be_value y < subtree_end bytes (d - 1)")
    case True
    then show ?thesis using subtree_eq_take [OF b y(2)] d by simp
  next
    case False
    then show ?thesis using all_rejectedD [OF rej b(3)] y(3) by simp
  qed
qed

lemma advance_passes_over:
  assumes inv: "search_inv m bytes idx len"
    and d: "d = cut_length m bytes idx len last_len"
  shows "case fst (advance m bytes idx len last_len) of
           Exhausted bytes' \<Rightarrow> passes_over m bytes d (256 ^ 15)
         | Candidate bytes' idx' len' mal \<Rightarrow> passes_over m bytes d (be_value bytes')
         | Search_Fault \<Rightarrow> False"
proof -
  have b: "idx < d" "d \<le> len" using cut_length_bounds [OF inv] d by simp_all
  have n: "length bytes = 15" using inv by (simp add: search_inv_def)
  show ?thesis
    using advance_next_ok [OF inv d] passes_overI [OF inv b] b n
    by (cases "fst (advance m bytes idx len last_len)") simp_all
qed

text \<open>C20: a step of the search from a reachable situation never leaves the array; if it finds a
  candidate, that is an accepted string of the same array, larger than the current one in the order
  of byte strings, the length is the index plus one, and the flag for malformed VEX is clear.\<close>

theorem advance_moves_up:
  assumes "search_inv m bytes idx len"
  shows "case advance m bytes idx len last_len of
           (Candidate bytes' idx' len' mal, last') \<Rightarrow>
             search_inv m bytes' idx' len' \<and> len' = Suc idx' \<and> \<not> mal \<and>
             be_value bytes < be_value bytes'
         | (Exhausted bytes', last') \<Rightarrow> True
         | (Search_Fault, last') \<Rightarrow> False"
  using advance_candidate [OF assms, of last_len] advance_no_fault [OF assms, of last_len]
  by (auto split: prod.split search_result.split)

lemma advance_from_zero:
  "advance Mode64 (replicate 15 0) 0 1 0 = (Candidate (1 # replicate 14 0) 0 1 False, 1)"
proof -
  have "replicate 15 (0 :: u8) = 0 # replicate 14 0" by (simp add: numeral_eq_Suc)
  then have "(replicate 15 (0 :: u8))[0 := 1] = 1 # replicate 14 0" by simp
  then show ?thesis
    using next_candidate_accept [of 0 "replicate 15 0" Mode64 1]
    by (simp add: advance_def count_prefixes_def count_prefixes_from.simps byte_at_def
        zero_not_prefix rejected_def simple_prefix_def evex_at_def vex_at_def)
qed

theorem advance_moves_up_witness:
  "search_inv Mode64 (1 # replicate 14 0) 0 1 \<and>
   be_value (replicate 15 0) < be_value (1 # replicate 14 0)"
proof -
  have "search_inv Mode64 (replicate 15 0) 0 1"
    by (simp add: search_inv_def zero_from_def rejected_def simple_prefix_def evex_at_def vex_at_def)
  from advance_moves_up [OF this, of 0] show ?thesis by (simp add: advance_from_zero [simplified])
qed

text \<open>C21: what a step skips. Every 15-byte string between the current one and the next candidate (or
  the end) either starts with the bytes that were just run or has a prefix the filter rejects;
  the bytes in question are those up to the index, or the whole instruction if its length differs
  from the last one's or its last byte is a prefix.\<close>

theorem advance_skips_only_covered:
  assumes "search_inv m bytes idx len" and "d = cut_length m bytes idx len last_len"
    and "advance m bytes idx len last_len = (r, last')"
    and "length y = 15" and "be_value bytes \<le> be_value y"
    and "\<And>bytes' idx' len' mal. r = Candidate bytes' idx' len' mal \<Longrightarrow> be_value y < be_value bytes'"
  shows "take d y = take d bytes \<or> (\<exists>k\<ge>1. k \<le> d \<and> rejected m y k)"
proof -
  have y: "be_value y < 256 ^ 15" using be_value_less [of y] assms(4) by simp
  show ?thesis
    using advance_passes_over [OF assms(1,2)] assms(3-6) y
    by (cases r) (simp_all add: passes_over_def)
qed

theorem advance_skips_only_covered_witness:
  "take 1 (0 # 7 # replicate 13 0) = take 1 (replicate 15 (0 :: u8)) \<or>
   (\<exists>k\<ge>1. k \<le> 1 \<and> rejected Mode64 (0 # 7 # replicate 13 0) k)"
proof (rule advance_skips_only_covered [OF _ _ advance_from_zero])
  show "search_inv Mode64 (replicate 15 0) 0 1"
    by (simp add: search_inv_def zero_from_def rejected_def simple_prefix_def evex_at_def vex_at_def)
qed (simp_all add: cut_length_def)

end
