(* ===== verification/Search_Run.thy ===== *)
theory Search_Run
  imports Search
begin

text \<open>
  Whole runs of the search, seen from outside: after an instruction has run it is either run again
  one byte longer (the CPU fetched past its end) or \<open>advance\<close> is called. How the CPU decides is
  left open, so the theorems hold for every sequence of decisions. Theory \<open>Machine\<close> shows that the
  exception handler takes exactly these steps.
\<close>

section \<open>Steps that increase a rank\<close>

text \<open>The interface: every step keeps an invariant and increases a bounded rank. A client gets
  termination and the absence of cycles.\<close>

locale ranked_steps =
  fixes step :: "'s \<Rightarrow> 's \<Rightarrow> bool"
    and inv :: "'s \<Rightarrow> bool"
    and rank :: "'s \<Rightarrow> nat"
    and bound :: nat
  assumes inv_step: "inv s \<Longrightarrow> step s t \<Longrightarrow> inv t"
    and rank_step: "inv s \<Longrightarrow> step s t \<Longrightarrow> rank s < rank t"
    and rank_bound: "inv s \<Longrightarrow> rank s < bound"
begin

lemma steps_rank: "(step ^^ n) s t \<Longrightarrow> inv s \<Longrightarrow> inv t \<and> rank s + n \<le> rank t"
proof (induction n arbitrary: t)
  case 0
  then show ?case by simp
next
  case (Suc n)
  then obtain u where "(step ^^ n) s u" "step u t" by (auto elim: relpowp_Suc_E)
  moreover from this have "inv u \<and> rank s + n \<le> rank u" using Suc by blast
  ultimately show ?case using inv_step rank_step [of u t] by auto
qed

lemma steps_bounded: "(step ^^ n) s t \<Longrightarrow> inv s \<Longrightarrow> n < bound"
  using steps_rank [of n s t] rank_bound [of t] by linarith

lemma no_cycle: "inv s \<Longrightarrow> (step ^^ n) s s \<Longrightarrow> n = 0"
  using steps_rank [of n s s] by simp

end

section \<open>Steps of the search\<close>

text \<open>The array, \<open>cur_byte_index\<close>, \<open>cur_instruction_length\<close>, \<open>last_instruction_length\<close>.\<close>

type_synonym search = "u8 list \<times> nat \<times> nat \<times> nat"

definition search_start :: search where
  "search_start = (replicate 15 0, 0, 1, 0)"

inductive search_step :: "cpu_mode \<Rightarrow> search \<Rightarrow> search \<Rightarrow> bool" for m where
  longer: "len < 15 \<Longrightarrow>
    search_step m (bytes, idx, len, last_len) (bytes, idx, len + 1, last_len)"
| onward: "advance m bytes idx len last_len = (Candidate bytes' idx' len' mal, last') \<Longrightarrow>
    search_step m (bytes, idx, len, last_len) (bytes', idx', len', last')"

inductive_cases search_stepE: "search_step m s (bytes', idx', len', last')"
inductive_simps search_step_iff:
  "search_step m (bytes, idx, len, last_len) (bytes', idx', len', last')"

definition search_ok :: "cpu_mode \<Rightarrow> search \<Rightarrow> bool" where
  "search_ok m = (\<lambda>(bytes, idx, len, last_len). search_inv m bytes idx len)"

definition search_rank :: "search \<Rightarrow> nat" where
  "search_rank = (\<lambda>(bytes, idx, len, last_len). be_value bytes * 16 + len)"

lemma search_start_ok: "search_ok m search_start"
  by (simp add: search_ok_def search_start_def search_inv_def zero_from_def rejected_def
      simple_prefix_def evex_at_def vex_at_def)

lemma search_step_ok:
  assumes "search_ok m s" and "search_step m s t"
  shows "search_ok m t" and "search_rank s < search_rank t"
proof -
  have "search_ok m t \<and> search_rank s < search_rank t"
    using assms(2,1)
  proof (cases rule: search_step.cases)
    case (longer len bytes idx last_len)
    then show ?thesis using assms(1)
      by (simp add: search_ok_def search_rank_def search_inv_def)
  next
    case (onward bytes idx len last_len bytes' idx' len' mal last')
    then show ?thesis using advance_candidate [OF _ onward(3)] assms(1)
      by (auto simp: search_ok_def search_rank_def search_inv_def)
  qed
  then show "search_ok m t" and "search_rank s < search_rank t" by blast+
qed

interpretation search: ranked_steps "search_step m" "search_ok m" search_rank "16 * 256 ^ 15" for m
proof
  fix s :: search
  assume ok: "search_ok m s"
  obtain bytes idx len last_len where s: "s = (bytes, idx, len, last_len)" by (cases s)
  have "be_value bytes < 256 ^ 15" "len \<le> 15"
    using ok be_value_less [of bytes] s by (simp_all add: search_ok_def search_inv_def)
  then show "search_rank s < 16 * 256 ^ 15" unfolding s search_rank_def by simp
qed (rule search_step_ok; assumption)+

text \<open>C8: the search ends. However the CPU behaves, fewer than 16 * 256^15 instructions are run,
  none of them twice, and at every moment the invariant of the search holds.\<close>

theorem search_terminates:
  assumes "(search_step m ^^ n) search_start t"
  shows "n < 16 * 256 ^ 15 \<and> search_ok m t \<and> \<not> (search_step m)\<^sup>+\<^sup>+ t t"
proof -
  note bounded = search.steps_bounded [OF assms search_start_ok]
  have ok: "search_ok m t" using search.steps_rank [OF assms search_start_ok] by blast
  have "\<not> (search_step m)\<^sup>+\<^sup>+ t t"
  proof
    assume "(search_step m)\<^sup>+\<^sup>+ t t"
    then obtain k where "0 < k" "(search_step m ^^ k) t t" by (auto simp: tranclp_power)
    then show False using search.no_cycle [OF ok, of k] by blast
  qed
  with bounded ok show ?thesis by blast
qed

theorem search_terminates_witness:
  "\<not> (search_step Mode64)\<^sup>+\<^sup>+ (replicate 15 0, 0, 2, 0) (replicate 15 0, 0, 2, 0)"
proof -
  have "(search_step Mode64 ^^ 1) search_start (replicate 15 0, 0, 2, 0)"
    using search_step.longer [of 1 Mode64 "replicate 15 0" 0 0]
    unfolding search_start_def relpowp_1 by (simp add: numeral_2_eq_2)
  from search_terminates [OF this] show ?thesis by blast
qed

section \<open>The instructions that were run\<close>

text \<open>A run with the strings it has executed, in order.\<close>

inductive search_run :: "cpu_mode \<Rightarrow> search \<Rightarrow> u8 list list \<Rightarrow> bool" for m where
  start: "search_run m search_start [[0]]"
| step: "search_run m s h \<Longrightarrow> search_step m s (bytes, idx, len, last_len) \<Longrightarrow>
    search_run m (bytes, idx, len, last_len) (h @ [take len bytes])"

text \<open>A string is covered if some executed instruction is a non-empty prefix of it, or the filter
  rejects one of its prefixes.\<close>

definition covered :: "cpu_mode \<Rightarrow> u8 list list \<Rightarrow> u8 list \<Rightarrow> bool" where
  "covered m h y \<longleftrightarrow>
     (\<exists>x\<in>set h. x \<noteq> [] \<and> take (length x) y = x) \<or> (\<exists>k\<ge>1. k \<le> 15 \<and> rejected m y k)"

definition string_rank :: "u8 list \<Rightarrow> nat" where
  "string_rank x = be_value (x @ replicate (15 - length x) 0) * 16 + length x"

lemma string_rank_current:
  assumes "search_inv m bytes idx len"
  shows "string_rank (take len bytes) = search_rank (bytes, idx, len, last_len)"
proof -
  have len: "length bytes = 15" "len \<le> 15" and z: "zero_from bytes len"
    using assms search_inv_zero_cut [OF assms, of len] by (simp_all add: search_inv_def)
  have "drop len bytes = replicate (15 - len) 0"
    using len z by (intro nth_equalityI) (simp_all add: zero_fromD)
  then have "take len bytes @ replicate (15 - len) 0 = bytes"
    by (metis append_take_drop_id)
  then show ?thesis using len by (simp add: string_rank_def search_rank_def min_def)
qed

text \<open>What holds of the executed strings \<open>h\<close> when the search is at \<open>s\<close>.\<close>

definition history_ok :: "cpu_mode \<Rightarrow> search \<Rightarrow> u8 list list \<Rightarrow> bool" where
  "history_ok m s h \<longleftrightarrow>
     search_ok m s \<and> distinct h \<and> (\<forall>x\<in>set h. string_rank x \<le> search_rank s) \<and>
     (case s of (bytes, idx, len, last_len) \<Rightarrow>
        (\<forall>k. idx < k \<longrightarrow> k \<le> len \<longrightarrow> take k bytes \<in> set h) \<and>
        (\<forall>y. length y = 15 \<longrightarrow> be_value y < be_value bytes \<longrightarrow> covered m h y))"

lemma covered_more: "covered m h y \<Longrightarrow> covered m (h @ h') y"
  by (auto simp: covered_def)

text \<open>What a step leaves behind is covered by what was executed.\<close>

lemma passes_over_covered:
  assumes "passes_over m bytes d hi" and "take d bytes \<in> set h" and "1 \<le> d" and "d \<le> 15"
    and "length bytes = 15" and "length y = 15" and "be_value bytes \<le> be_value y" and "be_value y < hi"
  shows "covered m h y"
proof -
  have "take d y = take d bytes \<or> (\<exists>k\<ge>1. k \<le> d \<and> rejected m y k)"
    using assms(1,6-8) by (simp add: passes_over_def)
  then show ?thesis
  proof
    assume "take d y = take d bytes"
    then have "take (length (take d bytes)) y = take d bytes" "take d bytes \<noteq> []"
      using assms(3-6) by auto
    then show ?thesis using assms(2) unfolding covered_def by blast
  next
    assume "\<exists>k\<ge>1. k \<le> d \<and> rejected m y k"
    then show ?thesis using assms(4) unfolding covered_def by (meson order_trans)
  qed
qed

lemma advance_covers:
  assumes "history_ok m (bytes, idx, len, last_len) h"
    and "case fst (advance m bytes idx len last_len) of
           Exhausted _ \<Rightarrow> hi = 256 ^ 15 | Candidate bytes' _ _ _ \<Rightarrow> hi = be_value bytes'
         | Search_Fault \<Rightarrow> False"
    and "length y = 15" and "be_value y < hi"
  shows "covered m h y"
proof (cases "be_value y < be_value bytes")
  case True
  then show ?thesis using assms(1,3) by (simp add: history_ok_def)
next
  case False
  let ?d = "cut_length m bytes idx len last_len"
  have inv: "search_inv m bytes idx len" using assms(1) by (simp add: history_ok_def search_ok_def)
  have d: "idx < ?d" "?d \<le> len" using cut_length_bounds [OF inv] by simp_all
  then have "take ?d bytes \<in> set h" using assms(1) by (simp add: history_ok_def)
  moreover have "passes_over m bytes ?d hi"
    using advance_passes_over [OF inv refl, of last_len] assms(2) by (auto split: search_result.splits)
  moreover have "1 \<le> ?d" "?d \<le> 15" "length bytes = 15" using d inv by (simp_all add: search_inv_def)
  moreover have "be_value bytes \<le> be_value y" using False by (rule leI)
  ultimately show ?thesis using assms(3,4) by (intro passes_over_covered)
qed

lemma history_ok_step:
  assumes ok: "history_ok m s h" and step: "search_step m s (bytes, idx, len, last_len)"
  shows "history_ok m (bytes, idx, len, last_len) (h @ [take len bytes])"
proof -
  let ?t = "(bytes, idx, len, last_len)"
  have s_ok: "search_ok m s" using ok by (simp add: history_ok_def)
  note t = search_step_ok [OF s_ok step]
  have r: "string_rank (take len bytes) = search_rank ?t"
    using t(1) by (intro string_rank_current) (simp add: search_ok_def)
  have low: "string_rank x < search_rank ?t" if "x \<in> set h" for x
    using ok t(2) that unfolding history_ok_def by (meson le_less_trans)
  then have new: "take len bytes \<notin> set h" using r by fastforce
  have "(\<forall>k. idx < k \<longrightarrow> k \<le> len \<longrightarrow> take k bytes \<in> set (h @ [take len bytes])) \<and>
      (\<forall>y. length y = 15 \<longrightarrow> be_value y < be_value bytes \<longrightarrow> covered m (h @ [take len bytes]) y)"
    using step
  proof (cases rule: search_step.cases)
    case (longer len')
    then show ?thesis using ok
      by (auto simp: history_ok_def le_Suc_eq intro: covered_more)
  next
    case (onward bytes0 idx0 len0 last0 mal)
    have ok0: "history_ok m (bytes0, idx0, len0, last0) h" using ok onward by simp
    have "search_inv m bytes0 idx0 len0" using s_ok onward by (simp add: search_ok_def)
    then have "len = Suc idx" using advance_candidate [OF _ onward(2)] by simp
    moreover have "covered m h y" if "length y = 15" "be_value y < be_value bytes" for y
      using advance_covers [OF ok0 _ that] onward(2) by simp
    ultimately show ?thesis using covered_more by (auto simp: le_Suc_eq)
  qed
  then show ?thesis using ok t(1) r low new
    by (auto simp: history_ok_def intro: less_imp_le)
qed

lemma search_run_ok: "search_run m s h \<Longrightarrow> history_ok m s h"
proof (induction rule: search_run.induct)
  case start
  have "search_rank search_start = 1" "string_rank [0] = 1"
    by (simp_all add: search_rank_def search_start_def string_rank_def)
  then show ?case using search_start_ok
    by (auto simp: history_ok_def search_start_def le_Suc_eq)
next
  case (step s h bytes idx len last_len)
  then show ?case by (intro history_ok_step)
qed

text \<open>C7: when the search says it is done, it has missed nothing. Every 15-byte string begins with
  an instruction that was executed or has a prefix the filter rejects, however long the CPU found
  each instruction to be.\<close>

theorem search_complete:
  assumes "search_run m (bytes, idx, len, last_len) h"
    and "advance m bytes idx len last_len = (Exhausted bytes', last')" and "length y = 15"
  shows "(\<exists>x\<in>set h. x \<noteq> [] \<and> take (length x) y = x) \<or> (\<exists>k\<ge>1. k \<le> 15 \<and> rejected m y k)"
proof -
  have "be_value y < 256 ^ 15" using be_value_less [of y] assms(3) by simp
  then have "covered m h y"
    using assms(2,3) by (intro advance_covers [OF search_run_ok [OF assms(1)]]) simp_all
  then show ?thesis by (simp add: covered_def)
qed

text \<open>The shortest complete run: no instruction was longer than one byte.\<close>

lemma one_byte_not_rejected: "\<not> rejected m bytes (Suc 0)"
  by (simp add: rejected_def evex_rejected_def vex_rejected_def)

lemma one_byte_inv: "search_inv Mode64 (b # replicate 14 0) 0 1"
  by (simp add: search_inv_def zero_from_def one_byte_not_rejected nth_Cons')

lemma one_byte_advance:
  "\<exists>last'. advance Mode64 (b # replicate 14 0) 0 1 last_len =
     (next_candidate Mode64 (b # replicate 14 0) 0 1, last')"
proof -
  have "cut_length Mode64 (b # replicate 14 0) 0 1 last_len = 1"
    by (simp add: cut_length_def)
  then show ?thesis using advance_eq [OF one_byte_inv, of b last_len] by simp
qed

lemma one_byte_run:
  "n \<le> 255 \<Longrightarrow> \<exists>last_len. search_run Mode64 (of_nat n # replicate 14 0, 0, 1, last_len)
     (map (\<lambda>i. [of_nat i]) [0..<Suc n])"
proof (induction n)
  case 0
  have "search_start = (0 # replicate 14 0, 0, 1, 0)"
    by (simp add: search_start_def numeral_eq_Suc)
  then have "search_run Mode64 (0 # replicate 14 0, 0, 1, 0) [[0]]"
    using search_run.start [of Mode64] by metis
  then show ?case by auto
next
  case (Suc n)
  let ?b = "of_nat n # replicate 14 0 :: u8 list"
  obtain last_len where run: "search_run Mode64 (?b, 0, 1, last_len) (map (\<lambda>i. [of_nat i]) [0..<Suc n])"
    using Suc by auto
  have "unat (of_nat n :: u8) = n" using Suc.prems by (simp add: unat_of_nat)
  then have "(of_nat n :: u8) \<noteq> 0xff" using Suc.prems by auto
  then have "next_candidate Mode64 ?b 0 1 = Candidate (of_nat (Suc n) # replicate 14 0) 0 1 False"
    using next_candidate_accept [of 0 ?b Mode64 1] by (simp add: one_byte_not_rejected add.commute)
  then obtain last' where
    "advance Mode64 ?b 0 1 last_len = (Candidate (of_nat (Suc n) # replicate 14 0) 0 1 False, last')"
    using one_byte_advance [of "of_nat n" last_len] by auto
  from search_run.step [OF run search_step.onward [OF this]]
  show ?case by auto
qed

theorem search_complete_witness:
  "(\<exists>x\<in>set (map (\<lambda>i. [of_nat i :: u8]) [0..<256]). x \<noteq> [] \<and> take (length x) (replicate 15 0x90) = x) \<or>
   (\<exists>k\<ge>1. k \<le> 15 \<and> rejected Mode64 (replicate 15 0x90) k)"
proof -
  have b: "of_nat 255 # replicate 14 0 = (0xff # replicate 14 0 :: u8 list)" by simp
  obtain last_len where run: "search_run Mode64 (0xff # replicate 14 0, 0, 1, last_len)
      (map (\<lambda>i. [of_nat i]) [0..<256])"
    using one_byte_run [of 255] unfolding b by auto
  have "update_byte_index (0xff # replicate 14 0) 0 = (0 # replicate 14 0, None)" by simp
  then have "next_candidate Mode64 (0xff # replicate 14 0) 0 1 = Exhausted (0 # replicate 14 0)"
    using next_candidate_carry [of 0 "0xff # replicate 14 0"] by simp
  then obtain last' where
    "advance Mode64 (0xff # replicate 14 0) 0 1 last_len = (Exhausted (0 # replicate 14 0), last')"
    using one_byte_advance [of "0xff" last_len] by auto
  from search_complete [OF run this, of "replicate 15 0x90"] show ?thesis by simp
qed

text \<open>C15: no instruction is executed twice (but for the repetitions that wait for stable counters),
  and each has one to fifteen bytes.\<close>

theorem search_run_distinct:
  assumes "search_run m s h"
  shows "distinct h \<and> (\<forall>x\<in>set h. 1 \<le> length x \<and> length x \<le> 15)"
proof -
  have "\<forall>x\<in>set h. 1 \<le> length x \<and> length x \<le> 15"
    using assms
  proof (induction rule: search_run.induct)
    case start
    then show ?case by simp
  next
    case (step s h bytes idx len last_len)
    have "history_ok m (bytes, idx, len, last_len) (h @ [take len bytes])"
      using search_run.step [OF step.hyps] by (rule search_run_ok)
    then show ?case using step.IH by (auto simp: history_ok_def search_ok_def search_inv_def)
  qed
  moreover have "distinct h" using search_run_ok [OF assms] by (simp add: history_ok_def)
  ultimately show ?thesis by blast
qed

theorem search_run_distinct_witness: "distinct [[0], [0, 0 :: u8]]"
proof -
  have "search_step Mode64 search_start (replicate 15 0, 0, 1 + 1, 0)"
    unfolding search_start_def by (rule search_step.longer) simp
  from search_run.step [OF search_run.start this]
  have "search_run Mode64 (replicate 15 0, 0, 2, 0) [[0], [0, 0]]" by (simp add: numeral_2_eq_2)
  from search_run_distinct [OF this] show ?thesis by blast
qed

end
