(* ===== verification/Disasm.thy ===== *)
theory Disasm
  imports Save_File
begin

text \<open>
  The instruction-length oracle (\<open>src/disasm.c\<close>). Intel XED is not part of the sources: its tables
  and its decoder are calls to the outside, whose answers the model leaves open.
\<close>

record disasm_world = save_world +
  disasm_xed_chip :: xed_chip

definition disasm_init :: "env \<Rightarrow> xed_chip \<Rightarrow> (unit, 'z disasm_world_scheme) prog" where
  "disasm_init e chip =
     andthen (extu e XedTablesInit) (\<lambda>_. modify (\<lambda>s. s\<lparr>disasm_xed_chip := chip\<rparr>))"

text \<open>The length XED finds, \<open>0\<close> if it does not know the bytes. The machine mode is the build's.\<close>

definition disasm_get_instruction_length ::
  "build \<Rightarrow> env \<Rightarrow> u8 list \<Rightarrow> nat \<Rightarrow> (u64, 'z disasm_world_scheme) prog" where
  "disasm_get_instruction_length b e bytes len =
     andthen (fetch disasm_xed_chip) (\<lambda>chip.
     andthen (ext e (XedDecode (cpu_mode b) chip (take len bytes))) (\<lambda>r.
     return (if status r \<noteq> 0 then 0 else val0 r)))"

end
