(* ===== verification/Cpu.thy ===== *)
theory Cpu
  imports Env
begin

text \<open>
  The inline-assembly wrappers: model-specific registers (\<open>src/msr.h\<close>), control registers
  (\<open>src/control_registers.h\<close>) and \<open>rdpmc\<close>. A reply of the CPU holds one register per value, \<open>eax\<close>,
  \<open>ebx\<close>, \<open>ecx\<close>, \<open>edx\<close> for \<open>cpuid\<close> and \<open>eax\<close>, \<open>edx\<close> for the reads of 64-bit quantities.
\<close>

section \<open>Halves of a quadword\<close>

definition low_half :: "u64 \<Rightarrow> u32" where
  "low_half v = ucast (v AND 0xffffffff)"

definition high_half :: "u64 \<Rightarrow> u32" where
  "high_half v = ucast (drop_bit 32 v)"

definition join_halves :: "u32 \<Rightarrow> u32 \<Rightarrow> u64" where
  "join_halves high low = push_bit 32 (ucast high) OR ucast low"

section \<open>Model-specific registers and counters\<close>

definition rdmsr :: "env \<Rightarrow> u32 \<Rightarrow> (u64, 'z world_scheme) prog" where
  "rdmsr e msr = andthen (ext e (Rdmsr msr)) (\<lambda>r.
     return (join_halves (ucast (val1 r)) (ucast (val0 r))))"

definition wrmsr :: "env \<Rightarrow> u32 \<Rightarrow> u64 \<Rightarrow> (unit, 'z world_scheme) prog" where
  "wrmsr e msr v = extu e (Wrmsr msr (low_half v) (high_half v))"

definition rdpmc :: "env \<Rightarrow> u32 \<Rightarrow> (u64, 'z world_scheme) prog" where
  "rdpmc e index = andthen (ext e (Rdpmc index)) (\<lambda>r.
     return (join_halves (ucast (val1 r)) (ucast (val0 r))))"

section \<open>Control registers\<close>

definition CR0_WP :: u64 where "CR0_WP = push_bit 16 1"
definition CR4_LA57 :: u64 where "CR4_LA57 = push_bit 12 1"

definition read_cr :: "env \<Rightarrow> nat \<Rightarrow> (u64, 'z world_scheme) prog" where
  "read_cr e n = andthen (ext e (ReadCr n)) (\<lambda>r. return (val0 r))"

definition write_cr :: "env \<Rightarrow> nat \<Rightarrow> u64 \<Rightarrow> (unit, 'z world_scheme) prog" where
  "write_cr e n v = extu e (WriteCr n v)"

definition read_cr0 where "read_cr0 e = read_cr e 0"
definition write_cr0 where "write_cr0 e v = write_cr e 0 v"
definition read_cr2 where "read_cr2 e = read_cr e 2"
definition read_cr3 where "read_cr3 e = read_cr e 3"
definition write_cr3 where "write_cr3 e v = write_cr e 3 v"
definition read_cr4 where "read_cr4 e = read_cr e 4"
definition write_cr4 where "write_cr4 e v = write_cr e 4 v"
definition write_cr8 where "write_cr8 e v = write_cr e 8 v"

lemmas cr_defs = read_cr_def write_cr_def read_cr0_def write_cr0_def read_cr2_def read_cr3_def
  write_cr3_def read_cr4_def write_cr4_def write_cr8_def

text \<open>What \<open>wrmsr\<close> splits, \<open>rdmsr\<close> puts together.\<close>

lemma join_split: "join_halves (high_half v) (low_half v) = v"
proof -
  have "v AND 0xffffffff = take_bit 32 v" by (simp add: take_bit_eq_mask mask_eq_exp_minus_1)
  then show ?thesis unfolding join_halves_def high_half_def low_half_def
    by (intro bit_word_eqI) (auto simp: bit_simps)
qed

lemma talks_rdmsr [talks_intros]: "C (Rdmsr msr) \<Longrightarrow> talks s C (rdmsr e msr)"
  unfolding rdmsr_def by (intro talks_intros)

lemma talks_wrmsr [talks_intros]: "C (Wrmsr msr (low_half v) (high_half v)) \<Longrightarrow> talks s C (wrmsr e msr v)"
  unfolding wrmsr_def by (intro talks_intros)

lemma talks_rdpmc [talks_intros]: "C (Rdpmc i) \<Longrightarrow> talks s C (rdpmc e i)"
  unfolding rdpmc_def by (intro talks_intros)

lemma talks_read_cr2 [talks_intros]: "C (ReadCr 2) \<Longrightarrow> talks s C (read_cr2 e)"
  unfolding cr_defs by (intro talks_intros)

text \<open>C28: a model-specific register that keeps what it is given is read back unchanged: the two
  halves \<open>wrmsr\<close> passes in \<open>eax\<close> and \<open>edx\<close> are put together again by \<open>rdmsr\<close>, for every 64-bit
  value. The hypothesis is the CPU's: a read right after a write answers with the halves written.\<close>

theorem wrmsr_rdmsr_roundtrip:
  assumes "\<And>h lo hi r. val0 (e (h @ [(Wrmsr msr lo hi, r)]) (Rdmsr msr)) = ucast lo \<and>
      val1 (e (h @ [(Wrmsr msr lo hi, r)]) (Rdmsr msr)) = ucast hi"
  shows "\<exists>s'. andthen (wrmsr e msr v) (\<lambda>_. rdmsr e msr) s = Done v s'"
proof -
  have u: "ucast (ucast x :: u64) = x" for x :: u32
    by (rule bit_word_eqI) (auto simp: bit_simps)
  show ?thesis by (simp add: rdmsr_def wrmsr_def run_simps assms u join_split)
qed

fun register_env :: env where
  "register_env h (Rdmsr msr) =
     (case last h of
        (Wrmsr msr' lo hi, r) \<Rightarrow>
          \<lparr>status = 0, val0 = ucast lo, val1 = ucast hi, val2 = 0, val3 = 0\<rparr>
      | _ \<Rightarrow> \<lparr>status = 0, val0 = 0, val1 = 0, val2 = 0, val3 = 0\<rparr>)"
| "register_env h c = \<lparr>status = 0, val0 = 0, val1 = 0, val2 = 0, val3 = 0\<rparr>"

theorem wrmsr_rdmsr_roundtrip_witness:
  "\<exists>s'. andthen (wrmsr register_env 0x38f 0x8000000700000003) (\<lambda>_. rdmsr register_env 0x38f)
     \<lparr>trace = []\<rparr> = Done 0x8000000700000003 s'"
  by (rule wrmsr_rdmsr_roundtrip) simp

end
