(* ===== verification/Uarch_Config.thy ===== *)
theory Uarch_Config
  imports Text_Output Cpu
begin

text \<open>
  The table of supported CPUs and its lookup (\<open>src/uarch_config.c\<close>, \<open>src/uarch_config.h\<close>): which
  performance events are counted, and which CPUs they are known for.
\<close>

section \<open>The table\<close>

record perf_counter_info =
  pc_name :: string
  event_selector :: u16

record cpuid_family_model_info =
  cpu_family :: u16
  cpu_model :: u16

record uarch_config =
  uarch_name :: string
  uarch_xed_chip :: xed_chip
  cpu_models :: "cpuid_family_model_info list"
  uarch_perf_counters :: "perf_counter_info list"

text \<open>The number of counters the build selects.\<close>

definition PERF_EVENTS_COUNT :: "build \<Rightarrow> nat" where
  "PERF_EVENTS_COUNT b =
     1 + (if count_retired b then 2 else 0) + (if count_nops b then 1 else 0) +
     (if count_idq b then 3 else 0)"

text \<open>The index of \<open>INST_RETIRED_NOP\<close>, for builds that have it.\<close>

definition INST_RETIRED_NOP :: "build \<Rightarrow> nat" where
  "INST_RETIRED_NOP b = (if count_retired b then 3 else 1)"

definition skylake_cpu_models :: "cpuid_family_model_info list" where
  "skylake_cpu_models =
     [\<lparr>cpu_family = 6, cpu_model = 0x4e\<rparr>,
      \<lparr>cpu_family = 6, cpu_model = 0x5e\<rparr>,
      \<lparr>cpu_family = 6, cpu_model = 0x8e\<rparr>,
      \<lparr>cpu_family = 6, cpu_model = 0x9e\<rparr>,
      \<lparr>cpu_family = 6, cpu_model = 0xa5\<rparr>,
      \<lparr>cpu_family = 6, cpu_model = 0xa6\<rparr>]"

definition intel_uarch_configs :: "build \<Rightarrow> uarch_config list" where
  "intel_uarch_configs b =
     [\<lparr>uarch_name = ''Skylake'',
       uarch_xed_chip = XED_CHIP_SKYLAKE,
       cpu_models = skylake_cpu_models,
       uarch_perf_counters =
         [\<lparr>pc_name = ''UOPS_ISSUED.ANY'', event_selector = 0x010e\<rparr>] @
         (if count_retired b then
            [\<lparr>pc_name = ''UOPS_RETIRED.ALL'', event_selector = 0x01c2\<rparr>,
             \<lparr>pc_name = ''UOPS_RETIRED.RETIRE_SLOTS'', event_selector = 0x02c2\<rparr>]
          else []) @
         (if count_nops b then
            [\<lparr>pc_name = ''INST_RETIRED.NOP'', event_selector = 0x02c0\<rparr>]
          else []) @
         (if count_idq b then
            [\<lparr>pc_name = ''IDQ.MITE_UOPS'', event_selector = 0x0479\<rparr>,
             \<lparr>pc_name = ''IDQ.DSB_UOPS'', event_selector = 0x0879\<rparr>,
             \<lparr>pc_name = ''IDQ.MS_UOPS'', event_selector = 0x2079\<rparr>]
          else [])\<rparr>]"

section \<open>Lookup\<close>

text \<open>Family and model of the CPUID signature.\<close>

definition signature_model :: "u32 \<Rightarrow> u16" where
  "signature_model eax =
     (let model = ucast (drop_bit 4 eax AND 0xf);
          family = ucast (drop_bit 8 eax AND 0xf) :: u16
      in if family = 0x6 \<or> family = 0xf
         then model OR ucast (drop_bit (16 - 4) eax AND 0xf0) else model)"

definition signature_family :: "u32 \<Rightarrow> u16" where
  "signature_family eax =
     (let family = ucast (drop_bit 8 eax AND 0xf)
      in if family = 0xf then family + ucast (drop_bit 20 eax AND 0xff) else family)"

text \<open>The two loops: the first configuration with a matching entry.\<close>

fun find_uarch :: "u16 \<Rightarrow> u16 \<Rightarrow> uarch_config list \<Rightarrow> uarch_config option" where
  "find_uarch family model [] = None"
| "find_uarch family model (u # us) =
     (if \<exists>info\<in>set (cpu_models u). family = cpu_family info \<and> model = cpu_model info then Some u
      else find_uarch family model us)"

definition get_uarch_config_for_intel_cpu ::
  "build \<Rightarrow> env \<Rightarrow> (uarch_config option, 'z world_scheme) prog" where
  "get_uarch_config_for_intel_cpu b e =
     andthen (print e (wide (''Intel CPU detected!'' @ crlf))) (\<lambda>_.
     andthen (ext e (Cpuid 1)) (\<lambda>r.
     let eax = ucast (val0 r); family = signature_family eax; model = signature_model eax in
     andthen (printf e (''CPU family: 0x%x model: 0x%x'' @ crlf)
                [VInt (ucast family), VInt (ucast model)]) (\<lambda>_.
     case find_uarch family model (intel_uarch_configs b) of
       Some cur_uarch \<Rightarrow>
         andthen (printf e (''Detected microarchitecture: %s'' @ crlf) [VStr (uarch_name cur_uarch)])
           (\<lambda>_. return (Some cur_uarch))
     | None \<Rightarrow> return None)))"

definition get_uarch_config_for_cpu ::
  "build \<Rightarrow> env \<Rightarrow> (uarch_config option, 'z world_scheme) prog" where
  "get_uarch_config_for_cpu b e =
     andthen (ext e (Cpuid 0)) (\<lambda>r.
     let eax = ucast (val0 r) :: u32; ebx = ucast (val1 r) :: u32;
         ecx = ucast (val2 r) :: u32; edx = ucast (val3 r) :: u32 in
     if ebx = 0x756e6547 \<and> ecx = 0x6c65746e \<and> edx = 0x49656e69 then
       get_uarch_config_for_intel_cpu b e
     else
       andthen (printf e (''Unknown CPU vendor!'' @ crlf @
                  ''CPUID.00H: EAX=0x%x EBX=0x%x ECX=0x%x EDX=0x%x'' @ crlf)
                  [VInt (ucast eax), VInt (ucast ebx), VInt (ucast ecx), VInt (ucast edx)])
         (\<lambda>_. return None))"

section \<open>Properties\<close>

lemma events_count: "length (uarch_perf_counters u) = PERF_EVENTS_COUNT b" if "u \<in> set (intel_uarch_configs b)"
  using that by (auto simp: intel_uarch_configs_def PERF_EVENTS_COUNT_def)

lemma find_uarch_mem: "find_uarch f m us = Some u \<Longrightarrow> u \<in> set us"
  by (induction us) (auto split: if_splits)

lemma find_uarch_skylake:
  "find_uarch f m (intel_uarch_configs b) \<noteq> None \<longleftrightarrow>
     f = 6 \<and> m \<in> {0x4e, 0x5e, 0x8e, 0x9e, 0xa5, 0xa6}"
  by (auto simp: intel_uarch_configs_def skylake_cpu_models_def)

text \<open>The signature of a CPU: stepping, model and family with their extensions.\<close>

definition cpu_signature :: "nat \<Rightarrow> nat \<Rightarrow> nat \<Rightarrow> nat" where
  "cpu_signature family model stepping =
     stepping + 2 ^ 4 * (model mod 16) + 2 ^ 8 * (min family 15) + 2 ^ 16 * (model div 16) +
     2 ^ 20 * (family - 15)"

lemma unat_field:
  fixes x :: u32
  assumes "k \<le> 16"
  shows "unat (ucast (drop_bit n x AND of_nat (2 ^ k - 1)) :: u16) = unat x div 2 ^ n mod 2 ^ k"
proof -
  have "drop_bit n x AND of_nat (2 ^ k - 1) = take_bit k (drop_bit n x)"
    by (simp add: take_bit_eq_mask mask_eq_exp_minus_1 of_nat_diff)
  moreover have "unat (take_bit k (drop_bit n x)) = unat x div 2 ^ n mod 2 ^ k"
    using unsigned_less [of x, where ?'a = nat]
    by (simp only: unsigned_take_bit_eq unsigned_drop_bit_eq) (simp add: take_bit_eq_mod drop_bit_eq_div)
  moreover have "unat x div 2 ^ n mod 2 ^ k < 2 ^ 16"
  proof -
    have "unat x div 2 ^ n mod 2 ^ k < 2 ^ k" by simp
    also have "(2 :: nat) ^ k \<le> 2 ^ 16" using assms by (intro power_increasing) simp_all
    finally show ?thesis .
  qed
  ultimately show ?thesis by (simp add: unsigned_ucast_eq take_bit_eq_mod)
qed

lemma fields_of_signature:
  fixes f m st :: nat
  assumes "f < 271" and "m < 256" and "st < 16"
  shows "cpu_signature f m st < 2 ^ 32"
    and "cpu_signature f m st div 2 ^ 4 mod 2 ^ 4 = m mod 16"
    and "cpu_signature f m st div 2 ^ 8 mod 2 ^ 4 = min f 15"
    and "cpu_signature f m st div 2 ^ 16 mod 2 ^ 4 = m div 16"
    and "cpu_signature f m st div 2 ^ 20 mod 2 ^ 8 = f - 15"
proof -
  define a b c d where "a = m mod 16" and "b = min f 15" and "c = m div 16" and "d = f - 15"
  have bounds: "a < 16" "b < 16" "c < 16" "d < 256"
    using assms by (auto simp: a_def b_def c_def d_def)
  have s: "cpu_signature f m st = st + 16 * a + 256 * b + 65536 * c + 1048576 * d"
    by (simp add: cpu_signature_def a_def b_def c_def d_def)
  show "cpu_signature f m st < 2 ^ 32" unfolding s using bounds assms(3) by simp
  have divs: "cpu_signature f m st div 16 = a + 16 * (b + 256 * (c + 16 * d))"
    "cpu_signature f m st div 256 = b + 16 * (16 * (c + 16 * d))"
    "cpu_signature f m st div 65536 = c + 16 * d"
    "cpu_signature f m st div 1048576 = d"
    unfolding s using bounds assms(3) by (intro div_nat_eqI; simp)+
  have q: "(r + 16 * q) mod 16 = r" if "r < 16" for r q :: nat using that by simp
  have "cpu_signature f m st div 16 mod 16 = a" "cpu_signature f m st div 256 mod 16 = b"
    "cpu_signature f m st div 65536 mod 16 = c" "cpu_signature f m st div 1048576 mod 256 = d"
    using bounds by (simp_all only: divs q mod_less)
  then show "cpu_signature f m st div 2 ^ 4 mod 2 ^ 4 = m mod 16"
    "cpu_signature f m st div 2 ^ 8 mod 2 ^ 4 = min f 15"
    "cpu_signature f m st div 2 ^ 16 mod 2 ^ 4 = m div 16"
    "cpu_signature f m st div 2 ^ 20 mod 2 ^ 8 = f - 15"
    unfolding a_def b_def c_def d_def by simp_all
qed

lemma signature_fields:
  assumes "f < 271" and "m < 256" and "st < 16" and "f = 6 \<or> 15 \<le> f"
  shows "unat (signature_family (of_nat (cpu_signature f m st))) = f"
    and "unat (signature_model (of_nat (cpu_signature f m st))) = m"
proof -
  let ?x = "of_nat (cpu_signature f m st) :: u32"
  note fields = fields_of_signature [OF assms(1-3)]
  have x: "unat ?x = cpu_signature f m st" using fields(1) by (simp add: unat_of_nat)
  note field = unat_field [of _ _ ?x, unfolded x]
  have fam: "unat (ucast (drop_bit 8 ?x AND 0xf) :: u16) = min f 15"
    using field [of 4 8] fields(3) by simp
  have ext: "unat (ucast (drop_bit 20 ?x AND 0xff) :: u16) = f - 15"
    using field [of 8 20] fields(5) by simp
  have low: "unat (ucast (drop_bit 4 ?x AND 0xf) :: u16) = m mod 16"
    using field [of 4 4] fields(2) by simp
  have six: "(ucast (drop_bit 8 ?x AND 0xf) :: u16) = 0x6 \<longleftrightarrow> min f 15 = 6"
    and fifteen: "(ucast (drop_bit 8 ?x AND 0xf) :: u16) = 0xf \<longleftrightarrow> min f 15 = 15"
    unfolding fam [symmetric] by (simp_all add: word_unat_eq_iff)
  show "unat (signature_family ?x) = f"
  proof (cases "15 \<le> f")
    case True
    then have "ucast (drop_bit 8 ?x AND 0xf) = (0xf :: u16)" using fifteen by simp
    moreover have "unat ((0xf :: u16) + ucast (drop_bit 20 ?x AND 0xff)) = 15 + (f - 15)"
      using assms(1) by (simp add: unat_word_ariths ext)
    ultimately show ?thesis using True by (simp add: signature_family_def)
  next
    case False
    then show ?thesis using fam fifteen by (simp add: signature_family_def)
  qed
  have mask4: "(0xf :: u32) = mask 4" "(0xf0 :: u32) = push_bit 4 (mask 4)"
    by (simp_all add: mask_eq_exp_minus_1)
  let ?hi = "ucast (drop_bit 16 ?x AND 0xf) :: u16" and ?lo = "ucast (drop_bit 4 ?x AND 0xf) :: u16"
  have hi: "ucast (drop_bit 12 ?x AND 0xf0) = push_bit 4 ?hi"
    unfolding mask4 by (rule bit_word_eqI) (auto simp: bit_simps)
  have "take_bit 4 ?lo = ?lo"
    unfolding mask4 by (rule bit_word_eqI) (auto simp: bit_simps)
  then have "?lo OR push_bit 4 ?hi = ?lo + push_bit 4 ?hi" by (rule small_or_push_bit)
  moreover have "unat ?hi = m div 16" using field [of 4 16] fields(4) by simp
  then have "unat (?lo + push_bit 4 ?hi) = m mod 16 + 16 * (m div 16)"
    using low assms(2) by (simp add: unat_word_ariths push_bit_eq_mult)
  ultimately show "unat (signature_model ?x) = m"
    using assms(4) six fifteen by (auto simp: signature_model_def Let_def hi)
qed

text \<open>A CPU as \<open>cpuid\<close> shows it: the vendor string of leaf 0 and the signature of leaf 1.\<close>

definition cpuid_shows :: "env \<Rightarrow> u32 \<times> u32 \<times> u32 \<Rightarrow> nat \<Rightarrow> nat \<Rightarrow> nat \<Rightarrow> bool" where
  "cpuid_shows e vendor family model stepping \<longleftrightarrow>
     (\<forall>h. (case vendor of (ebx, edx, ecx) \<Rightarrow>
        val1 (e h (Cpuid 0)) = ucast ebx \<and> val2 (e h (Cpuid 0)) = ucast ecx \<and>
        val3 (e h (Cpuid 0)) = ucast edx) \<and>
        val0 (e h (Cpuid 1)) = ucast (of_nat (cpu_signature family model stepping) :: u32))"

definition GenuineIntel :: "u32 \<times> u32 \<times> u32" where
  "GenuineIntel = (0x756e6547, 0x49656e69, 0x6c65746e)"

lemma ucast_up_down: "ucast (ucast x :: u64) = (x :: u32)"
  by (rule bit_word_eqI) (auto simp: bit_simps)

lemma intel_config_found:
  assumes "cpuid_shows e vendor f m st" and "f < 271" and "m < 256" and "st < 16"
    and "f = 6 \<or> 15 \<le> f"
  shows "\<exists>s'. get_uarch_config_for_intel_cpu b e s =
           Done (find_uarch (of_nat f) (of_nat m) (intel_uarch_configs b)) s'"
proof -
  let ?sig = "of_nat (cpu_signature f m st) :: u32"
  have "val0 (e h (Cpuid 1)) = ucast ?sig" for h using assms(1) by (simp add: cpuid_shows_def)
  moreover have "signature_family ?sig = of_nat f" "signature_model ?sig = of_nat m"
    using signature_fields [OF assms(2-5)] assms(2,3)
    by (simp_all only: word_unat_eq_iff unat_of_nat) simp_all
  ultimately show ?thesis
    by (simp add: get_uarch_config_for_intel_cpu_def run_simps ucast_up_down Let_def
        split: option.split)
qed

lemma get_uarch_config_outcome:
  assumes "cpuid_shows e vendor f m st" and "f < 271" and "m < 256" and "st < 16"
    and "f = 6 \<or> 15 \<le> f"
  shows "\<exists>u s'. get_uarch_config_for_cpu b e s = Done u s' \<and>
     (u \<noteq> None \<longleftrightarrow> vendor = GenuineIntel \<and> f = 6 \<and> m \<in> {0x4e, 0x5e, 0x8e, 0x9e, 0xa5, 0xa6}) \<and>
     (\<forall>c. u = Some c \<longrightarrow> length (uarch_perf_counters c) = PERF_EVENTS_COUNT b)"
proof -
  obtain ebx edx ecx where v: "vendor = (ebx, edx, ecx)" by (cases vendor)
  have r: "ucast (val1 (e (trace s) (Cpuid 0))) = ebx" "ucast (val2 (e (trace s) (Cpuid 0))) = ecx"
    "ucast (val3 (e (trace s) (Cpuid 0))) = edx"
    using assms(1) unfolding v cpuid_shows_def by (simp_all add: ucast_up_down)
  have fm: "(of_nat f :: u16) = 6 \<longleftrightarrow> f = 6" "unat (of_nat m :: u16) = m"
    using assms(2,3) by (auto simp: word_unat_eq_iff unat_of_nat)
  show ?thesis
  proof (cases "vendor = GenuineIntel")
    case True
    then obtain s' where "get_uarch_config_for_cpu b e s =
        Done (find_uarch (of_nat f) (of_nat m) (intel_uarch_configs b)) s'"
      using intel_config_found [OF assms, of b "emit e (Cpuid 0) s"] r
      by (auto simp: get_uarch_config_for_cpu_def run_simps Let_def v GenuineIntel_def)
    moreover have "(of_nat m :: u16) \<in> {0x4e, 0x5e, 0x8e, 0x9e, 0xa5, 0xa6} \<longleftrightarrow>
        m \<in> {0x4e, 0x5e, 0x8e, 0x9e, 0xa5, 0xa6}"
      using fm(2) by (simp add: word_unat_eq_iff)
    ultimately show ?thesis
      using True fm(1) find_uarch_skylake [of "of_nat f" "of_nat m" b] events_count find_uarch_mem
      by blast
  next
    case False
    then show ?thesis using r
      by (auto simp: get_uarch_config_for_cpu_def run_simps Let_def v GenuineIntel_def)
  qed
qed

text \<open>C27: the CPU lookup. For every vendor string and every signature whose family uses the extended
  model field, the program accepts the CPU exactly if it is Intel, family 6, and one of the six
  Skylake models; and what it returns has a performance event for every counter of the build. (An
  Alder Lake CPU, family 6, model 97 or 9a hexadecimal, is refused.)\<close>

theorem get_uarch_config_correct:
  assumes "cpuid_shows e vendor f m st" and "f < 271" and "m < 256" and "st < 16"
    and "f = 6 \<or> 15 \<le> f"
  shows "\<exists>u s'. get_uarch_config_for_cpu b e s = Done u s' \<and>
     (u \<noteq> None \<longleftrightarrow> vendor = GenuineIntel \<and> f = 6 \<and> m \<in> {0x4e, 0x5e, 0x8e, 0x9e, 0xa5, 0xa6}) \<and>
     (\<forall>c. u = Some c \<longrightarrow> length (uarch_perf_counters c) = PERF_EVENTS_COUNT b)"
  using assms by (rule get_uarch_config_outcome)

text \<open>A machine that shows one signature, for the concrete instances.\<close>

definition cpuid_env :: "nat \<Rightarrow> env" where
  "cpuid_env sig h c =
     (if c = Cpuid 0 then
        \<lparr>status = 0, val0 = 0, val1 = 0x756e6547, val2 = 0x6c65746e, val3 = 0x49656e69\<rparr>
      else \<lparr>status = 0, val0 = ucast (of_nat sig :: u32), val1 = 0, val2 = 0, val3 = 0\<rparr>)"

lemma cpuid_env_shows: "cpuid_shows (cpuid_env (cpu_signature f m st)) GenuineIntel f m st"
  by (simp add: cpuid_shows_def cpuid_env_def GenuineIntel_def)

theorem get_uarch_config_correct_witness:
  "(\<exists>u s'. get_uarch_config_for_cpu (makefile_build Mode64) (cpuid_env (cpu_signature 6 0x5e 3))
      \<lparr>trace = []\<rparr> = Done u s' \<and> u \<noteq> None) \<and>
   (\<exists>s'. get_uarch_config_for_cpu (makefile_build Mode64) (cpuid_env (cpu_signature 6 0x97 2))
      \<lparr>trace = []\<rparr> = Done None s')"
  using get_uarch_config_correct [OF cpuid_env_shows [of 6 "0x5e" 3], of "makefile_build Mode64" "\<lparr>trace = []\<rparr>"]
    get_uarch_config_correct [OF cpuid_env_shows [of 6 "0x97" 2], of "makefile_build Mode64" "\<lparr>trace = []\<rparr>"]
  by auto

end
