(* ===== verification/Runtime.thy ===== *)
theory Runtime
  imports Text_Output
begin

text \<open>
  The runtime the program brings along: the string routines (\<open>src/string.c\<close>) and the ways to stop
  (\<open>src/halt.c\<close>, \<open>src/stdlib.c\<close>, \<open>src/stack_protector.c\<close>). A pointer into a buffer is the list of the
  bytes that may be accessed from it on; \<open>None\<close> is an access beyond them. The routines that compare
  and measure are pure functions.
\<close>

section \<open>Stopping\<close>

text \<open>\<open>halt\<close> of \<open>src/halt.c\<close>, which says nothing, unlike the one of the execution loop.\<close>

definition halt :: "env \<Rightarrow> ('a, 'z world_scheme) prog" where
  "halt e = andthen (extu e Hang) (\<lambda>_. \<lambda>s. Halted s)"

definition abort :: "env \<Rightarrow> ('a, 'z world_scheme) prog" where
  "abort e = andthen (print e (wide (''abort() was called'' @ crlf))) (\<lambda>_. halt e)"

definition stack_chk_fail :: "env \<Rightarrow> ('a, 'z world_scheme) prog" where
  "stack_chk_fail e = andthen (print e (wide (''*** Stack smashing detected ***'' @ crlf))) (\<lambda>_.
     andthen (extu e Hang) (\<lambda>_. \<lambda>s. Halted s))"

section \<open>Memory\<close>

text \<open>Both are done by the firmware.\<close>

definition memcpy :: "env \<Rightarrow> u64 \<Rightarrow> u8 list \<Rightarrow> (u64, 'z world_scheme) prog" where
  "memcpy e dest data = andthen (extu e (CopyMem dest data)) (\<lambda>_. return dest)"

definition memset :: "env \<Rightarrow> u64 \<Rightarrow> u8 \<Rightarrow> u64 \<Rightarrow> (u64, 'z world_scheme) prog" where
  "memset e s c n = andthen (extu e (SetMem s n c)) (\<lambda>_. return s)"

text \<open>The loop of \<open>memcmp\<close>, which reads both bytes once more when it is over.\<close>

fun memcmp_loop :: "u8 list \<Rightarrow> u8 list \<Rightarrow> nat \<Rightarrow> int option" where
  "memcmp_loop (x # xs) (y # ys) (Suc n) =
     (if x = y then memcmp_loop xs ys n else Some (uint x - uint y))"
| "memcmp_loop (x # xs) (y # ys) 0 = Some (uint x - uint y)"
| "memcmp_loop _ [] n = None"
| "memcmp_loop [] _ n = None"

definition memcmp :: "u8 list \<Rightarrow> u8 list \<Rightarrow> nat \<Rightarrow> int option" where
  "memcmp s1 s2 n = (if n = 0 then Some 0 else memcmp_loop s1 s2 n)"

section \<open>Strings\<close>

text \<open>\<open>char\<close> is signed on this target.\<close>

fun strcmp :: "u8 list \<Rightarrow> u8 list \<Rightarrow> int option" where
  "strcmp (x # xs) (y # ys) =
     (if x \<noteq> 0 \<and> x = y then strcmp xs ys else Some (sint x - sint y))"
| "strcmp (x # xs) [] = None"
| "strcmp [] _ = None"

fun strlen_loop :: "u8 list \<Rightarrow> nat \<Rightarrow> nat option" where
  "strlen_loop [] len = None"
| "strlen_loop (c # s) len = (if c \<noteq> 0 then strlen_loop s (len + 1) else Some len)"

definition strlen :: "u8 list \<Rightarrow> nat option" where
  "strlen s = strlen_loop s 0"

text \<open>Writing one byte of a buffer.\<close>

definition put_byte :: "u8 list \<Rightarrow> nat \<Rightarrow> u8 \<Rightarrow> u8 list option" where
  "put_byte buf i c = (if i < length buf then Some (buf[i := c]) else None)"

text \<open>\<open>strncat\<close>: the search for the end of \<open>dst\<close>, the copying, the terminator. The \<open>for\<close> loop
  tests its count before it reads a character.\<close>

fun find_end :: "u8 list \<Rightarrow> nat \<Rightarrow> nat option" where
  "find_end [] cur = None"
| "find_end (c # s) cur = (if c \<noteq> 0 then find_end s (cur + 1) else Some cur)"

fun strncat_copy :: "u8 list \<Rightarrow> nat \<Rightarrow> u8 list \<Rightarrow> nat \<Rightarrow> (u8 list \<times> nat) option" where
  "strncat_copy dst cur src 0 = Some (dst, cur)"
| "strncat_copy dst cur [] (Suc n) = None"
| "strncat_copy dst cur (c # src) (Suc n) =
     (if c \<noteq> 0 then
        (case put_byte dst cur c of
           None \<Rightarrow> None
         | Some dst' \<Rightarrow> strncat_copy dst' (cur + 1) src n)
      else Some (dst, cur))"

definition strncat :: "u8 list \<Rightarrow> u8 list \<Rightarrow> nat \<Rightarrow> u8 list option" where
  "strncat dst src n =
     (case find_end dst 0 of
        None \<Rightarrow> None
      | Some cur \<Rightarrow>
          (case strncat_copy dst cur src n of
             None \<Rightarrow> None
           | Some (dst', cur') \<Rightarrow> put_byte dst' cur' 0))"

text \<open>\<open>strcat_s\<close>: both loops count \<open>dest_size\<close> down. \<open>dst\<close> and \<open>src\<close> may be NULL, which is \<open>None\<close>;
  the result is the value returned and what is left in \<open>dst\<close>.\<close>

fun strcat_skip :: "u8 list \<Rightarrow> nat \<Rightarrow> nat \<Rightarrow> (nat \<times> nat) option" where
  "strcat_skip dst cur 0 = Some (cur, 0)"
| "strcat_skip dst cur (Suc n) =
     (if cur < length dst then
        if dst ! cur \<noteq> 0 then strcat_skip dst (cur + 1) n else Some (cur, Suc n)
      else None)"

fun strcat_copy :: "u8 list \<Rightarrow> nat \<Rightarrow> nat \<Rightarrow> u8 list \<Rightarrow> (u8 list \<times> nat \<times> nat \<times> u8 list) option" where
  "strcat_copy dst cur 0 src = Some (dst, cur, 0, src)"
| "strcat_copy dst cur (Suc n) [] = None"
| "strcat_copy dst cur (Suc n) (c # src) =
     (if c \<noteq> 0 then
        (case put_byte dst cur c of
           None \<Rightarrow> None
         | Some dst' \<Rightarrow> strcat_copy dst' (cur + 1) n src)
      else Some (dst, cur, Suc n, c # src))"

text \<open>The end of the routine, once the characters that fit are copied.\<close>

definition strcat_finish ::
  "env \<Rightarrow> u8 list \<Rightarrow> nat \<Rightarrow> nat \<Rightarrow> u8 list \<Rightarrow> (int \<times> u8 list, 'z world_scheme) prog" where
  "strcat_finish e dst cur n src =
     (let terminate = (case put_byte dst cur 0 of None \<Rightarrow> crash | Some dst' \<Rightarrow> return (0, dst'))
      in if n \<noteq> 0 then terminate
         else case src of
             [] \<Rightarrow> crash
           | c # _ \<Rightarrow>
               if c \<noteq> 0 then
                 andthen (print e (wide (''strcat_s: BUFFER OVERFLOW PREVENTED!!!'' @ crlf))) (\<lambda>_.
                 case put_byte dst 0 0 of None \<Rightarrow> crash | Some dst' \<Rightarrow> return (1, dst'))
               else terminate)"

definition strcat_s ::
  "env \<Rightarrow> u8 list option \<Rightarrow> nat \<Rightarrow> u8 list option \<Rightarrow> (int \<times> u8 list, 'z world_scheme) prog" where
  "strcat_s e dst dest_size src =
     (case dst of
        None \<Rightarrow> andthen (print e (wide (''strcat_s: dst is NULL!!!'' @ crlf))) (\<lambda>_. halt e)
      | Some dst \<Rightarrow>
     (case src of
        None \<Rightarrow> andthen (printf e (''strcat_s: src is NULL!!!'' @ crlf) []) (\<lambda>_. halt e)
      | Some src \<Rightarrow>
     if dest_size = 0 then
       andthen (printf e (''strcat_s: dest_size == 0!!!'' @ crlf) []) (\<lambda>_. halt e)
     else
     (case strcat_skip dst 0 dest_size of
        None \<Rightarrow> crash
      | Some (cur, n) \<Rightarrow>
          if n = 0 then
            andthen (print e (wide (''strcat_s: BUFFER OVERFLOWED!!!'' @ crlf))) (\<lambda>_. halt e)
          else
          (case strcat_copy dst cur n src of
             None \<Rightarrow> crash
           | Some (dst', cur', n', src') \<Rightarrow> strcat_finish e dst' cur' n' src'))))"

section \<open>Properties\<close>

text \<open>The buffer holds the string \<open>str\<close>, its NUL, and \<open>rest\<close>.\<close>

definition c_string :: "u8 list \<Rightarrow> u8 list \<Rightarrow> u8 list \<Rightarrow> bool" where
  "c_string buf str rest \<longleftrightarrow> buf = str @ 0 # rest \<and> 0 \<notin> set str"

lemma memcmp_loop_equal:
  "length p = n \<Longrightarrow> memcmp_loop (p @ xs) (p @ ys) n =
     (case (xs, ys) of (x # _, y # _) \<Rightarrow> Some (uint x - uint y) | _ \<Rightarrow> None)"
proof (induction p arbitrary: n)
  case Nil
  then show ?case by (cases xs; cases ys) simp_all
next
  case (Cons a p)
  then show ?case by (cases n) simp_all
qed

lemma memcmp_loop_differ:
  "length p < n \<Longrightarrow> x \<noteq> y \<Longrightarrow> memcmp_loop (p @ x # xs) (p @ y # ys) n = Some (uint x - uint y)"
proof (induction p arbitrary: n)
  case Nil
  then show ?case by (cases n) simp_all
next
  case (Cons a p)
  then show ?case by (cases n) simp_all
qed

text \<open>C40: \<open>memcmp\<close> is right on blocks that differ: it returns the difference of the first bytes that
  do. On equal blocks it is not: it returns the difference of the bytes after them, and reads those
  although they are not part of the blocks.\<close>

theorem memcmp_cases:
  assumes "0 < n"
  shows "(length p < n \<and> x \<noteq> y \<longrightarrow> memcmp (p @ x # xs) (p @ y # ys) n = Some (uint x - uint y)) \<and>
    (length p = n \<longrightarrow> memcmp (p @ x # xs) (p @ y # ys) n = Some (uint x - uint y) \<and>
       memcmp p p n = None)"
  using assms memcmp_loop_differ [of p n x y] memcmp_loop_equal [of p n "x # xs" "y # ys"]
    memcmp_loop_equal [of p n "[]" "[]"]
  by (simp add: memcmp_def)

theorem memcmp_cases_witness:
  "memcmp [1, 2, 3] [1, 2, 9] 2 = Some (- 6) \<and> memcmp [1, 2] [1, 2] 2 = None"
  using memcmp_cases [of 2 "[1, 2]" 3 9 "[]" "[]"] by simp

lemma strlen_loop_string: "0 \<notin> set str \<Longrightarrow> strlen_loop (str @ 0 # rest) len = Some (len + length str)"
  by (induction str arbitrary: len) auto

lemma strcmp_strings:
  "0 \<notin> set a \<Longrightarrow> 0 \<notin> set b \<Longrightarrow>
   \<exists>r. strcmp (a @ 0 # s) (b @ 0 # t) = Some r \<and> (r = 0 \<longleftrightarrow> a = b)"
proof (induction a arbitrary: b)
  case Nil
  then show ?case by (cases b) (auto simp: signed_eq_0_iff)
next
  case (Cons x a)
  show ?case
  proof (cases b)
    case Nil
    then show ?thesis using Cons.prems by (auto simp: signed_eq_0_iff)
  next
    case (Cons y b')
    then show ?thesis using Cons.IH [of b'] Cons.prems by (auto dest: signed_word_eqI)
  qed
qed

text \<open>On C strings, whatever follows them in memory, \<open>strlen\<close> is the length, and \<open>strcmp\<close> reads
  nothing past the terminators and returns \<open>0\<close> exactly for equal strings.\<close>

theorem strings_compared:
  assumes "c_string x a s" and "c_string y b t"
  shows "strlen x = Some (length a) \<and> (\<exists>r. strcmp x y = Some r \<and> (r = 0 \<longleftrightarrow> a = b))"
  using assms strcmp_strings [of a b s t] strlen_loop_string [of a s 0]
  by (simp add: c_string_def strlen_def)

theorem strings_compared_witness:
  "strlen [0x6e, 0x6f, 0x70, 0] = Some 3 \<and>
   (\<exists>r. strcmp [0x6e, 0x6f, 0x70, 0] [0x75, 0x64, 0, 0] = Some r \<and> (r = 0 \<longleftrightarrow> False))"
proof -
  have "c_string [0x6e, 0x6f, 0x70, 0] [0x6e, 0x6f, 0x70] []" "c_string [0x75, 0x64, 0, 0] [0x75, 0x64] [0]"
    by (simp_all add: c_string_def)
  from strings_compared [OF this] show ?thesis by simp
qed

lemma put_byte_mid: "put_byte (d @ y # r) (length d) c = Some (d @ c # r)"
  by (simp add: put_byte_def list_update_append)

lemma put_byte_end: "put_byte d (length d) c = None"
  by (simp add: put_byte_def)

lemma strcat_skip_string:
  "0 \<notin> set d \<Longrightarrow> length d < n \<Longrightarrow> strcat_skip (p @ d @ 0 # r) (length p) n =
     Some (length p + length d, n - length d)"
proof (induction d arbitrary: p n)
  case Nil
  then show ?case by (cases n) simp_all
next
  case (Cons x d)
  then obtain k where k: "n = Suc k" by (cases n) simp_all
  have "strcat_skip ((p @ [x]) @ d @ 0 # r) (length (p @ [x])) k =
      Some (length (p @ [x]) + length d, k - length d)"
    using Cons k by (intro Cons.IH) simp_all
  then show ?case using Cons.prems k by (simp add: nth_append)
qed

lemma strcat_skip_full:
  "0 \<notin> set d \<Longrightarrow> strcat_skip (p @ d) (length p) (length d) = Some (length p + length d, 0)"
proof (induction d arbitrary: p)
  case Nil
  then show ?case by simp
next
  case (Cons x d)
  have "strcat_skip ((p @ [x]) @ d) (length (p @ [x])) (length d) = Some (length (p @ [x]) + length d, 0)"
    using Cons by (intro Cons.IH) simp
  then show ?case using Cons.prems by (simp add: nth_append)
qed

text \<open>The copying loop fills the rest of the buffer, until the string or the space is at its end.\<close>

lemma strcat_copy_fits:
  "0 \<notin> set x \<Longrightarrow> length x \<le> length r \<Longrightarrow> n = length r \<Longrightarrow> length x < n \<Longrightarrow>
   strcat_copy (d @ r) (length d) n (x @ 0 # y) =
     Some (d @ x @ drop (length x) r, length d + length x, n - length x, 0 # y)"
proof (induction x arbitrary: d r n)
  case Nil
  obtain k where "n = Suc k" using Nil.prems(4) by (cases n) simp_all
  then show ?case by simp
next
  case (Cons c x)
  obtain z r' where r: "r = z # r'" using Cons.prems by (cases r) simp_all
  have "strcat_copy ((d @ [c]) @ r') (length (d @ [c])) (length r') (x @ 0 # y) =
     Some ((d @ [c]) @ x @ drop (length x) r', length (d @ [c]) + length x, length r' - length x, 0 # y)"
    using Cons.prems r by (intro Cons.IH) simp_all
  then show ?case using Cons.prems r by (simp add: put_byte_mid)
qed

lemma strcat_copy_full:
  "0 \<notin> set x \<Longrightarrow> length r = length x \<Longrightarrow>
   strcat_copy (d @ r) (length d) (length r) (x @ y) = Some (d @ x, length d + length x, 0, y)"
proof (induction x arbitrary: d r)
  case Nil
  then show ?case by simp
next
  case (Cons c x)
  obtain z r' where r: "r = z # r'" using Cons.prems by (cases r) simp_all
  have "strcat_copy ((d @ [c]) @ r') (length (d @ [c])) (length r') (x @ y) =
     Some ((d @ [c]) @ x, length (d @ [c]) + length x, 0, y)"
    using Cons.prems r by (intro Cons.IH) simp_all
  then show ?case using Cons.prems r by (simp add: put_byte_mid)
qed

text \<open>The cases, by the length of the string and of the room after the terminator.\<close>

lemma strcat_s_skip: "0 \<notin> set d \<Longrightarrow>
  strcat_skip (d @ 0 # r) 0 (length d + 1 + length r) = Some (length d, Suc (length r))"
  using strcat_skip_string [of d "length d + 1 + length r" "[]" r] by simp

lemma strcat_s_fits:
  assumes "c_string src x y" and "0 \<notin> set d" and "length x \<le> length r"
  shows "strcat_s e (Some (d @ 0 # r)) (length d + 1 + length r) (Some src) s =
    Done (0, d @ x @ 0 # drop (length x) r) s"
proof -
  let ?r = "0 # r"
  have src: "src = x @ 0 # y" "0 \<notin> set x" using assms(1) by (simp_all add: c_string_def)
  have copy: "strcat_copy (d @ ?r) (length d) (Suc (length r)) (x @ 0 # y) =
      Some (d @ x @ drop (length x) ?r, length d + length x, Suc (length r) - length x, 0 # y)"
    using src(2) assms(3) by (intro strcat_copy_fits) simp_all
  have "drop (length x) ?r = ?r ! length x # drop (Suc (length x)) ?r"
    using assms(3) by (intro Cons_nth_drop_Suc [symmetric]) simp
  then have "put_byte (d @ x @ drop (length x) ?r) (length d + length x) 0 =
      Some (d @ x @ 0 # drop (Suc (length x)) ?r)"
    using put_byte_mid [of "d @ x" "?r ! length x" "drop (Suc (length x)) ?r" 0] by simp
  then show ?thesis using strcat_s_skip [OF assms(2), of r] copy assms(3) src(1)
    by (simp add: strcat_s_def strcat_finish_def run_simps Let_def)
qed

lemma strcat_s_past_end:
  assumes "c_string src x y" and "0 \<notin> set d" and "length x = length r + 1"
  shows "strcat_s e (Some (d @ 0 # r)) (length d + 1 + length r) (Some src) s = Crash s"
proof -
  have src: "src = x @ 0 # y" "0 \<notin> set x" using assms(1) by (simp_all add: c_string_def)
  have "strcat_copy (d @ 0 # r) (length d) (length (0 # r)) (x @ 0 # y) =
      Some (d @ x, length d + length x, 0, 0 # y)"
    using src(2) assms(3) by (intro strcat_copy_full) simp_all
  then show ?thesis using strcat_s_skip [OF assms(2), of r] src(1) put_byte_end [of "d @ x" 0]
    by (simp add: strcat_s_def strcat_finish_def run_simps Let_def)
qed

lemma strcat_s_too_long:
  assumes "c_string src x y" and "0 \<notin> set d" and l: "length x > length r + 1"
  shows "\<exists>dst s'. strcat_s e (Some (d @ 0 # r)) (length d + 1 + length r) (Some src) s = Done (1, dst) s' \<and>
    dst ! 0 = 0 \<and> length dst = length d + 1 + length r"
proof -
  have src: "src = x @ 0 # y" "0 \<notin> set x" using assms(1) by (simp_all add: c_string_def)
  let ?k = "length r + 1"
  have x: "x = take ?k x @ x ! ?k # drop (Suc ?k) x" using l by (simp add: Cons_nth_drop_Suc)
  have nz: "0 \<notin> set (take ?k x)" "x ! ?k \<noteq> 0" using src(2) l by (auto dest: in_set_takeD simp: in_set_conv_nth)
  have "strcat_copy (d @ 0 # r) (length d) (length (0 # r)) (take ?k x @ x ! ?k # drop (Suc ?k) x @ 0 # y) =
      Some (d @ take ?k x, length d + length (take ?k x), 0, x ! ?k # drop (Suc ?k) x @ 0 # y)"
    using nz(1) l by (intro strcat_copy_full) simp_all
  moreover have "src = take ?k x @ x ! ?k # drop (Suc ?k) x @ 0 # y" using src(1) x by simp
  ultimately show ?thesis using strcat_s_skip [OF assms(2), of r] nz(2) l
    by (auto simp: strcat_s_def strcat_finish_def run_simps Let_def print_def put_byte_def)
qed

lemma strcat_s_unterminated:
  assumes "0 \<notin> set d" and "d \<noteq> []"
  shows "\<exists>s'. strcat_s e (Some d) (length d) (Some src) s = Halted s'"
  using strcat_skip_full [of d "[]"] assms by (simp add: strcat_s_def halt_def run_simps print_def)

text \<open>C39: every outcome of \<open>strcat_s\<close> on a buffer whose size it is told: a buffer without a terminator
  stops the program; a string that fits with its terminator is appended and nothing else changes;
  one that is too long by a character or more is reported with \<open>1\<close>, \<open>dst\<close> being empty. One that fits
  without its terminator is written past the end: undefined behaviour.\<close>

theorem strcat_s_outcomes:
  assumes "c_string src x y" and "0 \<notin> set d"
  shows "(d \<noteq> [] \<longrightarrow> (\<exists>s'. strcat_s e (Some d) (length d) (Some src) s = Halted s')) \<and>
    (length x \<le> length r \<longrightarrow> strcat_s e (Some (d @ 0 # r)) (length d + 1 + length r) (Some src) s =
       Done (0, d @ x @ 0 # drop (length x) r) s) \<and>
    (length x = length r + 1 \<longrightarrow>
       strcat_s e (Some (d @ 0 # r)) (length d + 1 + length r) (Some src) s = Crash s) \<and>
    (length x > length r + 1 \<longrightarrow>
       (\<exists>dst s'. strcat_s e (Some (d @ 0 # r)) (length d + 1 + length r) (Some src) s = Done (1, dst) s' \<and>
          dst ! 0 = 0 \<and> length dst = length d + 1 + length r))"
  by (intro conjI impI; rule strcat_s_unterminated [OF assms(2)] strcat_s_fits [OF assms]
      strcat_s_past_end [OF assms] strcat_s_too_long [OF assms]; assumption)

theorem strcat_s_outcomes_witness:
  "strcat_s sample_console (Some [0x61, 0, 0, 0]) 4 (Some [0x62, 0]) \<lparr>trace = []\<rparr> =
     Done (0, [0x61, 0x62, 0, 0]) \<lparr>trace = []\<rparr> \<and>
   strcat_s sample_console (Some [0x61, 0]) 2 (Some [0x62, 0]) \<lparr>trace = []\<rparr> = Crash \<lparr>trace = []\<rparr>"
proof -
  have s: "c_string [0x62, 0] [0x62] []" "0 \<notin> set [0x61 :: u8]" by (simp_all add: c_string_def)
  from strcat_s_outcomes [OF s, of sample_console "\<lparr>trace = []\<rparr>" "[0, 0]"]
    strcat_s_outcomes [OF s, of sample_console "\<lparr>trace = []\<rparr>" "[]"]
  show ?thesis by (simp add: numeral_eq_Suc)
qed

end
