(* ===== verification/Exec_Loop.thy ===== *)
theory Exec_Loop
  imports Disasm Uarch_Config Search Runtime
begin

text \<open>
  The execution loop (\<open>src/instruction_execution_loop.c\<close>): running an instruction in user mode with
  the performance counters on, and handling the exception that ends it. Every path through
  \<open>handle_exception\<close> either leaves for user mode again or halts.
\<close>

section \<open>State\<close>

record stats =
  unique_instructions_executed :: u64
  instructions_saved :: u64
  kernel_exceptions :: u64
  kernel_page_faults :: u64
  undocumented_behind_ud :: u64
  undocumented_not_ud :: u64
  vex_malformed_but_accepted :: u64
  nops :: u64
  machine_checks :: u64
  cpu_xed_length_mismatches :: u64

definition no_stats :: stats where
  "no_stats = \<lparr>unique_instructions_executed = 0, instructions_saved = 0, kernel_exceptions = 0,
     kernel_page_faults = 0, undocumented_behind_ud = 0, undocumented_not_ud = 0,
     vex_malformed_but_accepted = 0, nops = 0, machine_checks = 0, cpu_xed_length_mismatches = 0\<rparr>"

text \<open>The file's variables. Lengths and the index are kept as natural numbers: no path decrements
  them below \<open>0\<close>. \<open>xsave_state_area_ptr\<close> is set in \<open>main.c\<close> and read by \<open>enter_user\<close>.\<close>

record loop_state = disasm_world +
  perf_counters :: "perf_counter_info list option"
  perf_global_ctrl_enable_all :: u64
  user_code_page_rw :: u64
  user_code_page_for_exec :: u64
  xsave_state_area_ptr :: u64
  instruction_bytes :: "u8 list"
  cur_instruction_length :: nat
  cur_byte_index :: nat
  last_instruction_length :: nat
  counts :: stats
  malformed_instruction_expect_ud :: bool
  measuring_ud :: bool
  ud_perf_counters_values :: "u64 list"
  measuring_nop :: bool
  nop_perf_counters_values :: "u64 list"
  last_perf_counters_values :: "u64 list"
  flush_required :: bool

definition halt_cpu :: "env \<Rightarrow> ('a, 'z world_scheme) prog" where
  "halt_cpu e = andthen (print e (wide (''Halting CPU'' @ crlf))) (\<lambda>_.
     andthen (extu e Hang) (\<lambda>_. \<lambda>s. Halted s))"

section \<open>Setting up the counters\<close>

definition MSR_IA32_PMC :: "nat \<Rightarrow> u32" where "MSR_IA32_PMC i = 0xc1 + of_nat i"
definition MSR_IA32_PERFEVTSEL :: "nat \<Rightarrow> u32" where "MSR_IA32_PERFEVTSEL i = 0x186 + of_nat i"
definition PERFEVTSEL_ENABLE :: u64 where "PERFEVTSEL_ENABLE = push_bit 22 1"
definition PERFEVTSEL_USER :: u64 where "PERFEVTSEL_USER = push_bit 16 1"
definition MSR_IA32_FIXED_CTR_CTRL :: u32 where "MSR_IA32_FIXED_CTR_CTRL = 0x38d"
definition MSR_IA32_PERF_GLOBAL_CTRL :: u32 where "MSR_IA32_PERF_GLOBAL_CTRL = 0x38f"

text \<open>Indexing the table of counters: NULL, or an index outside the array, is undefined.\<close>

definition counter_info ::
  "nat \<Rightarrow> (perf_counter_info \<Rightarrow> ('a, 'z loop_state_scheme) prog) \<Rightarrow> ('a, 'z loop_state_scheme) prog" where
  "counter_info i f = andthen (fetch perf_counters) (\<lambda>table.
     case table of
       None \<Rightarrow> crash
     | Some infos \<Rightarrow> if i < length infos then f (infos ! i) else crash)"

definition dump_bruteforce_config :: "build \<Rightarrow> env \<Rightarrow> (unit, 'z loop_state_scheme) prog" where
  "dump_bruteforce_config b e =
     andthen (fetch perf_counters) (\<lambda>table.
     andthen (if table \<noteq> None then
         for_each [0..<PERF_EVENTS_COUNT b] (\<lambda>i. counter_info i (\<lambda>info.
           printf e (''%s PMC UMask:EventCode = 0x%lx'' @ crlf)
             [VStr (pc_name info), VInt (ucast (event_selector info))]))
       else print e (wide (''Performance counters selectors are not set yet!'' @ crlf))) (\<lambda>_.
     print e (wide ((case cpu_mode b of
         Mode64 \<Rightarrow> ''Bruteforce in 64-bit userspace''
       | Mode32 \<Rightarrow> ''Bruteforce in 32-bit userspace''
       | Mode16 \<Rightarrow> ''Bruteforce in 16-bit userspace'') @ crlf))))"

text \<open>The body of \<open>init_perf_counters\<close> once the selectors are known.\<close>

definition start_counters :: "build \<Rightarrow> env \<Rightarrow> (u64, 'z loop_state_scheme) prog" where
  "start_counters b e =
     andthen (ext e (Cpuid 0xa)) (\<lambda>r.
     let counters_available = unat (ucast (drop_bit 8 (val0 r) AND 0xff) :: u8) in
     andthen (printf e (''General-purpose performance counters available: 0x%x'' @ crlf)
                [VInt (of_nat counters_available)]) (\<lambda>_.
     if PERF_EVENTS_COUNT b > counters_available then
       andthen (printf e (''Not enough performance counters! Events to count: 0x%x > 0x%x!'' @ crlf)
                  [VInt (of_nat (PERF_EVENTS_COUNT b)), VInt (of_nat counters_available)]) (\<lambda>_.
       andthen (print e (wide (''Try to disable hyper-threading in the firmware settings.'' @ crlf @
                  ''If that does not help, reduce the number of events to count.'' @ crlf))) (\<lambda>_.
       return EFI_UNSUPPORTED))
     else
     andthen (wrmsr e MSR_IA32_FIXED_CTR_CTRL 0) (\<lambda>_.
     andthen (wrmsr e MSR_IA32_PERF_GLOBAL_CTRL 0) (\<lambda>_.
     andthen (for_each [0..<PERF_EVENTS_COUNT b] (\<lambda>i.
       andthen (modify (\<lambda>s. s\<lparr>perf_global_ctrl_enable_all :=
           perf_global_ctrl_enable_all s OR push_bit i 1\<rparr>)) (\<lambda>_.
       counter_info i (\<lambda>info. wrmsr e (MSR_IA32_PERFEVTSEL i)
         (PERFEVTSEL_ENABLE OR PERFEVTSEL_USER OR ucast (event_selector info)))))) (\<lambda>_.
     return EFI_SUCCESS)))))"

definition init_perf_counters ::
  "build \<Rightarrow> env \<Rightarrow> perf_counter_info list option \<Rightarrow> (u64, 'z loop_state_scheme) prog" where
  "init_perf_counters b e this_cpu_perf_counters =
     andthen (modify (\<lambda>s. s\<lparr>perf_counters := this_cpu_perf_counters\<rparr>)) (\<lambda>_.
     if this_cpu_perf_counters = None then
       andthen (print e (wide (''Could not get performance counters event selectors for this CPU'' @ crlf)))
         (\<lambda>_. halt_cpu e)
     else start_counters b e)"

section \<open>Running an instruction\<close>

text \<open>\<open>enter_user\<close> (\<open>src/enter_user.S\<close>): the extended state is reset, the fifteen other registers are
  cleared, and \<open>iretq\<close> starts the instruction with the trap flag set.\<close>

definition enter_user :: "env \<Rightarrow> u64 \<Rightarrow> u64 \<Rightarrow> ('a, 'z loop_state_scheme) prog" where
  "enter_user e rip rsp =
     andthen (fetch xsave_state_area_ptr) (\<lambda>area.
     andthen (extu e (Xrstor area)) (\<lambda>_.
     andthen (extu e (Iretq
         \<lparr>fr_rip = rip, fr_cs = 0x1b, fr_rflags = push_bit 8 1 OR 2, fr_rsp = rsp, fr_ss = 0x23\<rparr>
         (replicate 15 0))) (\<lambda>_. \<lambda>s. User s)))"

definition execute_instruction ::
  "build \<Rightarrow> env \<Rightarrow> u8 list \<Rightarrow> nat \<Rightarrow> ('a, 'z loop_state_scheme) prog" where
  "execute_instruction b e instruction size' =
     andthen (wrmsr e MSR_IA32_PERF_GLOBAL_CTRL 0) (\<lambda>_.
     andthen (for_each [0..<PERF_EVENTS_COUNT b] (\<lambda>i. wrmsr e (MSR_IA32_PMC i) 0)) (\<lambda>_.
     andthen (fetch perf_global_ctrl_enable_all) (\<lambda>enable_all.
     andthen (wrmsr e MSR_IA32_PERF_GLOBAL_CTRL enable_all) (\<lambda>_.
     let instruction_start_offset = 0x1000 - of_nat size' in
     andthen (fetch user_code_page_rw) (\<lambda>page_rw.
     let user_code_start = page_rw + instruction_start_offset in
     andthen (memcpy e user_code_start (take size' instruction)) (\<lambda>_.
     andthen (extu e (Clflush user_code_start)) (\<lambda>_.
     andthen (fetch user_code_page_for_exec) (\<lambda>page_for_exec.
     enter_user e (page_for_exec + instruction_start_offset) 0))))))))"

definition execute_current_instruction :: "build \<Rightarrow> env \<Rightarrow> ('a, 'z loop_state_scheme) prog" where
  "execute_current_instruction b e =
     andthen (fetch instruction_bytes) (\<lambda>bytes.
     andthen (fetch cur_instruction_length) (\<lambda>len.
     execute_instruction b e bytes len))"

definition increment_instruction_length_and_retry_exec ::
  "build \<Rightarrow> env \<Rightarrow> (unit, 'z loop_state_scheme) prog" where
  "increment_instruction_length_and_retry_exec b e =
     andthen (fetch cur_instruction_length) (\<lambda>len.
     andthen (fetch instruction_bytes) (\<lambda>bytes.
     if len \<ge> length bytes then return ()
     else andthen (modify (\<lambda>s. s\<lparr>cur_instruction_length := cur_instruction_length s + 1\<rparr>)) (\<lambda>_.
       execute_current_instruction b e)))"

section \<open>Reports\<close>

definition EXCEPTION_DEBUG :: u64 where "EXCEPTION_DEBUG = 1"
definition EXCEPTION_INVALID_OPCODE :: u64 where "EXCEPTION_INVALID_OPCODE = 6"
definition EXCEPTION_PAGE_FAULT :: u64 where "EXCEPTION_PAGE_FAULT = 14"
definition EXCEPTION_MACHINE_CHECK :: u64 where "EXCEPTION_MACHINE_CHECK = 18"
definition PF_USER :: u64 where "PF_USER = push_bit 2 1"
definition PF_INSTRUCTION_FETCH :: u64 where "PF_INSTRUCTION_FETCH = push_bit 4 1"

text \<open>\<open>None\<close> is the table's NULL.\<close>

definition exception_names :: "string option list" where
  "exception_names =
     [Some ''#DE'', Some ''#DB'', Some ''NMI'', Some ''#BP'',
      Some ''#OF'', Some ''#BR'', Some ''#UD'', Some ''#NM'',
      Some ''#DF'', None,         Some ''#TS'', Some ''#NP'',
      Some ''#SS'', Some ''#GP'', Some ''#PF'', None,
      Some ''#MF'', Some ''#AC'', Some ''#MC'', Some ''#XM'',
      Some ''#VE'', Some ''#CP'']"

definition exception_name :: "u64 \<Rightarrow> string option" where
  "exception_name n =
     (if unat n \<ge> length exception_names then None else exception_names ! unat n)"

definition print_counters :: "build \<Rightarrow> env \<Rightarrow> u64 list \<Rightarrow> (unit, 'z loop_state_scheme) prog" where
  "print_counters b e values =
     for_each [0..<PERF_EVENTS_COUNT b] (\<lambda>i. counter_info i (\<lambda>info.
       printf e (''%s: 0x%lx'' @ crlf) [VStr (pc_name info), VInt (values ! i)]))"

definition dump_stats ::
  "build \<Rightarrow> env \<Rightarrow> exception_context \<Rightarrow> u8 list \<Rightarrow> nat \<Rightarrow> bool \<Rightarrow> u64 \<Rightarrow> u64 list \<Rightarrow> u64 \<Rightarrow>
   (unit, 'z loop_state_scheme) prog" where
  "dump_stats b e ctx bytes len extra_info_present extra_info values xed_length =
     andthen (fetch counts) (\<lambda>n.
     andthen (printf e (''Unique instructions executed: 0x%lx, saved: 0x%lx'' @ crlf)
       [VInt (unique_instructions_executed n), VInt (instructions_saved n)]) (\<lambda>_.
     andthen (get_save_file_position b e) (\<lambda>position.
     in_order
      [printf e (''Current save file size: 0x%lx bytes'' @ crlf) [VInt position],
       printf e (''Kernel: page faults: 0x%lx, exceptions: 0x%lx'' @ crlf)
         [VInt (kernel_page_faults n), VInt (kernel_exceptions n)],
       printf e (''Undocumented instructions: hidden behind #UD: 0x%lx, not hidden: 0x%lx'' @ crlf)
         [VInt (undocumented_behind_ud n), VInt (undocumented_not_ud n)],
       (if count_nops b then
          printf e (''VEX malformed but accepted: 0x%lx, NOPs: 0x%lx'' @ crlf)
            [VInt (vex_malformed_but_accepted n), VInt (nops n)]
        else printf e (''VEX malformed but accepted: 0x%lx'' @ crlf)
            [VInt (vex_malformed_but_accepted n)]),
       printf e (''Machine checks: 0x%lx, Intel XED vs CPU decoder length mismatches: 0x%lx'' @ crlf)
         [VInt (machine_checks n), VInt (cpu_xed_length_mismatches n)],
       print e (wide (''Current instruction info:'' @ crlf)),
       (case exception_name (exception_number ctx) of
          None \<Rightarrow> printf e ''#%lx'' [VInt (exception_number ctx)]
        | Some name \<Rightarrow> print e (wide name)),
       only_if (has_error_code ctx) (printf e ''(0x%lx)'' [VInt (error_code ctx)]),
       print e (wide '' -''),
       for_each [0..<len] (\<lambda>i. printf e '' %hx'' [VInt (ucast (bytes ! i))]),
       printf e '' (Intel XED length: 0x%lx'' [VInt xed_length],
       only_if extra_info_present (printf e '', extra info: 0x%lx'' [VInt extra_info]),
       print e (wide ('')'' @ crlf)),
       print e (wide (''Performance counters values:'' @ crlf)),
       print_counters b e values])))"

section \<open>Measuring UD2 and NOP\<close>

definition execute_ud :: "build \<Rightarrow> env \<Rightarrow> ('a, 'z loop_state_scheme) prog" where
  "execute_ud b e = execute_instruction b e [0x0f, 0x0b] 2"

definition execute_nop :: "build \<Rightarrow> env \<Rightarrow> ('a, 'z loop_state_scheme) prog" where
  "execute_nop b e = execute_instruction b e [0x90] 1"

text \<open>The body both measurements share for an exception they do not expect.\<close>

definition unexpected_exception ::
  "build \<Rightarrow> env \<Rightarrow> exception_context \<Rightarrow> string \<Rightarrow> ('a, 'z loop_state_scheme) prog" where
  "unexpected_exception b e ctx what =
     (let frame = frame_of ctx in
      andthen (printf e (''Unexpected exception %lx while measuring performance counters values for '' @
                 what @ crlf) [VInt (exception_number ctx)]) (\<lambda>_.
      andthen (only_if (has_error_code ctx)
                 (printf e (''Error code: %lx'' @ crlf) [VInt (error_code ctx)])) (\<lambda>_.
      andthen (printf e (''CS:RIP = %lx:%lx RFLAGS=%lx'' @ crlf)
                 [VInt (fr_cs frame), VInt (fr_rip frame), VInt (fr_rflags frame)]) (\<lambda>_.
      andthen (printf e (''SS:RSP = %lx:%lx'' @ crlf) [VInt (fr_ss frame), VInt (fr_rsp frame)]) (\<lambda>_.
      andthen (close_save_file b e) (\<lambda>_. halt_cpu e))))))"

text \<open>The loop that compares with the previous values and replaces them.\<close>

definition restart_required :: "build \<Rightarrow> u64 list \<Rightarrow> u64 list \<Rightarrow> bool" where
  "restart_required b cur previous \<longleftrightarrow> (\<exists>i\<in>set [0..<PERF_EVENTS_COUNT b]. cur ! i \<noteq> previous ! i)"

text \<open>The end of a measurement: the values are shown and written at the head of the file.\<close>

definition save_reference_values ::
  "build \<Rightarrow> env \<Rightarrow> string \<Rightarrow> u64 list \<Rightarrow> (unit, 'z loop_state_scheme) prog" where
  "save_reference_values b e what values =
     andthen (print e (wide (what @ '' performance counters values:'' @ crlf))) (\<lambda>_.
     andthen (print_counters b e values) (\<lambda>_.
     andthen (save_uint64_array e values) (\<lambda>st.
     andthen (print e (wide crlf)) (\<lambda>_.
     if st \<noteq> EFI_SUCCESS then
       andthen (printf e (''Could not save '' @ what @ '' performance counters values, status = 0x%lx'' @ crlf)
                  [VInt st]) (\<lambda>_.
       andthen (print e (wide (''Closing save file'' @ crlf))) (\<lambda>_.
       andthen (close_save_file b e) (\<lambda>_. halt_cpu e)))
     else return ()))))"

definition check_ud2_measurements ::
  "build \<Rightarrow> env \<Rightarrow> exception_context \<Rightarrow> u64 list \<Rightarrow> (unit, 'z loop_state_scheme) prog" where
  "check_ud2_measurements b e ctx cur =
     (if exception_number ctx \<noteq> EXCEPTION_INVALID_OPCODE then unexpected_exception b e ctx ''UD2''
      else
      andthen (fetch ud_perf_counters_values) (\<lambda>previous.
      andthen (modify (\<lambda>s. s\<lparr>ud_perf_counters_values := cur\<rparr>)) (\<lambda>_.
      if restart_required b cur previous then execute_ud b e
      else andthen (modify (\<lambda>s. s\<lparr>measuring_ud := False\<rparr>)) (\<lambda>_.
        save_reference_values b e ''UD2'' cur))))"

definition check_nop_measurements ::
  "build \<Rightarrow> env \<Rightarrow> exception_context \<Rightarrow> u64 list \<Rightarrow> (unit, 'z loop_state_scheme) prog" where
  "check_nop_measurements b e ctx cur =
     (if exception_number ctx \<noteq> EXCEPTION_DEBUG then unexpected_exception b e ctx ''NOP''
      else if cur ! INST_RETIRED_NOP b \<noteq> 1 then
        andthen (printf e (''Unexpected count of NOPs retired: expected: 1, got: 0x%lx'' @ crlf)
                   [VInt (cur ! INST_RETIRED_NOP b)]) (\<lambda>_.
        andthen (close_save_file b e) (\<lambda>_. halt_cpu e))
      else
      andthen (fetch nop_perf_counters_values) (\<lambda>previous.
      andthen (modify (\<lambda>s. s\<lparr>nop_perf_counters_values := cur\<rparr>)) (\<lambda>_.
      if restart_required b cur previous then execute_nop b e
      else andthen (modify (\<lambda>s. s\<lparr>measuring_nop := False\<rparr>)) (\<lambda>_.
        save_reference_values b e ''NOP'' cur))))"

section \<open>Judging the last instruction\<close>

definition restart_on_unstable_counters_values ::
  "build \<Rightarrow> env \<Rightarrow> u64 list \<Rightarrow> (unit, 'z loop_state_scheme) prog" where
  "restart_on_unstable_counters_values b e cur =
     andthen (fetch last_perf_counters_values) (\<lambda>previous.
     andthen (modify (\<lambda>s. s\<lparr>last_perf_counters_values := cur\<rparr>)) (\<lambda>_.
     if restart_required b cur previous then execute_current_instruction b e
     else modify (\<lambda>s. s\<lparr>last_perf_counters_values := replicate (PERF_EVENTS_COUNT b) 0\<rparr>)))"

definition perf_counters_values_match :: "build \<Rightarrow> u64 list \<Rightarrow> u64 list \<Rightarrow> bool" where
  "perf_counters_values_match b cur reference \<longleftrightarrow>
     (\<forall>i\<in>set [0..<PERF_EVENTS_COUNT b]. cur ! i = reference ! i)"

text \<open>The report of an exception of the program itself, with the bytes at its instruction.\<close>

definition report_kernel_exception :: "env \<Rightarrow> iretq_frame \<Rightarrow> (unit, 'z world_scheme) prog" where
  "report_kernel_exception e frame =
     andthen (printf e (''Kernel Exception! CS:RIP=%lx:%lx SS:RSP=%lx:%lx RFLAGS=%lx'' @ crlf)
       [VInt (fr_cs frame), VInt (fr_rip frame), VInt (fr_ss frame), VInt (fr_rsp frame),
        VInt (fr_rflags frame)]) (\<lambda>_.
     andthen (print e (wide ''Instruction bytes:'')) (\<lambda>_.
     andthen (for_each [0..<0x40] (\<lambda>i.
         andthen (ext e (ReadMem8 (fr_rip frame + of_nat i))) (\<lambda>r.
         printf e '' %hx'' [VInt (ucast (ucast (val0 r) :: u8))]))) (\<lambda>_.
     print e (wide crlf))))"

text \<open>The frame's privilege level: a fetch past the end of the page runs the instruction again, one
  byte longer; an exception of the program itself is reported.\<close>

definition check_privilege ::
  "build \<Rightarrow> env \<Rightarrow> exception_context \<Rightarrow> (instruction_type, 'z loop_state_scheme) prog" where
  "check_privilege b e ctx =
     (let frame = frame_of ctx in
      if fr_cs frame AND 3 = 3 then
        if exception_number ctx = EXCEPTION_PAGE_FAULT \<and> error_code ctx AND PF_INSTRUCTION_FETCH \<noteq> 0 then
          andthen (read_cr2 e) (\<lambda>cr2.
          andthen (fetch user_code_page_for_exec) (\<lambda>page.
          andthen (only_if (cr2 = page + 0x1000 \<and> fr_rip frame \<noteq> cr2)
                     (increment_instruction_length_and_retry_exec b e)) (\<lambda>_.
          return NOT_INTERESTING)))
        else return NOT_INTERESTING
      else andthen (report_kernel_exception e frame) (\<lambda>_. return KERNEL_EXCEPTION))"

definition MSR_IA32_MCG_STATUS :: u32 where "MSR_IA32_MCG_STATUS = 0x17a"
definition MCG_STATUS_MCIP :: u64 where "MCG_STATUS_MCIP = push_bit 2 1"
definition MSR_IA32_MC0_STATUS :: u32 where "MSR_IA32_MC0_STATUS = 0x401"
definition MC_STATUS_VALID :: u64 where "MC_STATUS_VALID = push_bit 63 1"
definition MSR_IA32_MCG_CAP :: u32 where "MSR_IA32_MCG_CAP = 0x179"
definition MCG_CAP_REPORTING_BANKS_COUNT_MASK :: u64 where "MCG_CAP_REPORTING_BANKS_COUNT_MASK = 0xf"

text \<open>The loop over the machine-check banks; the last valid status is the extra information.\<close>

fun read_banks :: "env \<Rightarrow> nat list \<Rightarrow> u64 \<Rightarrow> (u64, 'z world_scheme) prog" where
  "read_banks e [] extra_info = return extra_info"
| "read_banks e (i # is) extra_info =
     andthen (rdmsr e (MSR_IA32_MC0_STATUS + of_nat i * 4)) (\<lambda>mc_status.
     andthen (printf e (''MC Status bank %lx contents: %lx'' @ crlf) [VInt (of_nat i), VInt mc_status]) (\<lambda>_.
     andthen (wrmsr e (MSR_IA32_MC0_STATUS + of_nat i * 4) 0) (\<lambda>_.
     read_banks e is (if mc_status AND MC_STATUS_VALID \<noteq> 0 then mc_status else extra_info))))"

definition machine_check :: "env \<Rightarrow> (u64, 'z world_scheme) prog" where
  "machine_check e =
     andthen (print e (wide (''!!! MACHINE CHECK !!!'' @ crlf))) (\<lambda>_.
     andthen (rdmsr e MSR_IA32_MCG_STATUS) (\<lambda>mcg_status.
     andthen (printf e (''IA32_MCG_STATUS=%lx'' @ crlf) [VInt mcg_status]) (\<lambda>_.
     andthen (rdmsr e MSR_IA32_MCG_CAP) (\<lambda>mcg_cap.
     andthen (read_banks e [0..<unat (mcg_cap AND MCG_CAP_REPORTING_BANKS_COUNT_MASK)] 0) (\<lambda>extra_info.
     andthen (wrmsr e MSR_IA32_MCG_STATUS (mcg_status AND NOT MCG_STATUS_MCIP)) (\<lambda>_.
     return extra_info))))))"

text \<open>The \<open>switch\<close> over the exception: the type so far may be replaced, and some exceptions have
  extra information.\<close>

definition classify_exception ::
  "build \<Rightarrow> env \<Rightarrow> exception_context \<Rightarrow> u64 list \<Rightarrow> bool \<Rightarrow> instruction_type \<Rightarrow>
   (instruction_type \<times> bool \<times> u64, 'z loop_state_scheme) prog" where
  "classify_exception b e ctx cur instruction_is_known ty =
     (let otherwise = (\<lambda>ty. if \<not> instruction_is_known then UNDOCUMENTED_NOT_UD
            else if count_nops b \<and> cur ! INST_RETIRED_NOP b \<noteq> 0 then NOP else ty) in
      if exception_number ctx = EXCEPTION_PAGE_FAULT then
        if error_code ctx AND PF_USER = 0 then
          andthen (read_cr2 e) (\<lambda>cr2. return (otherwise KERNEL_PAGE_FAULT, True, cr2))
        else return (otherwise ty, False, 0)
      else if exception_number ctx = EXCEPTION_INVALID_OPCODE then
        andthen (restart_on_unstable_counters_values b e cur) (\<lambda>_.
        andthen (fetch ud_perf_counters_values) (\<lambda>ud.
        return (if \<not> instruction_is_known \<and> \<not> perf_counters_values_match b cur ud
                then UNDOCUMENTED_UD else ty, False, 0)))
      else if exception_number ctx = EXCEPTION_MACHINE_CHECK then
        andthen (machine_check e) (\<lambda>extra_info. return (MACHINE_CHECK, True, extra_info))
      else return (otherwise ty, False, 0))"

fun count_type :: "instruction_type \<Rightarrow> stats \<Rightarrow> stats" where
  "count_type NOT_INTERESTING n = n"
| "count_type KERNEL_EXCEPTION n = n\<lparr>kernel_exceptions := kernel_exceptions n + 1\<rparr>"
| "count_type KERNEL_PAGE_FAULT n = n\<lparr>kernel_page_faults := kernel_page_faults n + 1\<rparr>"
| "count_type MACHINE_CHECK n = n\<lparr>machine_checks := machine_checks n + 1\<rparr>"
| "count_type UNDOCUMENTED_UD n = n\<lparr>undocumented_behind_ud := undocumented_behind_ud n + 1\<rparr>"
| "count_type UNDOCUMENTED_NOT_UD n = n\<lparr>undocumented_not_ud := undocumented_not_ud n + 1\<rparr>"
| "count_type VEX_MALFORMED_BUT_ACCEPTED n =
     n\<lparr>vex_malformed_but_accepted := vex_malformed_but_accepted n + 1\<rparr>"
| "count_type NOP n = n\<lparr>nops := nops n + 1\<rparr>"
| "count_type XED_LENGTH_MISMATCH n = n\<lparr>cpu_xed_length_mismatches := cpu_xed_length_mismatches n + 1\<rparr>"

definition saving_failed ::
  "build \<Rightarrow> env \<Rightarrow> exception_context \<Rightarrow> u64 list \<Rightarrow> u8 list \<Rightarrow> nat \<Rightarrow> bool \<Rightarrow> u64 \<Rightarrow> u64 \<Rightarrow>
   (unit, 'z loop_state_scheme) prog" where
  "saving_failed b e ctx cur bytes len extra_info_present extra_info disasm_length =
     andthen (print e (wide (''Saving instruction info failed.'' @ crlf))) (\<lambda>_.
     andthen (dump_stats b e ctx bytes len extra_info_present extra_info cur disasm_length) (\<lambda>_.
     andthen (print e (wide (''Closing save file'' @ crlf))) (\<lambda>_.
     andthen (close_save_file b e) (\<lambda>_. halt_cpu e))))"

definition save_interesting ::
  "build \<Rightarrow> env \<Rightarrow> exception_context \<Rightarrow> u64 list \<Rightarrow> instruction_type \<Rightarrow> bool \<Rightarrow> u64 \<Rightarrow> u64 \<Rightarrow>
   (unit, 'z loop_state_scheme) prog" where
  "save_interesting b e ctx cur ty extra_info_present extra_info disasm_length =
     andthen (modify (\<lambda>s. s\<lparr>counts := count_type ty (counts s)\<rparr>)) (\<lambda>_.
     andthen (fetch instruction_bytes) (\<lambda>bytes.
     andthen (fetch cur_instruction_length) (\<lambda>len.
     andthen (save_instruction_data b e ctx ty bytes len extra_info_present extra_info cur) (\<lambda>st.
     andthen (only_if (st \<noteq> EFI_SUCCESS)
       (saving_failed b e ctx cur bytes len extra_info_present extra_info disasm_length)) (\<lambda>_.
     modify (\<lambda>s. s\<lparr>flush_required := True,
       counts := (counts s)\<lparr>instructions_saved := instructions_saved (counts s) + 1\<rparr>\<rparr>))))))"

text \<open>The statistics that are shown, and the flush, every 2^24 instructions.\<close>

definition periodic_report ::
  "build \<Rightarrow> env \<Rightarrow> exception_context \<Rightarrow> u64 list \<Rightarrow> bool \<Rightarrow> u64 \<Rightarrow> u64 \<Rightarrow> (unit, 'z loop_state_scheme) prog" where
  "periodic_report b e ctx cur extra_info_present extra_info disasm_length =
     andthen (modify (\<lambda>s. s\<lparr>counts := (counts s)\<lparr>unique_instructions_executed :=
                unique_instructions_executed (counts s) + 1\<rparr>\<rparr>)) (\<lambda>_.
     andthen (fetch counts) (\<lambda>n.
     andthen (fetch instruction_bytes) (\<lambda>bytes.
     andthen (fetch cur_instruction_length) (\<lambda>len.
     only_if (unique_instructions_executed n mod 0x1000000 = 0)
       (andthen (dump_stats b e ctx bytes len extra_info_present extra_info cur disasm_length) (\<lambda>_.
        andthen (fetch flush_required) (\<lambda>flush.
        andthen (only_if flush
          (andthen (print e (wide (''Flushing save file'' @ crlf))) (\<lambda>_.
           andthen (flush_save_file b e) (\<lambda>_.
           modify (\<lambda>s. s\<lparr>flush_required := False\<rparr>))))) (\<lambda>_.
        print e (wide crlf)))))))))"

text \<open>The rest of \<open>check_last_instruction\<close>: the search moves on, or the program is done.\<close>

definition move_on :: "build \<Rightarrow> env \<Rightarrow> (unit, 'z loop_state_scheme) prog" where
  "move_on b e = (\<lambda>s.
     case advance (cpu_mode b) (instruction_bytes s) (cur_byte_index s) (cur_instruction_length s)
            (last_instruction_length s) of
       (Candidate bytes idx len malformed, last_len) \<Rightarrow>
         Done () (s\<lparr>instruction_bytes := bytes, cur_byte_index := idx, cur_instruction_length := len,
                    last_instruction_length := last_len, malformed_instruction_expect_ud := malformed\<rparr>)
     | (Exhausted bytes, last_len) \<Rightarrow>
         andthen (get_save_file_position b e) (\<lambda>position.
         andthen (printf e (''Done, 0x%lx instructions saved (0x%lx bytes), closing file'' @ crlf)
                    [VInt (instructions_saved (counts s)), VInt position]) (\<lambda>_.
         andthen (close_save_file b e) (\<lambda>_. halt_cpu e)))
           (s\<lparr>instruction_bytes := bytes, cur_byte_index := 0, last_instruction_length := last_len\<rparr>)
     | (Search_Fault, last_len) \<Rightarrow> Crash s)"

definition check_last_instruction ::
  "build \<Rightarrow> env \<Rightarrow> exception_context \<Rightarrow> u64 list \<Rightarrow> (unit, 'z loop_state_scheme) prog" where
  "check_last_instruction b e ctx cur =
     andthen (check_privilege b e ctx) (\<lambda>ty.
     andthen (fetch malformed_instruction_expect_ud) (\<lambda>malformed.
     let ty = (if malformed \<and> exception_number ctx \<noteq> EXCEPTION_INVALID_OPCODE
               then VEX_MALFORMED_BUT_ACCEPTED else ty) in
     andthen (fetch instruction_bytes) (\<lambda>bytes.
     andthen (fetch cur_instruction_length) (\<lambda>len.
     andthen (disasm_get_instruction_length b e bytes len) (\<lambda>disasm_length.
     let instruction_is_known = disasm_length \<noteq> 0;
         ty = (if instruction_is_known \<and> of_nat len \<noteq> disasm_length then XED_LENGTH_MISMATCH else ty) in
     andthen (classify_exception b e ctx cur instruction_is_known ty) (\<lambda>(ty, extra_info_present, extra_info).
     andthen (only_if (ty \<noteq> NOT_INTERESTING)
       (save_interesting b e ctx cur ty extra_info_present extra_info disasm_length)) (\<lambda>_.
     andthen (periodic_report b e ctx cur extra_info_present extra_info disasm_length) (\<lambda>_.
     move_on b e))))))))"

section \<open>The exception handler\<close>

fun read_counters :: "env \<Rightarrow> nat list \<Rightarrow> (u64 list, 'z world_scheme) prog" where
  "read_counters e [] = return []"
| "read_counters e (i # is) = andthen (rdpmc e (of_nat i)) (\<lambda>v.
     andthen (read_counters e is) (\<lambda>vs. return (v # vs)))"

definition handle_exception :: "build \<Rightarrow> env \<Rightarrow> exception_context \<Rightarrow> (unit, 'z loop_state_scheme) prog" where
  "handle_exception b e ctx =
     andthen (read_counters e [0..<PERF_EVENTS_COUNT b]) (\<lambda>cur.
     andthen (fetch measuring_ud) (\<lambda>ud.
     andthen (fetch measuring_nop) (\<lambda>nop.
     andthen (if ud then
         andthen (check_ud2_measurements b e ctx cur) (\<lambda>_.
         only_if (count_nops b)
           (andthen (modify (\<lambda>s. s\<lparr>measuring_nop := True\<rparr>)) (\<lambda>_. execute_nop b e)))
       else if count_nops b \<and> nop then check_nop_measurements b e ctx cur
       else check_last_instruction b e ctx cur) (\<lambda>_.
     execute_current_instruction b e))))"

end
