(* ===== verification/Loop_Facts.thy ===== *)
theory Loop_Facts
  imports Exec_Loop Save_Format
begin

text \<open>
  What the operations of the execution loop do to the state, piece by piece: which of them only
  talk to the outside, what exactly running an instruction issues, and what is left unchanged by
  saving a record. Theory \<open>Machine\<close> composes these facts.
\<close>

section \<open>Calls without consequences\<close>

text \<open>The bytes copied to the code page, in order.\<close>

fun copied_call :: "call \<Rightarrow> u8 list list" where
  "copied_call (CopyMem a d) = [d]"
| "copied_call _ = []"

definition copied :: "history \<Rightarrow> u8 list list" where
  "copied h = concat (map (\<lambda>(c, r). copied_call c) h)"

lemma copied_append [simp]: "copied (h @ h') = copied h @ copied h'"
  by (simp add: copied_def)

lemma copied_Nil [simp]: "copied [] = []"
  by (simp add: copied_def)

lemma copied_Cons [simp]: "copied ((c, r) # h) = copied_call c @ copied h"
  by (simp add: copied_def)

lemma copied_filing: "\<forall>c\<in>fst ` set h. filing c \<Longrightarrow> copied h = []"
proof (induction h)
  case Nil
  then show ?case by simp
next
  case (Cons x h)
  obtain c r where x: "x = (c, r)" by fastforce
  then show ?case using Cons by (cases c) simp_all
qed

text \<open>Output and bookkeeping calls. All of them are \<open>quiet\<close>.\<close>

lemma talks_print [talks_intros]: "talks s quiet (print e str)"
  unfolding print_def by (intro talks_intros) simp

lemma talks_printf [talks_intros]: "accepts fmt args \<Longrightarrow> talks s quiet (printf e fmt args)"
  by (simp add: printf_accepts talks_extu)

text \<open>The table of counters is in place.\<close>

definition counters_known :: "build \<Rightarrow> 'z loop_state_scheme \<Rightarrow> bool" where
  "counters_known b s \<longleftrightarrow>
     (\<exists>infos. perf_counters s = Some infos \<and> length infos = PERF_EVENTS_COUNT b)"

lemma counters_known_trace [simp]: "counters_known b (s\<lparr>trace := t\<rparr>) = counters_known b s"
  by (simp add: counters_known_def)

lemma talks_counter_info:
  assumes "counters_known b s" and "i < PERF_EVENTS_COUNT b" and "\<And>info. talks s quiet (f info)"
  shows "talks s quiet (counter_info i f)"
proof -
  obtain infos where "perf_counters s = Some infos" "length infos = PERF_EVENTS_COUNT b"
    using assms(1) by (auto simp: counters_known_def)
  then show ?thesis unfolding counter_info_def
    using assms(2,3) by (intro talks_fetch) simp
qed

lemma talks_print_counters [talks_intros]:
  "counters_known b s \<Longrightarrow> talks s quiet (print_counters b e values)"
  unfolding print_counters_def
  by (intro talks_for_each talks_counter_info talks_printf) simp_all

lemma talks_position:
  "no_save b \<or> output_file s \<noteq> 0 \<Longrightarrow> talks s quiet (get_save_file_position b e)"
  unfolding get_save_file_position_def by (intro talks_intros) simp_all

lemma talks_flush:
  "no_save b \<or> output_file s \<noteq> 0 \<Longrightarrow> talks s quiet (flush_save_file b e)"
  unfolding flush_save_file_def by (intro talks_intros) simp_all

lemma talks_dump_stats:
  assumes "counters_known b s" and "no_save b \<or> output_file s \<noteq> 0"
  shows "talks s quiet (dump_stats b e ctx bytes len present extra values xed_length)"
  unfolding dump_stats_def
  by (intro talks_fetch talks_andthen talks_printf talks_position [OF assms(2)] talks_in_order)
     (use assms(1) in \<open>auto intro!: talks_intros talks_for_each split: option.split\<close>)

lemma talks_disasm [talks_intros]: "talks s quiet (disasm_get_instruction_length b e bytes len)"
  unfolding disasm_get_instruction_length_def by (intro talks_intros) simp

lemma talks_read_counters [talks_intros]: "talks s quiet (read_counters e is)"
proof (induction "is")
  case Nil
  then show ?case by (simp add: talks_return)
next
  case (Cons i "is")
  then show ?case by (auto intro!: talks_intros)
qed

lemma talks_read_banks [talks_intros]: "talks s quiet (read_banks e is extra)"
proof (induction "is" arbitrary: extra)
  case Nil
  then show ?case by (simp add: talks_return)
next
  case (Cons i "is")
  show ?case unfolding read_banks.simps
    by (intro talks_andthen talks_rdmsr talks_printf talks_wrmsr Cons) simp_all
qed

lemma talks_machine_check [talks_intros]: "talks s quiet (machine_check e)"
  unfolding machine_check_def
  by (intro talks_andthen talks_print talks_printf talks_rdmsr talks_wrmsr talks_read_banks
      talks_return) simp_all

section \<open>Running an instruction\<close>

text \<open>\<open>s'\<close> is \<open>s\<close> after the calls \<open>cs\<close>.\<close>

definition extends :: "'z world_scheme \<Rightarrow> call list \<Rightarrow> 'z world_scheme \<Rightarrow> bool" where
  "extends s cs s' \<longleftrightarrow> (\<exists>h. s' = s\<lparr>trace := trace s @ h\<rparr> \<and> map fst h = cs)"

lemma extends_refl: "extends s [] s"
  by (simp add: extends_def)

lemma extends_trans:
  assumes "extends s cs s1" and "extends s1 ds s2"
  shows "extends s (cs @ ds) s2"
proof -
  obtain h1 h2 where "s1 = s\<lparr>trace := trace s @ h1\<rparr>" "map fst h1 = cs"
    "s2 = s1\<lparr>trace := trace s1 @ h2\<rparr>" "map fst h2 = ds"
    using assms by (auto simp: extends_def)
  then show ?thesis unfolding extends_def by (intro exI [of _ "h1 @ h2"]) simp
qed

lemma extends_emit: "extends s [c] (emit e c s)"
  unfolding extends_def emit_def by (intro exI [of _ "[(c, e (trace s) c)]"]) simp

lemma extends_snoc: "extends s cs s' \<Longrightarrow> extends s (cs @ [c]) (emit e c s')"
  by (rule extends_trans [OF _ extends_emit])

text \<open>What running the first \<open>n\<close> bytes of \<open>instruction\<close> issues: counters stopped, cleared, started;
  the bytes placed so that they end with the page; and nothing between that and \<open>iretq\<close> but the
  flush of the cache line and the reset of the extended state.\<close>

definition run_calls :: "build \<Rightarrow> 'z loop_state_scheme \<Rightarrow> u8 list \<Rightarrow> nat \<Rightarrow> call list" where
  "run_calls b s instruction n =
     (let offset = 0x1000 - of_nat n; enable_all = perf_global_ctrl_enable_all s in
      [Wrmsr MSR_IA32_PERF_GLOBAL_CTRL 0 0] @
      map (\<lambda>i. Wrmsr (MSR_IA32_PMC i) 0 0) [0..<PERF_EVENTS_COUNT b] @
      [Wrmsr MSR_IA32_PERF_GLOBAL_CTRL (low_half enable_all) (high_half enable_all),
       CopyMem (user_code_page_rw s + offset) (take n instruction),
       Clflush (user_code_page_rw s + offset),
       Xrstor (xsave_state_area_ptr s),
       Iretq \<lparr>fr_rip = user_code_page_for_exec s + offset, fr_cs = 0x1b, fr_rflags = 0x102,
              fr_rsp = 0, fr_ss = 0x23\<rparr> (replicate 15 0)])"

lemma wrmsr_apply: "wrmsr e msr v s = Done () (emit e (Wrmsr msr (low_half v) (high_half v)) s)"
  by (simp add: wrmsr_def run_simps)

lemma halves_zero [simp]: "low_half 0 = 0" "high_half 0 = 0"
  by (simp_all add: low_half_def high_half_def)

lemma for_each_wrmsr:
  "\<exists>s'. for_each xs (\<lambda>i. wrmsr e (f i) 0) s = Done () s' \<and>
     extends s (map (\<lambda>i. Wrmsr (f i) 0 0) xs) s'"
proof (induction xs arbitrary: s)
  case Nil
  show ?case by (simp add: run_simps extends_refl)
next
  case (Cons x xs)
  obtain s' where "for_each xs (\<lambda>i. wrmsr e (f i) 0) (emit e (Wrmsr (f x) 0 0) s) = Done () s'"
    "extends (emit e (Wrmsr (f x) 0 0) s) (map (\<lambda>i. Wrmsr (f i) 0 0) xs) s'"
    using Cons by blast
  then show ?case using extends_trans [OF extends_emit, of e "Wrmsr (f x) 0 0" s]
    by (simp add: run_simps wrmsr_apply [of e "f x" 0 s])
qed

lemma extends_fields:
  fixes s s' :: "'z loop_state_scheme"
  assumes "extends s cs s'"
  shows "perf_global_ctrl_enable_all s' = perf_global_ctrl_enable_all s"
    and "user_code_page_rw s' = user_code_page_rw s"
    and "user_code_page_for_exec s' = user_code_page_for_exec s"
    and "xsave_state_area_ptr s' = xsave_state_area_ptr s"
  using assms by (auto simp: extends_def)

lemma loop_fields_emit [simp]:
  fixes s :: "'z loop_state_scheme"
  shows "perf_global_ctrl_enable_all (emit e c s) = perf_global_ctrl_enable_all s"
    and "user_code_page_rw (emit e c s) = user_code_page_rw s"
    and "user_code_page_for_exec (emit e c s) = user_code_page_for_exec s"
    and "xsave_state_area_ptr (emit e c s) = xsave_state_area_ptr s"
  by (simp_all add: emit_def)

lemma execute_instruction_extends:
  "\<exists>s'. execute_instruction b e ins n s = User s' \<and> extends s (run_calls b s ins n) s'"
proof -
  let ?s1 = "emit e (Wrmsr MSR_IA32_PERF_GLOBAL_CTRL 0 0) s"
  let ?pmcs = "map (\<lambda>i. Wrmsr (MSR_IA32_PMC i) 0 0) [0..<PERF_EVENTS_COUNT b]"
  obtain s2 where s2: "for_each [0..<PERF_EVENTS_COUNT b] (\<lambda>i. wrmsr e (MSR_IA32_PMC i) 0) ?s1 = Done () s2"
    "extends ?s1 ?pmcs s2"
    using for_each_wrmsr by blast
  have start: "extends s ([Wrmsr MSR_IA32_PERF_GLOBAL_CTRL 0 0] @ ?pmcs) s2"
    using extends_emit s2(2) by (rule extends_trans)
  have f: "push_bit 8 1 OR 2 = (0x102 :: u64)" by simp
  note tail = start [THEN extends_snoc, THEN extends_snoc, THEN extends_snoc, THEN extends_snoc,
      THEN extends_snoc]
  show ?thesis
    using s2(1) extends_fields [OF start] tail
    by (simp add: execute_instruction_def memcpy_def enter_user_def run_simps wrmsr_apply [of _ _ _ s]
        wrmsr_apply [of _ _ _ s2] Let_def f run_calls_def)
qed

end
