(* ===== verification/Handler.thy ===== *)
theory Handler
  imports Loop_Facts Search_Run
begin

text \<open>
  What one exception does. Each part of the handler gets a rule for \<open>ends\<close>, in the order of the
  code; together they say that the handler never has undefined behaviour, how it leaves the
  search variables, and what it writes.
\<close>

section \<open>The search variables of the loop\<close>

definition search_of :: "'z loop_state_scheme \<Rightarrow> search" where
  "search_of s = (instruction_bytes s, cur_byte_index s, cur_instruction_length s,
     last_instruction_length s)"

text \<open>The state between two exceptions, once the file is open and the counters are chosen.\<close>

definition loop_ok :: "build \<Rightarrow> 'z loop_state_scheme \<Rightarrow> bool" where
  "loop_ok b s \<longleftrightarrow> output_file s \<noteq> 0 \<and> counters_known b s \<and> search_ok (cpu_mode b) (search_of s) \<and>
     \<not> malformed_instruction_expect_ud s"

text \<open>\<open>s'\<close> differs from \<open>s\<close> by the calls \<open>h\<close> and by bookkeeping only.\<close>

definition proceeds :: "'z loop_state_scheme \<Rightarrow> history \<Rightarrow> 'z loop_state_scheme \<Rightarrow> bool" where
  "proceeds s h s' \<longleftrightarrow>
     s' = s\<lparr>trace := trace s @ h, counts := counts s', flush_required := flush_required s',
            last_perf_counters_values := last_perf_counters_values s'\<rparr> \<and>
     (\<forall>c\<in>fst ` set h. filing c)"

lemma proceeds_trace:
  "\<forall>c\<in>fst ` set h. quiet c \<Longrightarrow> proceeds s h (s\<lparr>trace := trace s @ h\<rparr>)"
  using quiet_filing by (auto simp: proceeds_def)

lemma proceeds_refl: "proceeds s [] s"
  by (simp add: proceeds_def)

lemma proceeds_trans:
  assumes "proceeds s h s1" and "proceeds s1 k s2"
  shows "proceeds s (h @ k) s2"
proof -
  have 1: "s1 = s\<lparr>trace := trace s @ h, counts := counts s1, flush_required := flush_required s1,
      last_perf_counters_values := last_perf_counters_values s1\<rparr>"
    and 2: "s2 = s1\<lparr>trace := trace s1 @ k, counts := counts s2, flush_required := flush_required s2,
      last_perf_counters_values := last_perf_counters_values s2\<rparr>"
    using assms by (auto simp: proceeds_def)
  have t: "trace s1 = trace s @ h" by (subst 1) simp
  have "s2 = s\<lparr>trace := trace s @ h @ k, counts := counts s2, flush_required := flush_required s2,
      last_perf_counters_values := last_perf_counters_values s2\<rparr>"
    by (subst 2, subst 1) (simp add: t)
  then show ?thesis using assms by (auto simp: proceeds_def)
qed

lemma proceeds_fields:
  assumes "proceeds s h s'"
  shows "trace s' = trace s @ h" and "output_file s' = output_file s"
    and "counters_known b s' = counters_known b s" and "search_of s' = search_of s"
    and "instruction_bytes s' = instruction_bytes s" and "cur_byte_index s' = cur_byte_index s"
    and "cur_instruction_length s' = cur_instruction_length s"
    and "last_instruction_length s' = last_instruction_length s"
    and "malformed_instruction_expect_ud s' = malformed_instruction_expect_ud s"
    and "ud_perf_counters_values s' = ud_perf_counters_values s"
    and "measuring_ud s' = measuring_ud s" and "measuring_nop s' = measuring_nop s"
    and "loop_ok b s' = loop_ok b s"
    and "user_code_page_for_exec s' = user_code_page_for_exec s"
    and "nop_perf_counters_values s' = nop_perf_counters_values s"
proof -
  have "s' = s\<lparr>trace := trace s @ h, counts := counts s', flush_required := flush_required s',
      last_perf_counters_values := last_perf_counters_values s'\<rparr>"
    using assms by (simp add: proceeds_def)
  then obtain c f l where s': "s' = s\<lparr>trace := trace s @ h, counts := c, flush_required := f,
      last_perf_counters_values := l\<rparr>" by blast
  show "trace s' = trace s @ h" "output_file s' = output_file s"
    "counters_known b s' = counters_known b s" "search_of s' = search_of s"
    "instruction_bytes s' = instruction_bytes s" "cur_byte_index s' = cur_byte_index s"
    "cur_instruction_length s' = cur_instruction_length s"
    "last_instruction_length s' = last_instruction_length s"
    "malformed_instruction_expect_ud s' = malformed_instruction_expect_ud s"
    "ud_perf_counters_values s' = ud_perf_counters_values s"
    "measuring_ud s' = measuring_ud s" "measuring_nop s' = measuring_nop s"
    "loop_ok b s' = loop_ok b s"
    "user_code_page_for_exec s' = user_code_page_for_exec s"
    "nop_perf_counters_values s' = nop_perf_counters_values s"
    unfolding s' by (simp_all add: counters_known_def search_of_def loop_ok_def)
qed

section \<open>Leaving for user mode\<close>

text \<open>From \<open>s\<close>, the current instruction is started.\<close>

definition starts :: "build \<Rightarrow> 'z loop_state_scheme \<Rightarrow> 'z loop_state_scheme \<Rightarrow> bool" where
  "starts b s s' \<longleftrightarrow> extends s (run_calls b s (instruction_bytes s) (cur_instruction_length s)) s'"

lemma execute_current_starts:
  fixes D :: "'a \<Rightarrow> 'b loop_state_scheme \<Rightarrow> bool"
  assumes "\<And>s'. starts b s s' \<Longrightarrow> U s'"
  shows "ends (execute_current_instruction b e s) D U H"
proof -
  obtain s' where "(execute_current_instruction b e s :: ('a, 'b loop_state_scheme) run) = User s'"
    "starts b s s'"
    using execute_instruction_extends [of b e "instruction_bytes s" "cur_instruction_length s" s]
    unfolding execute_current_instruction_def starts_def by (auto simp: run_simps)
  then show ?thesis using assms by simp
qed

text \<open>The same instruction again, or the same bytes and one more.\<close>

definition longer :: "'z loop_state_scheme \<Rightarrow> 'z loop_state_scheme" where
  "longer s = s\<lparr>cur_instruction_length := cur_instruction_length s + 1\<rparr>"

text \<open>A page fault of the instruction's fetch, in user mode.\<close>

definition kernel_mode :: "exception_context \<Rightarrow> bool" where
  "kernel_mode ctx \<longleftrightarrow> fr_cs (frame_of ctx) AND 3 \<noteq> 3"

definition fetch_fault :: "exception_context \<Rightarrow> bool" where
  "fetch_fault ctx \<longleftrightarrow> \<not> kernel_mode ctx \<and> exception_number ctx = EXCEPTION_PAGE_FAULT \<and>
     error_code ctx AND PF_INSTRUCTION_FETCH \<noteq> 0"

text \<open>A #UD whose counters differ from those of the run before.\<close>

definition unstable :: "build \<Rightarrow> exception_context \<Rightarrow> u64 list \<Rightarrow> u64 list \<Rightarrow> bool" where
  "unstable b ctx cur previous \<longleftrightarrow>
     exception_number ctx = EXCEPTION_INVALID_OPCODE \<and> restart_required b cur previous"

definition starts_again ::
  "build \<Rightarrow> exception_context \<Rightarrow> u64 list \<Rightarrow> 'z loop_state_scheme \<Rightarrow> 'z loop_state_scheme \<Rightarrow> bool" where
  "starts_again b ctx cur s s' \<longleftrightarrow> (\<exists>h s1. proceeds s h s1 \<and> written h = [] \<and> counts s1 = counts s \<and>
     (unstable b ctx cur (last_perf_counters_values s) \<and> last_perf_counters_values s1 = cur \<and>
        starts b s1 s' \<or>
      fetch_fault ctx \<and> cur_instruction_length s < 15 \<and> starts b (longer s1) s'))"

lemma ends_retry:
  assumes "length (instruction_bytes s) = 15"
    and "\<And>s'. cur_instruction_length s < 15 \<Longrightarrow> starts b (longer s) s' \<Longrightarrow> U s'"
    and "D () s"
  shows "ends (increment_instruction_length_and_retry_exec b e s) D U H"
proof (cases "cur_instruction_length s < 15")
  case True
  then have "increment_instruction_length_and_retry_exec b e s =
      execute_current_instruction b e (longer s)"
    using assms(1) by (simp add: increment_instruction_length_and_retry_exec_def run_simps longer_def)
  then show ?thesis using assms(2) True by (simp add: execute_current_starts)
next
  case False
  then have "increment_instruction_length_and_retry_exec b e s = Done () s"
    using assms(1) by (simp add: increment_instruction_length_and_retry_exec_def run_simps)
  then show ?thesis using assms(3) by simp
qed

lemma starts_again_longer:
  "proceeds s h s1 \<Longrightarrow> \<forall>c\<in>fst ` set h. quiet c \<Longrightarrow> fetch_fault ctx \<Longrightarrow> cur_instruction_length s < 15 \<Longrightarrow>
   starts b (longer s1) s' \<Longrightarrow> counts s1 = counts s \<Longrightarrow> starts_again b ctx cur s s'"
  unfolding starts_again_def using written_quiet by blast

lemma starts_again_same:
  "proceeds s h s1 \<Longrightarrow> written h = [] \<Longrightarrow> unstable b ctx cur (last_perf_counters_values s) \<Longrightarrow>
   last_perf_counters_values s1 = cur \<Longrightarrow> starts b s1 s' \<Longrightarrow> counts s1 = counts s \<Longrightarrow>
   starts_again b ctx cur s s'"
  unfolding starts_again_def by blast

section \<open>The privilege check\<close>

lemma talks_report [talks_intros]: "talks s quiet (report_kernel_exception e frame)"
  unfolding report_kernel_exception_def
  by (intro talks_andthen talks_printf talks_print talks_for_each talks_ext) simp_all

lemma ends_check_privilege:
  assumes n: "length (instruction_bytes s) = 15"
    and U: "\<And>s'. starts_again b ctx cur s s' \<Longrightarrow> U s'"
    and D: "\<And>h. \<forall>c\<in>fst ` set h. quiet c \<Longrightarrow>
      D (if kernel_mode ctx then KERNEL_EXCEPTION else NOT_INTERESTING) (s\<lparr>trace := trace s @ h\<rparr>)"
  shows "ends (check_privilege b e ctx s) D U H"
proof (cases "kernel_mode ctx")
  case True
  have "ends (andthen (report_kernel_exception e (frame_of ctx)) (\<lambda>_. return KERNEL_EXCEPTION) s) D U H"
    unfolding ends_andthen using D True
    by (intro ends_talks [OF talks_report]) (simp add: run_simps)
  then show ?thesis using True by (simp add: check_privilege_def kernel_mode_def Let_def)
next
  case user: False
  have fin: "ends (return NOT_INTERESTING s) D U H" using D [of "[]"] user by (simp add: run_simps)
  have "ends (andthen (read_cr2 e) (\<lambda>cr2.
          andthen (fetch user_code_page_for_exec) (\<lambda>page.
          andthen (only_if (cr2 = page + 0x1000 \<and> fr_rip (frame_of ctx) \<noteq> cr2)
                     (increment_instruction_length_and_retry_exec b e)) (\<lambda>_.
          return NOT_INTERESTING))) s) D U H" if fetch: "fetch_fault ctx"
    unfolding ends_andthen
  proof (rule ends_talks [OF talks_read_cr2])
    show "quiet (ReadCr 2)" by simp
  next
    fix a and h :: history
    assume q: "\<forall>c\<in>fst ` set h. quiet c"
    let ?s1 = "s\<lparr>trace := trace s @ h\<rparr>"
    have "starts_again b ctx cur s s'" if "cur_instruction_length ?s1 < 15" "starts b (longer ?s1) s'" for s'
      using starts_again_longer [OF proceeds_trace [OF q] q fetch _ that(2)] that(1) by simp
    then show "ends (fetch user_code_page_for_exec ?s1) (\<lambda>page s'.
        ends (only_if (a = page + 0x1000 \<and> fr_rip (frame_of ctx) \<noteq> a)
          (increment_instruction_length_and_retry_exec b e) s')
          (\<lambda>_ s''. ends (return NOT_INTERESTING s'') D U H) U H) U H"
      using n U D [OF q] user by (auto simp: run_simps intro!: ends_retry)
  qed
  then show ?thesis using user fin by (simp add: check_privilege_def kernel_mode_def fetch_fault_def Let_def)
qed

section \<open>The verdict\<close>

text \<open>The decision table for an instruction, apart from the code: what it is saved as, from the
  exception, whether the program itself was interrupted, whether XED knows the bytes and gives them
  the length the CPU does, and whether the counters are those of \<open>ud2\<close>.\<close>

definition verdict ::
  "build \<Rightarrow> exception_context \<Rightarrow> bool \<Rightarrow> bool \<Rightarrow> bool \<Rightarrow> bool \<Rightarrow> instruction_type" where
  "verdict b ctx known mismatch nop like_ud2 =
     (if exception_number ctx = EXCEPTION_MACHINE_CHECK then MACHINE_CHECK
      else if exception_number ctx = EXCEPTION_INVALID_OPCODE \<and> \<not> known \<and> \<not> like_ud2 then UNDOCUMENTED_UD
      else if exception_number ctx \<noteq> EXCEPTION_INVALID_OPCODE \<and> \<not> known then UNDOCUMENTED_NOT_UD
      else if exception_number ctx \<noteq> EXCEPTION_INVALID_OPCODE \<and> count_nops b \<and> nop then NOP
      else if exception_number ctx = EXCEPTION_PAGE_FAULT \<and> error_code ctx AND PF_USER = 0
        then KERNEL_PAGE_FAULT
      else if mismatch then XED_LENGTH_MISMATCH
      else if kernel_mode ctx then KERNEL_EXCEPTION
      else NOT_INTERESTING)"

text \<open>The exceptions that are saved with extra information.\<close>

definition has_extra :: "exception_context \<Rightarrow> bool" where
  "has_extra ctx \<longleftrightarrow> exception_number ctx = EXCEPTION_MACHINE_CHECK \<or>
     (exception_number ctx = EXCEPTION_PAGE_FAULT \<and> error_code ctx AND PF_USER = 0)"

lemma exception_numbers_distinct:
  "EXCEPTION_MACHINE_CHECK \<noteq> EXCEPTION_INVALID_OPCODE"
  "EXCEPTION_MACHINE_CHECK \<noteq> EXCEPTION_PAGE_FAULT"
  "EXCEPTION_INVALID_OPCODE \<noteq> EXCEPTION_PAGE_FAULT"
  by (simp_all add: EXCEPTION_MACHINE_CHECK_def EXCEPTION_INVALID_OPCODE_def EXCEPTION_PAGE_FAULT_def)

lemmas exception_numbers = exception_numbers_distinct exception_numbers_distinct [symmetric]

lemma ends_restart:
  assumes ud: "exception_number ctx = EXCEPTION_INVALID_OPCODE"
    and U: "\<And>s'. starts_again b ctx cur s s' \<Longrightarrow> U s'"
    and D: "\<And>s1. \<not> restart_required b cur (last_perf_counters_values s) \<Longrightarrow> proceeds s [] s1 \<Longrightarrow>
      counts s1 = counts s \<Longrightarrow> D () s1"
  shows "ends (restart_on_unstable_counters_values b e cur s) D U H"
proof -
  have p: "proceeds s [] (s\<lparr>last_perf_counters_values := l\<rparr>)" for l by (simp add: proceeds_def)
  have "ends (execute_current_instruction b e (s\<lparr>last_perf_counters_values := cur\<rparr>)) D U H"
    if "restart_required b cur (last_perf_counters_values s)"
  proof (rule execute_current_starts)
    fix s' assume "starts b (s\<lparr>last_perf_counters_values := cur\<rparr>) s'"
    then show "U s'" using ud that by (intro U starts_again_same [OF p]) (simp_all add: unstable_def)
  qed
  then show ?thesis using D [OF _ p] by (simp add: restart_on_unstable_counters_values_def run_simps)
qed

text \<open>Where extra information comes from: the address of a page fault is what CR2 held, that of a machine
  check the valid status of a bank, or 0.\<close>

definition msr_value :: "reply \<Rightarrow> u64" where
  "msr_value r = join_halves (ucast (val1 r)) (ucast (val0 r))"

definition from_bank :: "u64 \<Rightarrow> history \<Rightarrow> bool" where
  "from_bank x h \<longleftrightarrow> (\<exists>i r. (Rdmsr i, r) \<in> set h \<and> x = msr_value r \<and> x AND MC_STATUS_VALID \<noteq> 0)"

definition extra_from :: "exception_context \<Rightarrow> history \<Rightarrow> u64 \<Rightarrow> bool" where
  "extra_from ctx h x \<longleftrightarrow>
     (if exception_number ctx = EXCEPTION_MACHINE_CHECK then x = 0 \<or> from_bank x h
      else \<exists>r. (ReadCr 2, r) \<in> set h \<and> x = val0 r)"

lemma from_bank_append: "from_bank x h \<Longrightarrow> from_bank x (k @ h)"
  unfolding from_bank_def by auto

lemma extra_from_append:
  "extra_from ctx h x \<Longrightarrow> extra_from ctx (h @ k) x" "extra_from ctx h x \<Longrightarrow> extra_from ctx (k @ h) x"
  unfolding extra_from_def from_bank_def by (auto split: if_splits)

lemma speaks_rdmsr:
  "speaks s quiet (rdmsr e i) (\<lambda>v h. \<exists>r. (Rdmsr i, r) \<in> set h \<and> v = msr_value r)"
  unfolding rdmsr_def by (rule speaks_call) (auto simp: msr_value_def intro!: speaks_return)

lemma speaks_read_cr2: "speaks s quiet (read_cr2 e) (\<lambda>v h. \<exists>r. (ReadCr 2, r) \<in> set h \<and> v = val0 r)"
  unfolding cr_defs by (rule speaks_call) (auto intro!: speaks_return)

lemma speaks_quietly:
  assumes "talks s quiet m" and "\<And>a s'. speaks s' quiet (f a) P" and "\<And>x h k. P x h \<Longrightarrow> P x (k @ h)"
  shows "speaks s quiet (andthen m f) P"
proof (rule speaks_andthen [OF speaks_talks [OF assms(1), where P = "\<lambda>_ _. True"]])
  show "speaks s' quiet (f a) (\<lambda>b k. P b (h @ k))" for a h s'
    by (rule speaks_mono [OF assms(2)]) (rule assms(3))
qed simp

lemma speaks_read_banks: "speaks s quiet (read_banks e is x) (\<lambda>y h. y = x \<or> from_bank y h)"
proof (induction "is" arbitrary: x s)
  case Nil
  then show ?case by (simp add: speaks_return)
next
  case (Cons i "is")
  have rest: "speaks s' quiet (andthen (printf e (''MC Status bank %lx contents: %lx'' @ crlf) [VInt (of_nat i), VInt v])
      (\<lambda>_. andthen (wrmsr e msr 0) (\<lambda>_. read_banks e is z))) (\<lambda>y h. y = z \<or> from_bank y h)"
    for v z msr and s' :: "'a world_scheme"
    by (intro speaks_quietly talks_printf talks_wrmsr Cons) (auto intro: from_bank_append)
  show ?case unfolding read_banks.simps
  proof (rule speaks_andthen [OF speaks_rdmsr])
    fix v h and s' :: "'a world_scheme"
    assume "\<exists>r. (Rdmsr (MSR_IA32_MC0_STATUS + of_nat i * 4), r) \<in> set h \<and> v = msr_value r"
    then have "v AND MC_STATUS_VALID \<noteq> 0 \<Longrightarrow> from_bank v (h @ k)" for k
      unfolding from_bank_def by auto
    then show "speaks s' quiet (andthen (printf e (''MC Status bank %lx contents: %lx'' @ crlf)
        [VInt (of_nat i), VInt v]) (\<lambda>_. andthen (wrmsr e (MSR_IA32_MC0_STATUS + of_nat i * 4) 0)
        (\<lambda>_. read_banks e is (if v AND MC_STATUS_VALID \<noteq> 0 then v else x))))
        (\<lambda>y k. y = x \<or> from_bank y (h @ k))"
      by (intro speaks_mono [OF rest]) (auto intro: from_bank_append split: if_splits)
  qed
qed

lemma speaks_machine_check: "speaks s quiet (machine_check e) (\<lambda>x h. x = 0 \<or> from_bank x h)"
proof -
  have fin: "speaks s' quiet (andthen (read_banks e is 0) (\<lambda>x. andthen (wrmsr e msr v) (\<lambda>_. return x)))
      (\<lambda>x h. x = 0 \<or> from_bank x h)" for "is" msr v and s' :: "'a world_scheme"
    by (rule speaks_andthen [OF speaks_read_banks])
       (intro speaks_say talks_wrmsr; auto simp: from_bank_def)
  show ?thesis unfolding machine_check_def
    by (intro speaks_quietly talks_print talks_rdmsr talks_printf fin) (auto intro: from_bank_append)
qed

lemma ends_speaks:
  assumes "speaks s C m P"
    and "\<And>a h. \<forall>c\<in>fst ` set h. C c \<Longrightarrow> P a h \<Longrightarrow> D a (s\<lparr>trace := trace s @ h\<rparr>)"
  shows "ends (m s) D U H"
  using assms unfolding speaks_def spoke_def by auto

lemma ends_classify:
  fixes s :: "'z loop_state_scheme"
  assumes U: "\<And>s'. starts_again b ctx cur s s' \<Longrightarrow> U s'"
    and D: "\<And>h extra s1. \<forall>c\<in>fst ` set h. quiet c \<Longrightarrow> proceeds s h s1 \<Longrightarrow>
      exception_number ctx = EXCEPTION_INVALID_OPCODE \<longrightarrow>
        \<not> restart_required b cur (last_perf_counters_values s) \<Longrightarrow>
      has_extra ctx \<longrightarrow> extra_from ctx h extra \<Longrightarrow> counts s1 = counts s \<Longrightarrow>
      D (verdict b ctx known mismatch (cur ! INST_RETIRED_NOP b \<noteq> 0)
           (perf_counters_values_match b cur (ud_perf_counters_values s)), has_extra ctx, extra) s1"
    and ty: "ty = (if mismatch then XED_LENGTH_MISMATCH
      else if kernel_mode ctx then KERNEL_EXCEPTION else NOT_INTERESTING)"
  shows "ends (classify_exception b e ctx cur known ty s) D U H"
proof -
  note table = verdict_def has_extra_def ty exception_numbers
  have plain: "D (verdict b ctx known mismatch (cur ! INST_RETIRED_NOP b \<noteq> 0)
      (perf_counters_values_match b cur (ud_perf_counters_values s)), has_extra ctx, 0) s"
    if "exception_number ctx \<noteq> EXCEPTION_INVALID_OPCODE" "\<not> has_extra ctx"
    using D [OF _ proceeds_refl] that by simp
  consider "exception_number ctx = EXCEPTION_PAGE_FAULT" "error_code ctx AND PF_USER = 0"
    | "exception_number ctx = EXCEPTION_INVALID_OPCODE"
    | "exception_number ctx = EXCEPTION_MACHINE_CHECK"
    | "exception_number ctx \<noteq> EXCEPTION_INVALID_OPCODE" "exception_number ctx \<noteq> EXCEPTION_MACHINE_CHECK"
      "exception_number ctx = EXCEPTION_PAGE_FAULT \<longrightarrow> error_code ctx AND PF_USER \<noteq> 0"
    by blast
  then show ?thesis
  proof cases
    case 1
    have "ends (andthen (read_cr2 e) (\<lambda>cr2. return (verdict b ctx known mismatch
        (cur ! INST_RETIRED_NOP b \<noteq> 0) (perf_counters_values_match b cur (ud_perf_counters_values s)),
        True, cr2)) s) D U H"
      unfolding ends_andthen
    proof (rule ends_speaks [OF speaks_read_cr2])
      fix a and h :: history
      assume q: "\<forall>c\<in>fst ` set h. quiet c" and x: "\<exists>r. (ReadCr 2, r) \<in> set h \<and> a = val0 r"
      show "ends (return (verdict b ctx known mismatch (cur ! INST_RETIRED_NOP b \<noteq> 0)
          (perf_counters_values_match b cur (ud_perf_counters_values s)), True, a)
          (s\<lparr>trace := trace s @ h\<rparr>)) D U H"
        using D [OF q proceeds_trace [OF q], of a] 1 x by (simp add: run_simps table extra_from_def)
    qed
    then show ?thesis using 1
      by (cases known; cases "count_nops b \<and> cur ! INST_RETIRED_NOP b \<noteq> 0")
         (auto simp: classify_exception_def table Let_def)
  next
    case 2
    have "ends (andthen (restart_on_unstable_counters_values b e cur) (\<lambda>_.
        andthen (fetch ud_perf_counters_values) (\<lambda>ud.
        return (if \<not> known \<and> \<not> perf_counters_values_match b cur ud
                then UNDOCUMENTED_UD else ty, False, 0))) s) D U H"
      unfolding ends_andthen using 2 U
    proof (rule ends_restart)
      fix s1
      assume stable: "\<not> restart_required b cur (last_perf_counters_values s)" and p: "proceeds s [] s1"
        and n: "counts s1 = counts s"
      have "ud_perf_counters_values s1 = ud_perf_counters_values s" using p by (rule proceeds_fields)
      then show "ends (fetch ud_perf_counters_values s1) (\<lambda>ud s'.
          ends (return (if \<not> known \<and> \<not> perf_counters_values_match b cur ud
                then UNDOCUMENTED_UD else ty, False, 0) s') D U H) U H"
        using 2 D [OF _ p, of 0] stable n by (auto simp: run_simps table split: if_splits)
    qed
    then show ?thesis using 2 by (simp add: classify_exception_def exception_numbers Let_def)
  next
    case 3
    have "ends (andthen (machine_check e) (\<lambda>extra_info. return (MACHINE_CHECK, True, extra_info)) s) D U H"
      unfolding ends_andthen
    proof (rule ends_speaks [OF speaks_machine_check])
      fix a and h :: history
      assume q: "\<forall>c\<in>fst ` set h. quiet c" and x: "a = 0 \<or> from_bank a h"
      show "ends (return (MACHINE_CHECK, True, a) (s\<lparr>trace := trace s @ h\<rparr>)) D U H"
        using D [OF q proceeds_trace [OF q], of a] 3 x by (simp add: run_simps table extra_from_def)
    qed
    then show ?thesis using 3 by (simp add: classify_exception_def exception_numbers Let_def)
  next
    case 4
    then show ?thesis using plain by (auto simp: classify_exception_def table Let_def run_simps)
  qed
qed

section \<open>Stopping\<close>

lemma ends_close_halt:
  fixes D :: "'a \<Rightarrow> 'z save_world_scheme \<Rightarrow> bool"
  assumes "output_file s \<noteq> 0"
    and H: "\<And>s' h. trace s' = trace s @ h \<Longrightarrow> written h = [] \<Longrightarrow> H s'"
  shows "ends (andthen (close_save_file b e) (\<lambda>_. halt_cpu e) s) D U H"
proof -
  have "\<exists>s' h. (andthen (close_save_file b e) (\<lambda>_. halt_cpu e) s :: ('a, 'z save_world_scheme) run) =
      Halted s' \<and> trace s' = trace s @ h \<and> written h = []"
    using assms(1) by (auto simp: close_save_file_def halt_cpu_def run_simps print_def)
  then obtain s' h where
    r: "(andthen (close_save_file b e) (\<lambda>_. halt_cpu e) s :: ('a, 'z save_world_scheme) run) = Halted s'"
    and t: "trace s' = trace s @ h" "written h = []" by blast
  show ?thesis unfolding r using H [OF t] by simp
qed

section \<open>Saving, reporting, moving on\<close>

text \<open>The state needed to save and report.\<close>

definition can_save :: "build \<Rightarrow> 'z loop_state_scheme \<Rightarrow> bool" where
  "can_save b s \<longleftrightarrow> \<not> no_save b \<and> output_file s \<noteq> 0 \<and> counters_known b s"

lemma can_save_proceeds: "proceeds s h s' \<Longrightarrow> can_save b s' = can_save b s"
  by (simp add: can_save_def proceeds_fields(2,3))

lemma proceeds_modify:
  "proceeds s [] (s\<lparr>counts := c\<rparr>)"
  "proceeds s [] (s\<lparr>flush_required := f\<rparr>)"
  "proceeds s [] (s\<lparr>flush_required := f, counts := c\<rparr>)"
  by (simp_all add: proceeds_def)

lemma ends_record:
  assumes "can_save b s"
    and D: "\<And>h. written h = record_bytes b ctx ty bytes len present extra cur \<Longrightarrow>
      \<forall>c\<in>fst ` set h. filing c \<Longrightarrow> D EFI_SUCCESS (s\<lparr>trace := trace s @ h\<rparr>)"
    and F: "\<And>st h. st \<noteq> EFI_SUCCESS \<Longrightarrow> write_failed h \<Longrightarrow> \<forall>c\<in>fst ` set h. filing c \<Longrightarrow>
      D st (s\<lparr>trace := trace s @ h\<rparr>)"
  shows "ends (save_instruction_data b e ctx ty bytes len present extra cur s) D U H"
proof -
  have "emitter (save_instruction_data b e ctx ty bytes len present extra cur)
      (record_bytes b ctx ty bytes len present extra cur :: u8 list)"
    using assms(1) by (intro emitter_record) (simp add: can_save_def)
  moreover have "output_file s \<noteq> 0" using assms(1) by (simp add: can_save_def)
  ultimately obtain st h where
    run: "save_instruction_data b e ctx ty bytes len present extra cur s = Done st (s\<lparr>trace := trace s @ h\<rparr>)"
    and out: "if st = EFI_SUCCESS then written h = record_bytes b ctx ty bytes len present extra cur
      else write_failed h" and f: "\<forall>c\<in>fst ` set h. filing c"
    using emitter.emits by blast
  show ?thesis unfolding run using D [OF _ f] F [OF _ _ f] out
    by (cases "st = EFI_SUCCESS") simp_all
qed

lemma ends_saving_failed:
  assumes "can_save b s" and "write_failed (trace s)"
    and H: "\<And>s'. write_failed (trace s') \<Longrightarrow> H s'"
  shows "ends (saving_failed b e ctx cur bytes len present extra disasm_length s) D U H"
proof -
  let ?m1 = "wide (''Saving instruction info failed.'' @ crlf)" and ?m2 = "wide (''Closing save file'' @ crlf)"
  have ok: "talks s quiet (andthen (print e ?m1) (\<lambda>_.
        andthen (dump_stats b e ctx bytes len present extra cur disasm_length) (\<lambda>_. print e ?m2)))"
    using assms(1) by (intro talks_andthen talks_print talks_dump_stats) (simp_all add: can_save_def)
  have close: "ends (andthen (close_save_file b e) (\<lambda>_. halt_cpu e) (s\<lparr>trace := trace s @ h\<rparr>)) D U H" for h
    using assms(1,2) by (intro ends_close_halt H) (auto simp: can_save_def)
  have "ends ((andthen (print e ?m1) (\<lambda>_.
        andthen (dump_stats b e ctx bytes len present extra cur disasm_length) (\<lambda>_. print e ?m2))) s)
      (\<lambda>_ s'. ends (andthen (close_save_file b e) (\<lambda>_. halt_cpu e) s') D U H) U H"
    using close by (intro ends_talks [OF ok])
  then show ?thesis unfolding saving_failed_def ends_andthen .
qed

lemma ends_save_interesting:
  assumes ok: "can_save b s"
    and D: "\<And>h s1. proceeds s h s1 \<Longrightarrow>
      written h = record_bytes b ctx ty (instruction_bytes s) (cur_instruction_length s) present extra cur \<Longrightarrow>
      instructions_saved (counts s1) = instructions_saved (counts s) + 1 \<Longrightarrow> D () s1"
    and H: "\<And>s'. write_failed (trace s') \<Longrightarrow> H s'"
  shows "ends (save_interesting b e ctx cur ty present extra disasm_length s) D U H"
proof -
  let ?s1 = "s\<lparr>counts := count_type ty (counts s)\<rparr>"
  have s1: "proceeds s [] ?s1" by (rule proceeds_modify)
  have ok1: "can_save b ?s1" using ok can_save_proceeds [OF s1] by simp
  have n: "instructions_saved (counts ?s1) = instructions_saved (counts s)" by (cases ty) simp_all
  have good: "D () (s2\<lparr>flush_required := True, counts := c\<rparr>)"
    if "s2 = ?s1\<lparr>trace := trace ?s1 @ h\<rparr>" "\<forall>c\<in>fst ` set h. filing c"
      "written h = record_bytes b ctx ty (instruction_bytes ?s1) (cur_instruction_length ?s1) present extra cur"
      "instructions_saved c = instructions_saved (counts s) + 1"
    for h s2 c
  proof -
    have "proceeds ?s1 h s2" using that(1,2) by (simp add: proceeds_def)
    with s1 have "proceeds s ([] @ h) s2" by (rule proceeds_trans)
    then have "proceeds s (([] @ h) @ []) (s2\<lparr>flush_required := True, counts := c\<rparr>)"
      using proceeds_modify(3) by (rule proceeds_trans)
    then show ?thesis using that(3,4) by (intro D) simp_all
  qed
  show ?thesis
    unfolding save_interesting_def ends_andthen ends_simps
  proof (rule ends_record [OF ok1])
    fix h assume "written h = record_bytes b ctx ty (instruction_bytes ?s1)
        (cur_instruction_length ?s1) present extra cur" "\<forall>c\<in>fst ` set h. filing c"
    from good [OF refl this(2,1)] n
    show "if EFI_SUCCESS \<noteq> EFI_SUCCESS then
        ends (saving_failed b e ctx cur (instruction_bytes ?s1) (cur_instruction_length ?s1) present extra
          disasm_length (?s1\<lparr>trace := trace ?s1 @ h\<rparr>))
          (\<lambda>_ s'. D () (s'\<lparr>flush_required := True,
             counts := (counts s')\<lparr>instructions_saved := instructions_saved (counts s') + 1\<rparr>\<rparr>)) U H
      else D () (?s1\<lparr>trace := trace ?s1 @ h, flush_required := True,
             counts := (counts (?s1\<lparr>trace := trace ?s1 @ h\<rparr>))\<lparr>instructions_saved :=
               instructions_saved (counts (?s1\<lparr>trace := trace ?s1 @ h\<rparr>)) + 1\<rparr>\<rparr>)"
      by simp
  next
    fix st h assume "st \<noteq> EFI_SUCCESS" "write_failed h"
    moreover have "can_save b (?s1\<lparr>trace := trace ?s1 @ h\<rparr>)" using ok1 by (simp add: can_save_def)
    ultimately show "if st \<noteq> EFI_SUCCESS then
        ends (saving_failed b e ctx cur (instruction_bytes ?s1) (cur_instruction_length ?s1) present extra
          disasm_length (?s1\<lparr>trace := trace ?s1 @ h\<rparr>))
          (\<lambda>_ s'. D () (s'\<lparr>flush_required := True,
             counts := (counts s')\<lparr>instructions_saved := instructions_saved (counts s') + 1\<rparr>\<rparr>)) U H
      else D () (?s1\<lparr>trace := trace ?s1 @ h, flush_required := True,
             counts := (counts (?s1\<lparr>trace := trace ?s1 @ h\<rparr>))\<lparr>instructions_saved :=
               instructions_saved (counts (?s1\<lparr>trace := trace ?s1 @ h\<rparr>)) + 1\<rparr>\<rparr>)"
      using H by (simp add: ends_saving_failed)
  qed
qed

lemma proceeds_then:
  "proceeds s h s1 \<Longrightarrow> \<forall>c\<in>fst ` set k. quiet c \<Longrightarrow> proceeds s (h @ k) (s1\<lparr>trace := trace s1 @ k\<rparr>)"
  by (erule proceeds_trans) (rule proceeds_trace)

lemma proceeds_flush:
  "proceeds s h s1 \<Longrightarrow> proceeds s h (s1\<lparr>flush_required := f\<rparr>)"
  using proceeds_trans [OF _ proceeds_modify(2), of s h s1 f] by simp

text \<open>A quiet part in the middle of a run.\<close>

lemma ends_quiet:
  assumes "talks s1 quiet m" and "proceeds s h s1"
    and D: "\<And>a k s2. proceeds s k s2 \<Longrightarrow> written k = written h \<Longrightarrow> copied k = copied h \<Longrightarrow>
      counts s2 = counts s1 \<Longrightarrow> D a s2"
  shows "ends (m s1) D U H"
proof (rule ends_talks [OF assms(1)])
  fix a and k :: history
  assume q: "\<forall>c\<in>fst ` set k. quiet c"
  have "written (h @ k) = written h" "copied (h @ k) = copied h"
    using written_quiet [OF q] copied_filing [of k] q quiet_filing by simp_all
  with proceeds_then [OF assms(2) q] show "D a (s1\<lparr>trace := trace s1 @ k\<rparr>)" by (rule D) simp
qed

lemma ends_periodic_report:
  assumes ok: "can_save b s"
    and D: "\<And>h s1. proceeds s h s1 \<Longrightarrow> written h = [] \<Longrightarrow>
      instructions_saved (counts s1) = instructions_saved (counts s) \<Longrightarrow> D () s1"
  shows "ends (periodic_report b e ctx cur present extra disasm_length s) D U H"
proof -
  let ?s1 = "s\<lparr>counts := (counts s)\<lparr>unique_instructions_executed :=
      unique_instructions_executed (counts s) + 1\<rparr>\<rparr>"
  have s1: "proceeds s [] ?s1" by (rule proceeds_modify)
  have save: "no_save b \<or> output_file s2 \<noteq> 0" "counters_known b s2" if "proceeds s h s2" for h s2
    using can_save_proceeds [OF that, of b] ok by (simp_all add: can_save_def)
  have last: "ends (print e (wide crlf) s2) D U H" if p: "proceeds s h s2" and w: "written h = []"
    and n: "counts s2 = counts ?s1" for h s2
    using ends_quiet [OF talks_print p] D w n by simp
  have flush: "ends (print e str s2) (\<lambda>_ s3.
      ends (flush_save_file b e s3) (\<lambda>_ s4. ends (print e (wide crlf) (s4\<lparr>flush_required := False\<rparr>)) D U H) U H) U H"
    if p: "proceeds s h s2" and w: "written h = []" and n: "counts s2 = counts ?s1" for h s2 str
  proof (rule ends_quiet [OF talks_print p])
    fix k s3 assume p3: "proceeds s k s3" and w3: "written k = written h" and n3: "counts s3 = counts s2"
    show "ends (flush_save_file b e s3) (\<lambda>_ s4. ends (print e (wide crlf) (s4\<lparr>flush_required := False\<rparr>)) D U H) U H"
      using talks_flush [OF save(1) [OF p3]] p3
      by (rule ends_quiet) (rule last [OF proceeds_flush], simp_all add: w w3 n n3)
  qed
  have dump: "ends (dump_stats b e ctx bytes len present extra cur disasm_length ?s1) (\<lambda>_ s2.
      if flush_required s2 then
        ends (print e (wide (''Flushing save file'' @ crlf)) s2) (\<lambda>_ s3.
          ends (flush_save_file b e s3) (\<lambda>_ s4. ends (print e (wide crlf) (s4\<lparr>flush_required := False\<rparr>)) D U H) U H) U H
      else ends (print e (wide crlf) s2) D U H) U H" for bytes len
    using talks_dump_stats [OF save(2) [OF s1] save(1) [OF s1]] s1
    by (rule ends_quiet) (simp add: flush last)
  show ?thesis
    unfolding periodic_report_def ends_andthen ends_simps
    using dump D [OF s1] by simp
qed

text \<open>The search: one step onward, or the end of the session.\<close>

definition moved :: "build \<Rightarrow> 'z loop_state_scheme \<Rightarrow> 'z loop_state_scheme \<Rightarrow> bool" where
  "moved b s s' \<longleftrightarrow> (\<exists>bytes idx len malformed last_len.
     advance (cpu_mode b) (instruction_bytes s) (cur_byte_index s) (cur_instruction_length s)
       (last_instruction_length s) = (Candidate bytes idx len malformed, last_len) \<and>
     s' = s\<lparr>instruction_bytes := bytes, cur_byte_index := idx, cur_instruction_length := len,
            last_instruction_length := last_len, malformed_instruction_expect_ud := malformed\<rparr>)"

definition at_end :: "build \<Rightarrow> 'z loop_state_scheme \<Rightarrow> bool" where
  "at_end b s \<longleftrightarrow> (\<exists>bytes last_len.
     advance (cpu_mode b) (instruction_bytes s) (cur_byte_index s) (cur_instruction_length s)
       (last_instruction_length s) = (Exhausted bytes, last_len))"

lemma ends_move_on:
  assumes ok: "loop_ok b s" and save: "can_save b s"
    and D: "\<And>s'. moved b s s' \<Longrightarrow> D () s'"
    and H: "\<And>s' h. at_end b s \<Longrightarrow> trace s' = trace s @ h \<Longrightarrow> written h = [] \<Longrightarrow> H s'"
  shows "ends (move_on b e s) D U H"
proof -
  obtain r last_len where adv: "advance (cpu_mode b) (instruction_bytes s) (cur_byte_index s)
      (cur_instruction_length s) (last_instruction_length s) = (r, last_len)" by fastforce
  have inv: "search_inv (cpu_mode b) (instruction_bytes s) (cur_byte_index s) (cur_instruction_length s)"
    using ok by (simp add: loop_ok_def search_of_def search_ok_def)
  show ?thesis
  proof (cases r)
    case (Candidate bytes idx len malformed)
    then have "moved b s (s\<lparr>instruction_bytes := bytes, cur_byte_index := idx,
        cur_instruction_length := len, last_instruction_length := last_len,
        malformed_instruction_expect_ud := malformed\<rparr>)"
      using adv by (auto simp: moved_def)
    then show ?thesis using adv Candidate D by (simp add: move_on_def)
  next
    case Search_Fault
    then show ?thesis using advance_no_fault [OF inv] adv by (metis fst_conv)
  next
    case (Exhausted bytes)
    let ?s = "s\<lparr>instruction_bytes := bytes, cur_byte_index := 0, last_instruction_length := last_len\<rparr>"
    have e: "at_end b s" using adv Exhausted by (auto simp: at_end_def)
    have opened: "output_file ?s \<noteq> 0" using save by (simp add: can_save_def)
    have close: "ends (andthen (close_save_file b e) (\<lambda>_. halt_cpu e) (?s\<lparr>trace := trace ?s @ h\<rparr>)) D U H"
      if q: "\<forall>c\<in>fst ` set h. quiet c" for h
      using opened H [OF e] written_quiet [OF q] by (intro ends_close_halt) auto
    have tk: "talks ?s quiet (andthen (get_save_file_position b e) (\<lambda>position.
         printf e (''Done, 0x%lx instructions saved (0x%lx bytes), closing file'' @ crlf)
           [VInt (instructions_saved (counts s)), VInt position]))"
      using opened by (intro talks_andthen talks_position talks_printf) simp_all
    have "ends ((andthen (get_save_file_position b e) (\<lambda>position.
         printf e (''Done, 0x%lx instructions saved (0x%lx bytes), closing file'' @ crlf)
           [VInt (instructions_saved (counts s)), VInt position])) ?s)
        (\<lambda>_ s'. ends (andthen (close_save_file b e) (\<lambda>_. halt_cpu e) s') D U H) U H"
      by (rule ends_talks [OF tk]) (rule close)
    then show ?thesis using adv Exhausted by (simp add: move_on_def ends_andthen)
  qed
qed

section \<open>An instruction judged\<close>

text \<open>What XED says of the current instruction, as it enters the verdict.\<close>

definition saved_as ::
  "build \<Rightarrow> exception_context \<Rightarrow> u64 list \<Rightarrow> 'z loop_state_scheme \<Rightarrow> u64 \<Rightarrow> instruction_type" where
  "saved_as b ctx cur s xed_length =
     verdict b ctx (xed_length \<noteq> 0)
       (xed_length \<noteq> 0 \<and> of_nat (cur_instruction_length s) \<noteq> xed_length)
       (cur ! INST_RETIRED_NOP b \<noteq> 0)
       (perf_counters_values_match b cur (ud_perf_counters_values s))"

text \<open>What XED is asked about the current instruction, and the length its answer stands for.\<close>

definition xed_question :: "build \<Rightarrow> 'z loop_state_scheme \<Rightarrow> call" where
  "xed_question b s = XedDecode (cpu_mode b) (disasm_xed_chip s)
     (take (cur_instruction_length s) (instruction_bytes s))"

definition xed_answer :: "reply \<Rightarrow> u64" where
  "xed_answer r = (if status r \<noteq> 0 then 0 else val0 r)"

text \<open>What the file grows by: the record of the verdict, or nothing.\<close>

definition verdict_bytes ::
  "build \<Rightarrow> exception_context \<Rightarrow> u64 list \<Rightarrow> 'z loop_state_scheme \<Rightarrow> u64 \<Rightarrow> u64 \<Rightarrow> u8 list" where
  "verdict_bytes b ctx cur s xed_length extra =
     (if saved_as b ctx cur s xed_length = NOT_INTERESTING then []
      else record_bytes b ctx (saved_as b ctx cur s xed_length) (instruction_bytes s)
             (cur_instruction_length s) (has_extra ctx) extra cur)"

text \<open>The program's own count of saved instructions has followed what \<open>h\<close> wrote.\<close>

definition tallied :: "'z loop_state_scheme \<Rightarrow> history \<Rightarrow> 'z loop_state_scheme \<Rightarrow> bool" where
  "tallied s h s' \<longleftrightarrow> instructions_saved (counts s') =
     instructions_saved (counts s) + (if written h = [] then 0 else 1)"

text \<open>The history \<open>h\<close> of a judgement: XED was asked, and its answer gives the verdict; the CPU was asked
  for the extra information.\<close>

definition judged ::
  "build \<Rightarrow> exception_context \<Rightarrow> u64 list \<Rightarrow> 'z loop_state_scheme \<Rightarrow> history \<Rightarrow> bool" where
  "judged b ctx cur s h \<longleftrightarrow>
     (exception_number ctx = EXCEPTION_INVALID_OPCODE \<longrightarrow>
        \<not> restart_required b cur (last_perf_counters_values s)) \<and>
     (\<exists>r extra. (xed_question b s, r) \<in> set h \<and> (has_extra ctx \<longrightarrow> extra_from ctx h extra) \<and>
        written h = verdict_bytes b ctx cur s (xed_answer r) extra)"

lemma judged_append:
  "judged b ctx cur s h \<Longrightarrow> written k = [] \<Longrightarrow> judged b ctx cur s (h @ k)"
  "judged b ctx cur s h \<Longrightarrow> written k = [] \<Longrightarrow> judged b ctx cur s (k @ h)"
  by (auto simp: judged_def intro: extra_from_append)

lemma ends_disasm:
  assumes "\<And>r h. h = [(xed_question b s, r)] \<Longrightarrow> D (xed_answer r) (s\<lparr>trace := trace s @ h\<rparr>)"
  shows "ends (disasm_get_instruction_length b e (instruction_bytes s) (cur_instruction_length s) s) D U H"
  using assms
  by (simp add: disasm_get_instruction_length_def run_simps xed_question_def xed_answer_def emit_def)

lemma starts_again_trace:
  assumes "proceeds s h (s\<lparr>trace := t\<rparr>)" and "written h = []"
    and "starts_again b ctx cur (s\<lparr>trace := t\<rparr>) s'"
  shows "starts_again b ctx cur s s'"
proof -
  obtain k s2 where 2: "proceeds (s\<lparr>trace := t\<rparr>) k s2" "written k = []" "counts s2 = counts s"
    "unstable b ctx cur (last_perf_counters_values s) \<and> last_perf_counters_values s2 = cur \<and> starts b s2 s' \<or>
     fetch_fault ctx \<and> cur_instruction_length s < 15 \<and> starts b (longer s2) s'"
    using assms(3) unfolding starts_again_def by auto
  have "proceeds s (h @ k) s2" using assms(1) 2(1) by (rule proceeds_trans)
  then show ?thesis using 2(2-4) assms(2) unfolding starts_again_def
    by (intro exI [of _ "h @ k"] exI [of _ s2]) simp
qed

lemma ends_save_or_skip:
  assumes save: "can_save b s1" and p: "proceeds s h s1" and n: "counts s1 = counts s"
    and D: "\<And>k s2. proceeds s (h @ k) s2 \<Longrightarrow>
      written k = (if ty = NOT_INTERESTING then [] else record_bytes b ctx ty (instruction_bytes s)
        (cur_instruction_length s) present extra cur) \<Longrightarrow>
      instructions_saved (counts s2) =
        instructions_saved (counts s) + (if ty = NOT_INTERESTING then 0 else 1) \<Longrightarrow> D () s2"
    and H: "\<And>s'. write_failed (trace s') \<Longrightarrow> H s'"
  shows "ends (only_if (ty \<noteq> NOT_INTERESTING)
           (save_interesting b e ctx cur ty present extra xed_length) s1) D U H"
proof (cases "ty = NOT_INTERESTING")
  case True
  then show ?thesis using D [of "[]" s1] p n by (simp add: ends_simps)
next
  case False
  have f: "instruction_bytes s1 = instruction_bytes s" "cur_instruction_length s1 = cur_instruction_length s"
    using proceeds_fields [OF p] by simp_all
  have "ends (save_interesting b e ctx cur ty present extra xed_length s1) D U H"
  proof (rule ends_save_interesting [OF save])
    fix k s2
    assume k: "proceeds s1 k s2" "written k = record_bytes b ctx ty (instruction_bytes s1)
        (cur_instruction_length s1) present extra cur"
      "instructions_saved (counts s2) = instructions_saved (counts s1) + 1"
    show "D () s2" using D [OF proceeds_trans [OF p k(1)]] k(2,3) f n False by simp
  qed (rule H)
  then show ?thesis using False by (simp add: ends_simps)
qed

lemma ends_check_last_instruction:
  assumes ok: "loop_ok b s" and save: "can_save b s"
    and U: "\<And>s'. starts_again b ctx cur s s' \<Longrightarrow> U s'"
    and D: "\<And>h s1 s2. proceeds s h s1 \<Longrightarrow> judged b ctx cur s h \<Longrightarrow> tallied s h s1 \<Longrightarrow> moved b s1 s2 \<Longrightarrow>
      D () s2"
    and F: "\<And>s'. write_failed (trace s') \<Longrightarrow> H s'"
    and E: "\<And>h s1 s' k. proceeds s h s1 \<Longrightarrow> judged b ctx cur s h \<Longrightarrow> at_end b s1 \<Longrightarrow>
      trace s' = trace s1 @ k \<Longrightarrow> written k = [] \<Longrightarrow> H s'"
  shows "ends (check_last_instruction b e ctx cur s) D U H"
proof -
  have n: "length (instruction_bytes s) = 15"
    using ok by (simp add: loop_ok_def search_of_def search_ok_def search_inv_def)
  show ?thesis unfolding check_last_instruction_def ends_andthen
  proof (rule ends_check_privilege [OF n U], goal_cases)
    case (2 h)
    let ?s1 = "s\<lparr>trace := trace s @ h\<rparr>"
    have p1: "proceeds s h ?s1" using 2 by (rule proceeds_trace)
    have w1: "written h = []" using 2 by (rule written_quiet)
    have m: "\<not> malformed_instruction_expect_ud ?s1" using ok by (simp add: loop_ok_def)
    show ?case
      unfolding ends_andthen ends_simps Let_def
    proof (rule ends_disasm, goal_cases)
      case (1 r k)
      let ?xed = "xed_answer r" and ?s2 = "?s1\<lparr>trace := trace ?s1 @ k\<rparr>"
      have k: "k = [(xed_question b s, r)]" using 1 by (simp add: xed_question_def)
      then have q: "\<forall>c\<in>fst ` set k. quiet c" by (simp add: xed_question_def)
      have p2: "proceeds s (h @ k) ?s2" using p1 q by (rule proceeds_then)
      have w2: "written (h @ k) = []" using w1 written_quiet [OF q] by simp
      show ?case unfolding ends_andthen
      proof (rule ends_classify [where known = "?xed \<noteq> 0" and
            mismatch = "?xed \<noteq> 0 \<and> of_nat (cur_instruction_length s) \<noteq> ?xed"], goal_cases)
        case (1 s')
        have "proceeds s (h @ k) (s\<lparr>trace := trace s @ h @ k\<rparr>)" using p2 by simp
        from U [OF starts_again_trace [OF this w2]] 1 show ?case by simp
      next
        case (2 j extra s3)
        have p3: "proceeds s ((h @ k) @ j) s3" using p2 2(2) by (rule proceeds_trans)
        have w3: "written ((h @ k) @ j) = []" using w2 written_quiet [OF 2(1)] by simp
        have c3: "can_save b s3" using can_save_proceeds [OF p3] save by simp
        have ty: "verdict b ctx (?xed \<noteq> 0) (?xed \<noteq> 0 \<and> of_nat (cur_instruction_length s) \<noteq> ?xed)
            (cur ! INST_RETIRED_NOP b \<noteq> 0) (perf_counters_values_match b cur (ud_perf_counters_values ?s2)) =
            saved_as b ctx cur s ?xed"
          by (simp add: saved_as_def)
        have n3: "counts s3 = counts s" using 2(5) by simp
        show ?case unfolding prod.case ends_andthen ty
        proof (rule ends_save_or_skip [OF c3 p3 n3 _ F], goal_cases)
          case (1 i s4)
          let ?i = "((h @ k) @ j) @ i"
          have p4: "proceeds s ?i s4" using 1(1) by simp
          have "(xed_question b s, r) \<in> set ?i" using k by simp
          moreover have "written ?i = written i" using w3 by simp
          moreover have "has_extra ctx \<longrightarrow> extra_from ctx ?i extra"
            using 2(4) extra_from_append by blast
          ultimately have j4: "judged b ctx cur s ?i"
            using 1(2) 2(3) unfolding judged_def verdict_bytes_def by auto
          show ?case
          proof (rule ends_periodic_report, goal_cases)
            case 1
            show ?case using can_save_proceeds [OF p4] save by simp
          next
            case (2 g s5)
            have p5: "proceeds s (?i @ g) s5" using p4 2(1) by (rule proceeds_trans)
            have j5: "judged b ctx cur s (?i @ g)" using j4 2(2) by (rule judged_append)
            have t5: "tallied s (?i @ g) s5" using 1(2,3) 2(2,3) w3
              by (simp add: tallied_def record_bytes_def)
            have "loop_ok b s5" "can_save b s5"
              using proceeds_fields(13) [OF p5] can_save_proceeds [OF p5] ok save by simp_all
            then show ?case using D [OF p5 j5 t5] E [OF p5 j5] by (rule ends_move_on)
          qed
        qed
      next
        case 3
        then show ?case using m by simp
      qed
    qed
  qed simp
qed

section \<open>The handler outside the measurements\<close>

definition searching :: "build \<Rightarrow> 'z loop_state_scheme \<Rightarrow> bool" where
  "searching b s \<longleftrightarrow> \<not> measuring_ud s \<and> \<not> (count_nops b \<and> measuring_nop s)"

text \<open>The instruction was judged, the search moved on, and the next instruction was started.\<close>

definition stepped ::
  "build \<Rightarrow> exception_context \<Rightarrow> u64 list \<Rightarrow> 'z loop_state_scheme \<Rightarrow> 'z loop_state_scheme \<Rightarrow> bool" where
  "stepped b ctx cur s s' \<longleftrightarrow> (\<exists>h s1 s2. proceeds s h s1 \<and> judged b ctx cur s h \<and> tallied s h s1 \<and>
     moved b s1 s2 \<and> starts b s2 s')"

text \<open>The instruction was judged and was the last one.\<close>

definition finished ::
  "build \<Rightarrow> exception_context \<Rightarrow> u64 list \<Rightarrow> 'z loop_state_scheme \<Rightarrow> 'z loop_state_scheme \<Rightarrow> bool" where
  "finished b ctx cur s s' \<longleftrightarrow> (\<exists>h s1 k. proceeds s h s1 \<and> judged b ctx cur s h \<and> at_end b s1 \<and>
     trace s' = trace s1 @ k \<and> written k = [])"

lemma read_counters_length: "read_counters e xs s = Done vs s' \<Longrightarrow> length vs = length xs"
  by (induction xs arbitrary: vs s s') (auto simp: run_simps rdpmc_def bind_Done)

text \<open>The values the handler reads first.\<close>

definition counters_read :: "build \<Rightarrow> env \<Rightarrow> 'z world_scheme \<Rightarrow> u64 list" where
  "counters_read b e s =
     (case read_counters e [0..<PERF_EVENTS_COUNT b] s of Done vs s' \<Rightarrow> vs | _ \<Rightarrow> [])"

lemma counters_read_length: "length (counters_read b e s) = PERF_EVENTS_COUNT b"
proof -
  obtain a h where "read_counters e [0..<PERF_EVENTS_COUNT b] s = Done a (s\<lparr>trace := trace s @ h\<rparr>)"
    using talks_read_counters by (rule talksE)
  then show ?thesis using read_counters_length by (fastforce simp: counters_read_def)
qed

lemma judged_trace: "judged b ctx cur (s\<lparr>trace := t\<rparr>) h = judged b ctx cur s h"
  by (simp add: judged_def verdict_bytes_def saved_as_def xed_question_def)

lemma ends_handle_exception:
  assumes ok: "loop_ok b s" and save: "can_save b s" and search: "searching b s"
  shows "ends (handle_exception b e ctx s) (\<lambda>_ _. False)
    (\<lambda>s'. starts_again b ctx (counters_read b e s) s s' \<or> stepped b ctx (counters_read b e s) s s')
    (\<lambda>s'. write_failed (trace s') \<or> finished b ctx (counters_read b e s) s s')"
    (is "ends _ ?D ?U ?H")
proof -
  let ?cur = "counters_read b e s"
  show ?thesis unfolding handle_exception_def ends_andthen
  proof (rule ends_talks [OF talks_read_counters], goal_cases)
    case (1 cur h)
    let ?s1 = "s\<lparr>trace := trace s @ h\<rparr>"
    have cur: "cur = ?cur" using 1(2) by (simp add: counters_read_def)
    have p1: "proceeds s h ?s1" using 1(1) by (rule proceeds_trace)
    have w1: "written h = []" using 1(1) by (rule written_quiet)
    have ok1: "loop_ok b ?s1" "can_save b ?s1"
      using proceeds_fields(13) [OF p1] can_save_proceeds [OF p1] ok save by simp_all
    have m: "\<not> measuring_ud ?s1" "\<not> (count_nops b \<and> measuring_nop ?s1)"
      using search by (simp_all add: searching_def)
    have tally: "tallied s (h @ k) s2" if "tallied ?s1 k s2" for k s2
      using that w1 by (simp add: tallied_def)
    have shift: "proceeds s (h @ k) s2 \<and> judged b ctx ?cur s (h @ k)"
      if "proceeds ?s1 k s2" "judged b ctx ?cur ?s1 k" for k s2
      using proceeds_trans [OF p1 that(1)] judged_append(2) [OF _ w1] that(2) judged_trace by blast
    have "ends (check_last_instruction b e ctx ?cur ?s1)
        (\<lambda>_ s2. ends (execute_current_instruction b e s2) ?D ?U ?H) ?U ?H"
    proof (rule ends_check_last_instruction [OF ok1], goal_cases)
      case (1 s')
      then show ?case using starts_again_trace [OF p1 w1] by blast
    next
      case (2 k s2 s3)
      then show ?case using shift tally unfolding stepped_def
        by (intro execute_current_starts disjI2) blast
    next
      case (3 s')
      then show ?case by simp
    next
      case (4 k s2 s' j)
      then show ?case using shift unfolding finished_def by blast
    qed
    then show ?case using m cur by (auto simp: ends_andthen ends_simps)
  qed
qed

section \<open>What the outcomes mean for the search\<close>

lemma extends_same:
  assumes "extends s cs s'"
  shows "search_of s' = search_of s" and "loop_ok b s' = loop_ok b s" and "can_save b s' = can_save b s"
    and "searching b s' = searching b s"
    and "ud_perf_counters_values s' = ud_perf_counters_values s"
    and "nop_perf_counters_values s' = nop_perf_counters_values s"
    and "\<exists>h. trace s' = trace s @ h \<and> map fst h = cs" and "counts s' = counts s"
  using assms
  by (auto simp: extends_def search_of_def loop_ok_def can_save_def searching_def)

lemma written_run_calls: "map fst h = run_calls b s ins n \<Longrightarrow> written h = []"
proof -
  assume h: "map fst h = run_calls b s ins n"
  have "\<forall>c\<in>set (run_calls b s ins n). \<forall>r. call_bytes c r = []"
    by (auto simp: run_calls_def Let_def)
  then have "\<forall>(c, r)\<in>set h. call_bytes c r = []" using h [symmetric] by auto
  then show ?thesis by (auto simp: written_def)
qed

lemma copied_map_fst: "copied h = concat (map copied_call (map fst h))"
  by (induction h) auto

lemma copied_run_calls: "map fst h = run_calls b s ins n \<Longrightarrow> copied h = [take n ins]"
  by (simp add: copied_map_fst run_calls_def Let_def)

lemma starts_outcome:
  assumes "starts b s s'"
  shows "search_of s' = search_of s" and "loop_ok b s' = loop_ok b s" and "can_save b s' = can_save b s"
    and "searching b s' = searching b s"
    and "ud_perf_counters_values s' = ud_perf_counters_values s"
    and "nop_perf_counters_values s' = nop_perf_counters_values s"
    and "written (trace s') = written (trace s)"
    and "copied (trace s') = copied (trace s) @ [take (cur_instruction_length s) (instruction_bytes s)]"
    and "counts s' = counts s"
  using extends_same [OF assms [unfolded starts_def]] written_run_calls copied_run_calls by auto

lemma moved_step:
  assumes "moved b s s'" and "loop_ok b s"
  shows "search_step (cpu_mode b) (search_of s) (search_of s')" and "loop_ok b s'"
    and "searching b s' = searching b s" and "can_save b s' = can_save b s"
    and "trace s' = trace s" and "ud_perf_counters_values s' = ud_perf_counters_values s"
    and "nop_perf_counters_values s' = nop_perf_counters_values s"
proof -
  obtain bytes idx len mal last_len where
    adv: "advance (cpu_mode b) (instruction_bytes s) (cur_byte_index s) (cur_instruction_length s)
       (last_instruction_length s) = (Candidate bytes idx len mal, last_len)"
    and s': "s' = s\<lparr>instruction_bytes := bytes, cur_byte_index := idx, cur_instruction_length := len,
            last_instruction_length := last_len, malformed_instruction_expect_ud := mal\<rparr>"
    using assms(1) by (auto simp: moved_def)
  show step: "search_step (cpu_mode b) (search_of s) (search_of s')"
    using adv by (auto simp: search_of_def s' intro: search_step.onward)
  have "search_ok (cpu_mode b) (search_of s)" using assms(2) by (simp add: loop_ok_def)
  with step have "search_ok (cpu_mode b) (search_of s')" using search_step_ok by blast
  moreover have "\<not> mal" using advance_candidate [OF _ adv] assms(2)
    by (simp add: loop_ok_def search_ok_def search_of_def)
  ultimately show "loop_ok b s'" using assms(2) by (simp add: loop_ok_def s' counters_known_def)
  show "searching b s' = searching b s" "can_save b s' = can_save b s" "trace s' = trace s"
    "ud_perf_counters_values s' = ud_perf_counters_values s"
    "nop_perf_counters_values s' = nop_perf_counters_values s"
    by (simp_all add: s' searching_def can_save_def counters_known_def)
qed

lemma longer_step:
  assumes "cur_instruction_length s < 15" and "loop_ok b s"
  shows "search_step (cpu_mode b) (search_of s) (search_of (longer s))" and "loop_ok b (longer s)"
    and "searching b (longer s) = searching b s" and "can_save b (longer s) = can_save b s"
    and "trace (longer s) = trace s"
    and "ud_perf_counters_values (longer s) = ud_perf_counters_values s"
    and "nop_perf_counters_values (longer s) = nop_perf_counters_values s"
proof -
  show step: "search_step (cpu_mode b) (search_of s) (search_of (longer s))"
    using search_step.longer [OF assms(1)] by (simp add: search_of_def longer_def)
  have "search_ok (cpu_mode b) (search_of s)" using assms(2) by (simp add: loop_ok_def)
  with step have "search_ok (cpu_mode b) (search_of (longer s))" using search_step_ok by blast
  then show "loop_ok b (longer s)" using assms(2) by (simp add: loop_ok_def longer_def counters_known_def)
  show "searching b (longer s) = searching b s" "can_save b (longer s) = can_save b s"
    "trace (longer s) = trace s"
    "ud_perf_counters_values (longer s) = ud_perf_counters_values s"
    "nop_perf_counters_values (longer s) = nop_perf_counters_values s"
    by (simp_all add: longer_def searching_def can_save_def counters_known_def)
qed

end
