(* ===== verification/Measurement.thy ===== *)
theory Measurement
  imports Handler
begin

text \<open>
  The first exceptions of a session: \<open>ud2\<close>, and \<open>nop\<close> in builds that count it, are run until two
  runs in a row give the same counter values; these are written at the head of the file.
\<close>

section \<open>The parts both measurements share\<close>

text \<open>\<open>s'\<close> is \<open>s\<close> after calls that only add \<open>data\<close> to the file.\<close>

definition files :: "'z loop_state_scheme \<Rightarrow> u8 list \<Rightarrow> 'z loop_state_scheme \<Rightarrow> bool" where
  "files s data s' \<longleftrightarrow> (\<exists>h. s' = s\<lparr>trace := trace s @ h\<rparr> \<and> (\<forall>c\<in>fst ` set h. filing c) \<and> written h = data)"

lemma files_quiet: "\<forall>c\<in>fst ` set h. quiet c \<Longrightarrow> files s [] (s\<lparr>trace := trace s @ h\<rparr>)"
  unfolding files_def using written_quiet quiet_filing by blast

lemma files_trans: "files s d s1 \<Longrightarrow> files s1 d' s2 \<Longrightarrow> files s (d @ d') s2"
proof -
  assume "files s d s1" "files s1 d' s2"
  then obtain h k where h: "s1 = s\<lparr>trace := trace s @ h\<rparr>" "\<forall>c\<in>fst ` set h. filing c" "written h = d"
    and k: "s2 = s1\<lparr>trace := trace s1 @ k\<rparr>" "\<forall>c\<in>fst ` set k. filing c" "written k = d'"
    unfolding files_def by blast
  then show ?thesis unfolding files_def
    by (intro exI [of _ "h @ k"]) (simp add: image_Un ball_Un)
qed

lemma files_same:
  assumes "files s d s'"
  shows "search_of s' = search_of s" and "loop_ok b s' = loop_ok b s" and "can_save b s' = can_save b s"
    and "searching b s' = searching b s"
    and "measuring_ud s' = measuring_ud s" and "measuring_nop s' = measuring_nop s"
    and "ud_perf_counters_values s' = ud_perf_counters_values s"
    and "nop_perf_counters_values s' = nop_perf_counters_values s"
    and "written (trace s') = written (trace s) @ d" and "copied (trace s') = copied (trace s)"
    and "counts s' = counts s"
proof -
  obtain h where h: "s' = s\<lparr>trace := trace s @ h\<rparr>" "\<forall>c\<in>fst ` set h. filing c" "written h = d"
    using assms unfolding files_def by blast
  then show "search_of s' = search_of s" "loop_ok b s' = loop_ok b s" "can_save b s' = can_save b s"
    "searching b s' = searching b s"
    "measuring_ud s' = measuring_ud s" "measuring_nop s' = measuring_nop s"
    "ud_perf_counters_values s' = ud_perf_counters_values s"
    "nop_perf_counters_values s' = nop_perf_counters_values s"
    "written (trace s') = written (trace s) @ d" "copied (trace s') = copied (trace s)"
    "counts s' = counts s"
    by (simp_all add: search_of_def loop_ok_def can_save_def searching_def copied_filing)
qed

lemma ends_files:
  assumes "talks s quiet m" and "\<And>a s'. files s [] s' \<Longrightarrow> D a s'"
  shows "ends (m s) D U H"
proof (rule ends_talks [OF assms(1)])
  fix a and h :: history
  assume "\<forall>c\<in>fst ` set h. quiet c"
  then show "D a (s\<lparr>trace := trace s @ h\<rparr>)" by (intro assms(2) files_quiet)
qed

lemma ends_save_array:
  fixes s :: "'z loop_state_scheme"
  assumes "can_save b s"
    and "\<And>s'. files s (concat (map leb128 vs)) s' \<Longrightarrow> D EFI_SUCCESS s'"
    and "\<And>st s'. st \<noteq> EFI_SUCCESS \<Longrightarrow> can_save b s' \<Longrightarrow> write_failed (trace s') \<Longrightarrow> D st s'"
  shows "ends (save_uint64_array e vs s) D U H"
proof -
  have "output_file s \<noteq> 0" using assms(1) by (simp add: can_save_def)
  from save_array.emits [OF this] obtain st h where
    run: "save_uint64_array e vs s = Done st (s\<lparr>trace := trace s @ h\<rparr>)"
    and out: "if st = EFI_SUCCESS then written h = concat (map leb128 vs) else write_failed h"
    and f: "\<forall>c\<in>fst ` set h. filing c"
    by blast
  show ?thesis
  proof (cases "st = EFI_SUCCESS")
    case True
    then have "files s (concat (map leb128 vs)) (s\<lparr>trace := trace s @ h\<rparr>)"
      using out f unfolding files_def by auto
    then show ?thesis unfolding run using assms(2) True by simp
  next
    case False
    have "can_save b (s\<lparr>trace := trace s @ h\<rparr>)" using assms(1) by (simp add: can_save_def)
    then show ?thesis unfolding run using assms(3) False out by simp
  qed
qed

text \<open>The measured values are shown and saved, or the session stops because the firmware refused.\<close>

lemma ends_save_reference:
  fixes s :: "'z loop_state_scheme"
  assumes ok: "can_save b s" and what: "CHR ''%'' \<notin> set what"
    and D: "\<And>s'. files s (concat (map leb128 vs)) s' \<Longrightarrow> D () s'"
    and H: "\<And>s'. write_failed (trace s') \<Longrightarrow> H s'"
  shows "ends (save_reference_values b e what vs s) D U H"
proof -
  have known: "counters_known b s'" if "files s d s'" for d s'
    using files_same(3) [OF that, of b] ok by (simp add: can_save_def)
  show ?thesis unfolding save_reference_values_def ends_andthen
  proof (rule ends_files [OF talks_print], goal_cases)
    case (1 a s1)
    show ?case
    proof (rule ends_files [OF talks_print_counters [OF known [OF 1]]], goal_cases)
      case (1 a s2)
      have s2: "files s [] s2" using files_trans [OF \<open>files s [] s1\<close> 1] by simp
      have ok2: "can_save b s2" using files_same(3) [OF s2] ok by simp
      show ?case
      proof (rule ends_save_array [OF ok2], goal_cases)
        case (1 s3)
        have s3: "files s (concat (map leb128 vs)) s3" using files_trans [OF s2 1] by simp
        show ?case
        proof (rule ends_files [OF talks_print], goal_cases)
          case (1 a s4)
          then show ?case using files_trans [OF s3 1] by (simp add: D ends_simps)
        qed
      next
        case (2 st s3)
        have fin: "ends (andthen (close_save_file b e) (\<lambda>_. halt_cpu e) s') D U H"
          if "files s3 [] s'" for s'
        proof (rule ends_close_halt)
          show "output_file s' \<noteq> 0" using files_same(3) [OF that, of b] 2(2) by (simp add: can_save_def)
          show "H s''" if "trace s'' = trace s' @ h" for s'' h
            using \<open>files s3 [] s'\<close> 2(3) that by (intro H) (auto simp: files_def)
        qed
        have fin2: "ends (printf e fmt [VInt st] s') (\<lambda>_ s'. ends (print e str s')
            (\<lambda>_ s'. ends (andthen (close_save_file b e) (\<lambda>_. halt_cpu e) s') D U H) U H) U H"
          if "files s3 [] s'" "accepts fmt [VInt st]" for s' fmt str
        proof (rule ends_files [OF talks_printf [OF that(2)]], goal_cases)
          case (1 a s5)
          have s5: "files s3 [] s5" using files_trans [OF that(1) 1] by simp
          show ?case
          proof (rule ends_files [OF talks_print], goal_cases)
            case (1 a s6)
            then show ?case using files_trans [OF s5 1] fin by simp
          qed
        qed
        show ?case using 2(1) fin2 accepts_plain [OF what]
          by (intro ends_files [OF talks_print]) (simp add: ends_andthen)
      qed
    qed
  qed
qed

section \<open>Measuring\<close>

lemma ends_unexpected:
  fixes s :: "'z loop_state_scheme"
  assumes ok: "can_save b s" and what: "CHR ''%'' \<notin> set what" and H: "\<And>s'. H s'"
  shows "ends (unexpected_exception b e ctx what s) D U H"
proof -
  have fin: "ends (andthen (close_save_file b e) (\<lambda>_. halt_cpu e) s') D U H" if "files s [] s'" for s'
    using files_same(3) [OF that, of b] ok by (intro ends_close_halt H) (simp add: can_save_def)
  have one: "ends (printf e fmt args s') P U H"
    if "files s [] s'" "\<And>s''. files s [] s'' \<Longrightarrow> P () s''" "accepts fmt args" for s' fmt args P
  proof (rule ends_files [OF talks_printf [OF that(3)]], goal_cases)
    case (1 a s'')
    then show ?case using files_trans [OF that(1) 1] that(2) by simp
  qed
  have start: "files s [] s" using files_quiet [of "[]" s] by simp
  show ?thesis unfolding unexpected_exception_def Let_def ends_andthen ends_simps
    by (rule one [OF start]) (auto simp: accepts_plain [OF what] intro!: one fin [unfolded ends_andthen])
qed

text \<open>The state is that of \<open>s\<close> but for the history and for the values just measured.\<close>

definition remeasured :: "build \<Rightarrow> 'z loop_state_scheme \<Rightarrow> 'z loop_state_scheme \<Rightarrow> bool" where
  "remeasured b s s' \<longleftrightarrow> loop_ok b s' = loop_ok b s \<and> can_save b s' = can_save b s \<and>
     search_of s' = search_of s \<and> counts s' = counts s \<and> set (copied (trace s)) \<subseteq> set (copied (trace s'))"

lemma remeasured_files: "files s d s' \<Longrightarrow> remeasured b s s'"
  using files_same [of s d s'] by (simp add: remeasured_def)

lemma remeasured_extends: "extends s (run_calls b s ins n) s' \<Longrightarrow> remeasured b s s'"
  using extends_same [of s "run_calls b s ins n" s'] by (auto simp: remeasured_def)

lemma remeasured_trans: "remeasured b s s1 \<Longrightarrow> remeasured b s1 s2 \<Longrightarrow> remeasured b s s2"
  by (auto simp: remeasured_def)

lemma remeasured_update:
  "remeasured b s (s\<lparr>ud_perf_counters_values := v\<rparr>)"
  "remeasured b s (s\<lparr>nop_perf_counters_values := v\<rparr>)"
  "remeasured b s (s\<lparr>measuring_ud := m\<rparr>)"
  "remeasured b s (s\<lparr>measuring_nop := m\<rparr>)"
  by (simp_all add: remeasured_def loop_ok_def can_save_def counters_known_def search_of_def)

lemma extends_written: "extends s (run_calls b s ins n) s' \<Longrightarrow> written (trace s') = written (trace s)"
  using written_run_calls by (fastforce simp: extends_def)

lemma extends_phase:
  "extends s cs s' \<Longrightarrow> measuring_ud s' = measuring_ud s"
  "extends s cs s' \<Longrightarrow> measuring_nop s' = measuring_nop s"
  for s :: "'z loop_state_scheme"
  by (auto simp: extends_def)

lemma ends_execute:
  fixes D :: "'a \<Rightarrow> 'z loop_state_scheme \<Rightarrow> bool"
  assumes "\<And>s'. extends s (run_calls b s ins n) s' \<Longrightarrow> U s'"
  shows "ends (execute_instruction b e ins n s) D U H"
proof -
  obtain s' where "(execute_instruction b e ins n s :: ('a, 'z loop_state_scheme) run) = User s'"
    "extends s (run_calls b s ins n) s'"
    using execute_instruction_extends by blast
  then show ?thesis using assms by simp
qed

text \<open>\<open>x\<close> is what was copied to the code page last.\<close>

definition last_run :: "'z world_scheme \<Rightarrow> u8 list \<Rightarrow> bool" where
  "last_run s x \<longleftrightarrow> copied (trace s) \<noteq> [] \<and> last (copied (trace s)) = x"

lemma last_run_starts:
  "starts b s s' \<Longrightarrow> last_run s' (take (cur_instruction_length s) (instruction_bytes s))"
  by (simp add: last_run_def starts_outcome(8))

text \<open>How a measurement of \<open>ud2\<close> goes on.\<close>

definition ud2_next ::
  "build \<Rightarrow> u64 list \<Rightarrow> 'z loop_state_scheme \<Rightarrow> 'z loop_state_scheme \<Rightarrow> bool" where
  "ud2_next b cur s s' \<longleftrightarrow> remeasured b s s' \<and> ud_perf_counters_values s' = cur \<and>
     (if measuring_ud s' then restart_required b cur (ud_perf_counters_values s) \<and>
        measuring_nop s' = measuring_nop s \<and> written (trace s') = written (trace s)
      else \<not> restart_required b cur (ud_perf_counters_values s) \<and>
        written (trace s') = written (trace s) @ concat (map leb128 cur) \<and>
        (if count_nops b then measuring_nop s'
         else measuring_nop s' = measuring_nop s \<and>
           last_run s' (take (cur_instruction_length s) (instruction_bytes s))))"

lemma ends_check_ud2:
  assumes ok: "can_save b s" and m: "measuring_ud s"
    and U: "\<And>s'. ud2_next b cur s s' \<Longrightarrow> U s'"
    and D: "\<And>s'. remeasured b s s' \<Longrightarrow> \<not> measuring_ud s' \<Longrightarrow> measuring_nop s' = measuring_nop s \<Longrightarrow>
      ud_perf_counters_values s' = cur \<Longrightarrow>
      \<not> restart_required b cur (ud_perf_counters_values s) \<Longrightarrow>
      written (trace s') = written (trace s) @ concat (map leb128 cur) \<Longrightarrow> D () s'"
    and H: "\<And>s'. exception_number ctx \<noteq> EXCEPTION_INVALID_OPCODE \<or> write_failed (trace s') \<Longrightarrow> H s'"
  shows "ends (check_ud2_measurements b e ctx cur s) D U H"
proof -
  let ?s1 = "s\<lparr>ud_perf_counters_values := cur\<rparr>"
  let ?s2 = "?s1\<lparr>measuring_ud := False\<rparr>"
  have r1: "remeasured b s ?s1" by (rule remeasured_update)
  have r2: "remeasured b s ?s2" using r1 remeasured_update(3) by (rule remeasured_trans)
  have again: "ends (execute_ud b e ?s1) D U H" if "restart_required b cur (ud_perf_counters_values s)"
    unfolding execute_ud_def
  proof (rule ends_execute)
    fix s' assume x: "extends ?s1 (run_calls b ?s1 [0x0f, 0x0b] 2) s'"
    have "remeasured b s s'" using r1 remeasured_extends [OF x] by (rule remeasured_trans)
    moreover have "ud_perf_counters_values s' = cur" "measuring_ud s'"
      using extends_same(5) [OF x] extends_phase(1) [OF x] m by simp_all
    ultimately show "U s'" using extends_written [OF x] extends_phase(2) [OF x] that
      by (intro U) (simp add: ud2_next_def)
  qed
  have stable: "ends (save_reference_values b e ''UD2'' cur ?s2) D U H"
    if "\<not> restart_required b cur (ud_perf_counters_values s)"
  proof (rule ends_save_reference)
    show "can_save b ?s2" using r2 ok by (simp add: remeasured_def)
  next
    fix s' assume f: "files ?s2 (concat (map leb128 cur)) s'"
    have "remeasured b s s'" using r2 remeasured_files [OF f] by (rule remeasured_trans)
    then show "D () s'" using files_same [OF f] that by (intro D) simp_all
  qed (simp_all add: H)
  have "ends (unexpected_exception b e ctx ''UD2'' s) D U H"
    if "exception_number ctx \<noteq> EXCEPTION_INVALID_OPCODE"
    using ok H that by (intro ends_unexpected) simp_all
  then show ?thesis
    using again stable
    by (simp add: check_ud2_measurements_def ends_andthen ends_simps)
qed

lemma ends_measure_ud2:
  assumes ok: "can_save b s" and m: "measuring_ud s"
  shows "ends (handle_exception b e ctx s) (\<lambda>_ _. False) (ud2_next b (counters_read b e s) s)
    (\<lambda>s'. exception_number ctx \<noteq> EXCEPTION_INVALID_OPCODE \<or> write_failed (trace s'))"
    (is "ends _ _ ?U ?H")
  unfolding handle_exception_def ends_andthen
proof (rule ends_talks [OF talks_read_counters], goal_cases)
  case (1 cur h)
  let ?s1 = "s\<lparr>trace := trace s @ h\<rparr>"
  have f1: "files s [] ?s1" using 1(1) by (rule files_quiet)
  have cur: "counters_read b e s = cur" using 1(2) by (simp add: counters_read_def)
  have shift: "?U s'" if "ud2_next b cur ?s1 s'" for s'
    using that files_same [OF f1] remeasured_trans [OF remeasured_files [OF f1]] cur
    by (auto simp: ud2_next_def)
  have "ends (check_ud2_measurements b e ctx cur ?s1)
      (\<lambda>_ s2. ends (only_if (count_nops b)
           (andthen (modify (\<lambda>s. s\<lparr>measuring_nop := True\<rparr>)) (\<lambda>_. execute_nop b e)) s2)
         (\<lambda>_ s3. ends (execute_current_instruction b e s3 :: (unit, _) run) (\<lambda>_ _. False) ?U ?H)
         ?U ?H)
      ?U ?H"
  proof (rule ends_check_ud2, goal_cases)
    case 1
    show ?case using files_same(3) [OF f1, of b] ok by simp
  next
    case 2
    show ?case using m by simp
  next
    case (3 s')
    then show ?case by (rule shift)
  next
    case (4 s2)
    have r: "remeasured b s s2" using remeasured_files [OF f1] 4(1) by (rule remeasured_trans)
    have nop: "ends (execute_nop b e (s2\<lparr>measuring_nop := True\<rparr>)) P ?U ?H"
      if "count_nops b" for P :: "unit \<Rightarrow> _"
      unfolding execute_nop_def
    proof (rule ends_execute, goal_cases)
      case (1 s3)
      have "remeasured b s s3"
        using remeasured_trans [OF remeasured_trans [OF r remeasured_update(4)] remeasured_extends [OF 1]] .
      then show ?case using extends_phase [OF 1] extends_same(5) [OF 1] extends_written [OF 1] 4 cur that
          files_same [OF f1] by (simp add: ud2_next_def)
    qed
    have cur: "ends (execute_current_instruction b e s2) P ?U ?H"
      if "\<not> count_nops b" for P :: "unit \<Rightarrow> _"
    proof (rule execute_current_starts)
      fix s3 assume x: "starts b s2 s3"
      have e: "extends s2 (run_calls b s2 (instruction_bytes s2) (cur_instruction_length s2)) s3"
        using x by (simp add: starts_def)
      have "remeasured b s s3" using r remeasured_extends [OF e] by (rule remeasured_trans)
      moreover have "cur_instruction_length s2 = cur_instruction_length s"
        "instruction_bytes s2 = instruction_bytes s"
        using r by (simp_all add: remeasured_def search_of_def)
      ultimately show "?U s3"
        using extends_phase [OF e] extends_same(5) [OF e] starts_outcome(7) [OF x] last_run_starts [OF x] 4 cur that
          files_same [OF f1] by (simp add: ud2_next_def)
    qed
    show ?case using nop cur by (simp add: ends_andthen ends_simps)
  qed simp
  then show ?case using m by (simp add: ends_andthen ends_simps)
qed

text \<open>How a measurement of \<open>nop\<close> goes on.\<close>

definition nop_next ::
  "build \<Rightarrow> u64 list \<Rightarrow> 'z loop_state_scheme \<Rightarrow> 'z loop_state_scheme \<Rightarrow> bool" where
  "nop_next b cur s s' \<longleftrightarrow> remeasured b s s' \<and> nop_perf_counters_values s' = cur \<and>
     measuring_ud s' = measuring_ud s \<and> ud_perf_counters_values s' = ud_perf_counters_values s \<and>
     (if measuring_nop s' then restart_required b cur (nop_perf_counters_values s) \<and>
        written (trace s') = written (trace s)
      else \<not> restart_required b cur (nop_perf_counters_values s) \<and>
        written (trace s') = written (trace s) @ concat (map leb128 cur) \<and>
        last_run s' (take (cur_instruction_length s) (instruction_bytes s)))"

lemma ends_check_nop:
  assumes ok: "can_save b s" and m: "measuring_nop s"
    and U: "\<And>s'. nop_next b cur s s' \<Longrightarrow> U s'"
    and D: "\<And>s'. remeasured b s s' \<Longrightarrow> \<not> measuring_nop s' \<Longrightarrow> measuring_ud s' = measuring_ud s \<Longrightarrow>
      ud_perf_counters_values s' = ud_perf_counters_values s \<Longrightarrow> nop_perf_counters_values s' = cur \<Longrightarrow>
      \<not> restart_required b cur (nop_perf_counters_values s) \<Longrightarrow>
      written (trace s') = written (trace s) @ concat (map leb128 cur) \<Longrightarrow> D () s'"
    and H: "\<And>s'. exception_number ctx \<noteq> EXCEPTION_DEBUG \<or> cur ! INST_RETIRED_NOP b \<noteq> 1 \<or>
      write_failed (trace s') \<Longrightarrow> H s'"
  shows "ends (check_nop_measurements b e ctx cur s) D U H"
proof -
  let ?s1 = "s\<lparr>nop_perf_counters_values := cur\<rparr>"
  let ?s2 = "?s1\<lparr>measuring_nop := False\<rparr>"
  have r1: "remeasured b s ?s1" by (rule remeasured_update)
  have r2: "remeasured b s ?s2" using r1 remeasured_update(4) by (rule remeasured_trans)
  have again: "ends (execute_nop b e ?s1) D U H" if "restart_required b cur (nop_perf_counters_values s)"
    unfolding execute_nop_def
  proof (rule ends_execute)
    fix s' assume x: "extends ?s1 (run_calls b ?s1 [0x90] 1) s'"
    have "remeasured b s s'" using r1 remeasured_extends [OF x] by (rule remeasured_trans)
    then show "U s'"
      using extends_written [OF x] extends_phase [OF x] extends_same(5,6) [OF x] m that
      by (intro U) (simp add: nop_next_def)
  qed
  have stable: "ends (save_reference_values b e ''NOP'' cur ?s2) D U H"
    if "\<not> restart_required b cur (nop_perf_counters_values s)"
  proof (rule ends_save_reference)
    show "can_save b ?s2" using r2 ok by (simp add: remeasured_def)
  next
    fix s' assume f: "files ?s2 (concat (map leb128 cur)) s'"
    have "remeasured b s s'" using r2 remeasured_files [OF f] by (rule remeasured_trans)
    then show "D () s'" using files_same [OF f] that by (intro D) simp_all
  qed (simp_all add: H)
  have stop: "ends (close_save_file b e s') (\<lambda>_ s'. ends (halt_cpu e s') D U H) U H"
    if "cur ! INST_RETIRED_NOP b \<noteq> 1" "files s [] s'" for s'
    using ends_close_halt [of s' H, unfolded ends_andthen] files_same(3) [OF that(2), of b] ok H that(1)
    by (simp add: can_save_def)
  have count: "ends (printf e fmt args s) (\<lambda>_ s'. ends (close_save_file b e s')
      (\<lambda>_ s'. ends (halt_cpu e s') D U H) U H) U H"
    if "cur ! INST_RETIRED_NOP b \<noteq> 1" "accepts fmt args" for fmt args
    by (rule ends_files [OF talks_printf [OF that(2)]]) (rule stop [OF that(1)])
  have "ends (unexpected_exception b e ctx ''NOP'' s) D U H" if "exception_number ctx \<noteq> EXCEPTION_DEBUG"
    using ok H that by (intro ends_unexpected) simp_all
  then show ?thesis
    using again stable count
    by (simp add: check_nop_measurements_def ends_andthen ends_simps)
qed

lemma ends_measure_nop:
  assumes ok: "can_save b s" and m: "\<not> measuring_ud s" "count_nops b" "measuring_nop s"
  shows "ends (handle_exception b e ctx s) (\<lambda>_ _. False) (nop_next b (counters_read b e s) s)
    (\<lambda>s'. exception_number ctx \<noteq> EXCEPTION_DEBUG \<or> counters_read b e s ! INST_RETIRED_NOP b \<noteq> 1 \<or>
      write_failed (trace s'))"
    (is "ends _ _ ?U ?H")
  unfolding handle_exception_def ends_andthen
proof (rule ends_talks [OF talks_read_counters], goal_cases)
  case (1 cur h)
  let ?s1 = "s\<lparr>trace := trace s @ h\<rparr>"
  have f1: "files s [] ?s1" using 1(1) by (rule files_quiet)
  have cur: "counters_read b e s = cur" using 1(2) by (simp add: counters_read_def)
  have "ends (check_nop_measurements b e ctx cur ?s1)
      (\<lambda>_ s3. ends (execute_current_instruction b e s3 :: (unit, _) run) (\<lambda>_ _. False) ?U ?H)
      ?U ?H"
  proof (rule ends_check_nop, goal_cases)
    case 1
    show ?case using files_same(3) [OF f1, of b] ok by simp
  next
    case 2
    show ?case using m by simp
  next
    case (3 s')
    then show ?case using files_same [OF f1] remeasured_trans [OF remeasured_files [OF f1]] cur
      by (auto simp: nop_next_def)
  next
    case (4 s2)
    have r: "remeasured b s s2" using remeasured_files [OF f1] 4(1) by (rule remeasured_trans)
    show ?case
    proof (rule execute_current_starts)
      fix s3 assume x: "starts b s2 s3"
      have e: "extends s2 (run_calls b s2 (instruction_bytes s2) (cur_instruction_length s2)) s3"
        using x by (simp add: starts_def)
      have "remeasured b s s3" using r remeasured_extends [OF e] by (rule remeasured_trans)
      moreover have "cur_instruction_length s2 = cur_instruction_length s"
        "instruction_bytes s2 = instruction_bytes s"
        using r by (simp_all add: remeasured_def search_of_def)
      ultimately show "?U s3"
        using extends_phase [OF e] extends_same(5,6) [OF e] starts_outcome(7) [OF x] last_run_starts [OF x] 4 cur
          files_same [OF f1] by (simp add: nop_next_def)
    qed
  qed (simp add: cur)
  then show ?case using m by (simp add: ends_andthen ends_simps)
qed

end
