(* ===== verification/Dialogue.thy ===== *)
theory Dialogue
  imports Loop_Facts
begin

text \<open>
  The history is the dialogue with the environment: every reply in it is the answer the environment
  gives after the calls before it. Every operation of the execution loop keeps it so, however it
  ends; the proofs are applications of the closure rules of \<open>keeps\<close>.
\<close>

section \<open>Dialogues\<close>

definition dialogue :: "env \<Rightarrow> history \<Rightarrow> bool" where
  "dialogue e t \<longleftrightarrow> (\<forall>i<length t. snd (t ! i) = e (take i t) (fst (t ! i)))"

lemma dialogue_Nil [simp]: "dialogue e []"
  by (simp add: dialogue_def)

lemma dialogue_snoc [simp]: "dialogue e (t @ [(c, e t c)]) \<longleftrightarrow> dialogue e t"
  by (auto simp: dialogue_def nth_append less_Suc_eq)

lemma dialogue_answer: "dialogue e t \<Longrightarrow> (c, r) \<in> set t \<Longrightarrow> \<exists>h. r = e h c"
  unfolding dialogue_def in_set_conv_nth by (metis fst_conv snd_conv)

abbreviation honest :: "env \<Rightarrow> 'z world_scheme \<Rightarrow> bool" where
  "honest e s \<equiv> dialogue e (trace s)"

lemma honest_ext [keeps_intros]: "keeps (honest e) (ext e c)"
  by (rule keeps_ext) simp

lemma honest_extu [keeps_intros]: "keeps (honest e) (extu e c)"
  by (rule keeps_extu) simp

lemma honest_modify [keeps_intros]: "(\<And>s. trace (f s) = trace s) \<Longrightarrow> keeps (honest e) (modify f)"
  by (rule keeps_modify) simp

lemma honest_final [keeps_intros]:
  "keeps P (\<lambda>s. Halted s)" "keeps P (\<lambda>s. User s)"
  by (simp_all add: keeps_def)

section \<open>The operations\<close>

lemma honest_output [keeps_intros]:
  "keeps (honest e) (print e str)" "keeps (honest e) (printf e fmt args)"
  unfolding print_def printf_def printf_in_def by (auto intro!: keeps_intros split: option.split)

lemma honest_registers [keeps_intros]:
  "keeps (honest e) (rdmsr e msr)" "keeps (honest e) (wrmsr e msr v)" "keeps (honest e) (rdpmc e i)"
  "keeps (honest e) (read_cr2 e)"
  unfolding rdmsr_def wrmsr_def rdpmc_def cr_defs by (intro keeps_intros)+

lemma honest_file [keeps_intros]:
  "keeps (honest e) (save_data e data)" "keeps (honest e) (flush_save_file b e)"
  "keeps (honest e) (get_save_file_position b e)" "keeps (honest e) (close_save_file b e)"
  unfolding save_data_def flush_save_file_def get_save_file_position_def close_save_file_def
  by (intro keeps_intros; simp)+

lemma honest_uint64 [keeps_intros]: "keeps (honest e) (save_uint64 e v)"
  unfolding save_uint64_eq by (rule honest_file)

lemma honest_array [keeps_intros]: "keeps (honest e) (save_uint64_array e vs)"
  by (induction vs) (simp_all add: keeps_intros)

lemma honest_record [keeps_intros]:
  "keeps (honest e) (save_instruction_data b e ctx ty bytes len present extra counters)"
  unfolding save_instruction_data_def Let_def by (intro keeps_intros)

lemma honest_halt [keeps_intros]: "keeps (honest e) (halt_cpu e)"
  unfolding halt_cpu_def by (intro keeps_intros)

lemma honest_counter_info [keeps_intros]:
  assumes "\<And>info. keeps (honest e) (f info)"
  shows "keeps (honest e) (counter_info i f)"
  unfolding counter_info_def
proof (rule keeps_andthen [OF keeps_fetch])
  show "keeps (honest e) (case table of None \<Rightarrow> crash
      | Some infos \<Rightarrow> if i < length infos then f (infos ! i) else crash)" for table
    by (cases table) (auto intro!: keeps_intros assms)
qed

lemma honest_print_counters [keeps_intros]: "keeps (honest e) (print_counters b e values)"
  unfolding print_counters_def by (intro keeps_intros)

lemma honest_execute [keeps_intros]:
  "keeps (honest e) (execute_instruction b e ins n)"
  unfolding execute_instruction_def memcpy_def enter_user_def Let_def by (intro keeps_intros)

lemma honest_current [keeps_intros]:
  "keeps (honest e) (execute_current_instruction b e)"
  "keeps (honest e) (execute_ud b e)" "keeps (honest e) (execute_nop b e)"
  unfolding execute_current_instruction_def execute_ud_def execute_nop_def by (intro keeps_intros)+

lemma honest_retry [keeps_intros]:
  "keeps (honest e) (increment_instruction_length_and_retry_exec b e)"
  unfolding increment_instruction_length_and_retry_exec_def by (intro keeps_intros; simp)

lemma honest_dump [keeps_intros]:
  "keeps (honest e) (dump_stats b e ctx bytes len present extra values xed_length)"
  unfolding dump_stats_def
  by (intro keeps_andthen keeps_fetch keeps_in_order honest_output honest_file)
     (auto intro!: keeps_intros split: option.split)

lemma honest_unexpected [keeps_intros]: "keeps (honest e) (unexpected_exception b e ctx what)"
  unfolding unexpected_exception_def Let_def by (intro keeps_intros)

lemma honest_reference [keeps_intros]: "keeps (honest e) (save_reference_values b e what values)"
  unfolding save_reference_values_def by (intro keeps_intros)

lemma honest_measurements [keeps_intros]:
  "keeps (honest e) (check_ud2_measurements b e ctx cur)"
  "keeps (honest e) (check_nop_measurements b e ctx cur)"
  unfolding check_ud2_measurements_def check_nop_measurements_def by (intro keeps_intros; simp)+

lemma honest_restart [keeps_intros]:
  "keeps (honest e) (restart_on_unstable_counters_values b e cur)"
  unfolding restart_on_unstable_counters_values_def by (intro keeps_intros; simp)

lemma honest_report [keeps_intros]: "keeps (honest e) (report_kernel_exception e frame)"
  unfolding report_kernel_exception_def by (intro keeps_intros)

lemma honest_privilege [keeps_intros]: "keeps (honest e) (check_privilege b e ctx)"
  unfolding check_privilege_def Let_def by (intro keeps_intros)

lemma honest_banks [keeps_intros]: "keeps (honest e) (read_banks e is extra)"
  by (induction "is" arbitrary: extra) (auto intro!: keeps_intros)

lemma honest_machine_check [keeps_intros]: "keeps (honest e) (machine_check e)"
  unfolding machine_check_def by (intro keeps_intros)

lemma honest_classify [keeps_intros]: "keeps (honest e) (classify_exception b e ctx cur known ty)"
  unfolding classify_exception_def Let_def by (intro keeps_intros)

lemma honest_save [keeps_intros]:
  "keeps (honest e) (saving_failed b e ctx cur bytes len present extra disasm_length)"
  "keeps (honest e) (save_interesting b e ctx cur ty present extra disasm_length)"
  unfolding saving_failed_def save_interesting_def by (intro keeps_intros; simp)+

lemma honest_periodic [keeps_intros]:
  "keeps (honest e) (periodic_report b e ctx cur present extra disasm_length)"
  unfolding periodic_report_def by (intro keeps_intros; simp)

lemma honest_move_on [keeps_intros]: "keeps (honest e) (move_on b e)"
proof (rule keepsI)
  fix s :: "'z loop_state_scheme"
  assume s: "honest e s"
  have stop: "keeps (honest e) (andthen (get_save_file_position b e) (\<lambda>position.
         andthen (printf e fmt [VInt n, VInt position]) (\<lambda>_.
         andthen (close_save_file b e) (\<lambda>_. halt_cpu e))))" for n fmt
    by (intro keeps_intros)
  show "honest e (final (move_on b e s))"
  proof (cases "advance (cpu_mode b) (instruction_bytes s) (cur_byte_index s) (cur_instruction_length s)
            (last_instruction_length s)")
    case (Pair r last_len)
    then show ?thesis unfolding move_on_def
      by (cases r) (simp_all only: prod.case search_result.case final.simps, use s in
        \<open>auto intro!: keepsD [OF stop]\<close>)
  qed
qed

lemma honest_disasm [keeps_intros]: "keeps (honest e) (disasm_get_instruction_length b e bytes len)"
  unfolding disasm_get_instruction_length_def by (intro keeps_intros)

lemma honest_last_instruction [keeps_intros]: "keeps (honest e) (check_last_instruction b e ctx cur)"
  unfolding check_last_instruction_def Let_def
  by (intro keeps_andthen keeps_fetch keeps_only_if honest_privilege honest_disasm honest_classify)
     (auto intro!: keeps_intros split: prod.split)

lemma honest_read_counters [keeps_intros]: "keeps (honest e) (read_counters e is)"
  by (induction "is") (auto intro!: keeps_intros)

text \<open>Whatever the exception and however its handling ends, the history stays a dialogue.\<close>

lemma honest_handle_exception: "keeps (honest e) (handle_exception b e ctx)"
  unfolding handle_exception_def by (intro keeps_intros; simp)

lemma handled_honest:
  "handle_exception b e ctx s = r \<Longrightarrow> honest e s \<Longrightarrow> honest e (final r)"
  using keepsD [OF honest_handle_exception] by blast

end
