(* ===== verification/Machine.thy ===== *)
theory Machine
  imports Measurement Dialogue
begin

text \<open>
  A whole session. The program runs only when an exception brings the CPU back, so a session is a
  sequence of exceptions, each handled by \<open>handle_exception\<close> in the state the last one left. Which
  exception comes, what the counters hold and what the firmware and XED answer is left open. The
  states such a sequence can reach satisfy one invariant, and the search of theory \<open>Search_Run\<close> is an
  abstraction of it.
\<close>

section \<open>Sessions\<close>

text \<open>The state in which \<open>efi_main\<close> calls \<open>execute_ud\<close>.\<close>

definition boot_ok :: "build \<Rightarrow> env \<Rightarrow> 'z loop_state_scheme \<Rightarrow> bool" where
  "boot_ok b e s \<longleftrightarrow> honest e s \<and> loop_ok b s \<and> can_save b s \<and> search_of s = search_start \<and>
     measuring_ud s \<and> \<not> measuring_nop s \<and> written (trace s) = [] \<and>
     instructions_saved (counts s) = 0 \<and>
     ud_perf_counters_values s = replicate (PERF_EVENTS_COUNT b) 0 \<and>
     length (nop_perf_counters_values s) = PERF_EVENTS_COUNT b \<and>
     length (last_perf_counters_values s) = PERF_EVENTS_COUNT b"

inductive session :: "build \<Rightarrow> env \<Rightarrow> 'z loop_state_scheme \<Rightarrow> bool" for b e where
  boot: "boot_ok b e s \<Longrightarrow> (execute_ud b e s :: (unit, 'z loop_state_scheme) run) = User s' \<Longrightarrow>
    session b e s'"
| exception: "session b e s \<Longrightarrow> unat (exception_number ctx) < 22 \<Longrightarrow>
    handle_exception b e ctx s = User s' \<Longrightarrow> session b e s'"

lemma match_eq:
  "length cur = PERF_EVENTS_COUNT b \<Longrightarrow> length ud = PERF_EVENTS_COUNT b \<Longrightarrow>
   perf_counters_values_match b cur ud \<longleftrightarrow> cur = ud"
  by (auto simp: perf_counters_values_match_def intro!: nth_equalityI)

lemma exception_numbers_unat:
  "EXCEPTION_MACHINE_CHECK = 18" "EXCEPTION_INVALID_OPCODE = 6" "EXCEPTION_PAGE_FAULT = 14"
  by (simp_all add: EXCEPTION_MACHINE_CHECK_def EXCEPTION_INVALID_OPCODE_def EXCEPTION_PAGE_FAULT_def)

lemma number_eq: "unat n = 18 \<longleftrightarrow> n = 18" "unat n = 6 \<longleftrightarrow> n = 6" "unat n = 14 \<longleftrightarrow> n = 14" for n :: u64
  by (auto simp: word_unat_eq_iff)

section \<open>The invariant of a session\<close>

text \<open>The head of the file.\<close>

definition header :: "build \<Rightarrow> 'z loop_state_scheme \<Rightarrow> u8 list" where
  "header b s = concat (map leb128 (ud_perf_counters_values s)) @
     (if count_nops b then concat (map leb128 (nop_perf_counters_values s)) else [])"

definition lengths_ok :: "build \<Rightarrow> 'z loop_state_scheme \<Rightarrow> bool" where
  "lengths_ok b s \<longleftrightarrow> length (ud_perf_counters_values s) = PERF_EVENTS_COUNT b \<and>
     (count_nops b \<and> searching b s \<longrightarrow> length (nop_perf_counters_values s) = PERF_EVENTS_COUNT b)"

definition ud_phase :: "build \<Rightarrow> 'z loop_state_scheme \<Rightarrow> bool" where
  "ud_phase b s \<longleftrightarrow> measuring_ud s \<and> \<not> measuring_nop s \<and> search_of s = search_start \<and>
     written (trace s) = []"

definition nop_phase :: "build \<Rightarrow> 'z loop_state_scheme \<Rightarrow> bool" where
  "nop_phase b s \<longleftrightarrow> \<not> measuring_ud s \<and> count_nops b \<and> measuring_nop s \<and> search_of s = search_start \<and>
     written (trace s) = concat (map leb128 (ud_perf_counters_values s))"

text \<open>The search has executed \<open>hist\<close>, in this order, among the runs that came before.\<close>

definition search_phase :: "build \<Rightarrow> 'z loop_state_scheme \<Rightarrow> bool" where
  "search_phase b s \<longleftrightarrow> searching b s \<and> (\<exists>hist.
     search_run (cpu_mode b) (search_of s) hist \<and> subseq hist (copied (trace s)))"

definition session_ok :: "build \<Rightarrow> 'z loop_state_scheme \<Rightarrow> bool" where
  "session_ok b s \<longleftrightarrow> loop_ok b s \<and> can_save b s \<and> lengths_ok b s \<and>
     (ud_phase b s \<or> nop_phase b s \<or> search_phase b s)"

lemma search_phase_start:
  assumes "searching b s" and "search_of s = search_start" and "last_run s (take 1 (replicate 15 0))"
  shows "search_phase b s"
proof -
  have "subseq [[0]] (copied (trace s))" using assms(3) last_in_set [of "copied (trace s)"]
    by (simp add: subseq_singleton_left last_run_def)
  then show ?thesis unfolding search_phase_def
    using assms(1,2) search_run.start [of "cpu_mode b"]
    by (intro conjI exI [of _ "[[0]]"]) simp_all
qed

lemma measured_ud2:
  assumes ok: "session_ok b s" and m: "ud_phase b s" and cur: "length cur = PERF_EVENTS_COUNT b"
    and u: "ud2_next b cur s s'"
  shows "session_ok b s'"
proof -
  have r: "loop_ok b s'" "can_save b s'" "search_of s' = search_start"
    using ok m u by (simp_all add: ud2_next_def remeasured_def session_ok_def ud_phase_def)
  have s: "cur_instruction_length s = 1" "instruction_bytes s = replicate 15 0"
    using m by (simp_all add: ud_phase_def search_of_def search_start_def)
  have l: "lengths_ok b s'" using u cur by (auto simp: lengths_ok_def ud2_next_def searching_def split: if_splits)
  consider "measuring_ud s'" | "\<not> measuring_ud s'" "count_nops b" | "\<not> measuring_ud s'" "\<not> count_nops b"
    by blast
  then have "ud_phase b s' \<or> nop_phase b s' \<or> search_phase b s'"
  proof cases
    case 1
    then have "ud_phase b s'" using m u r by (simp add: ud_phase_def ud2_next_def)
    then show ?thesis by blast
  next
    case 2
    then have "nop_phase b s'" using m u r by (simp add: ud_phase_def nop_phase_def ud2_next_def)
    then show ?thesis by blast
  next
    case 3
    then have "search_phase b s'" using m u r s
      by (intro search_phase_start) (simp_all add: ud_phase_def searching_def ud2_next_def)
    then show ?thesis by blast
  qed
  then show ?thesis using r l by (simp add: session_ok_def)
qed

lemma measured_nop:
  assumes ok: "session_ok b s" and m: "nop_phase b s" and cur: "length cur = PERF_EVENTS_COUNT b"
    and u: "nop_next b cur s s'"
  shows "session_ok b s'"
proof -
  have r: "loop_ok b s'" "can_save b s'" "search_of s' = search_start"
    using ok m u by (simp_all add: nop_next_def remeasured_def session_ok_def nop_phase_def)
  have s: "cur_instruction_length s = 1" "instruction_bytes s = replicate 15 0"
    using m by (simp_all add: nop_phase_def search_of_def search_start_def)
  have l: "lengths_ok b s'" using ok u cur by (auto simp: session_ok_def lengths_ok_def nop_next_def)
  have "nop_phase b s' \<or> search_phase b s'"
  proof (cases "measuring_nop s'")
    case True
    then show ?thesis using m u r by (simp add: nop_phase_def nop_next_def)
  next
    case False
    then have "search_phase b s'" using m u r s
      by (intro search_phase_start) (simp_all add: nop_phase_def searching_def nop_next_def)
    then show ?thesis by blast
  qed
  then show ?thesis using r l by (simp add: session_ok_def)
qed

lemma proceeds_copied:
  assumes "proceeds s h s1"
  shows "copied (trace s1) = copied (trace s)"
proof -
  have "copied h = []" using assms by (intro copied_filing) (simp add: proceeds_def)
  then show ?thesis using proceeds_fields(1) [OF assms] by simp
qed

lemma proceeds_reference:
  assumes "proceeds s h s1"
  shows "searching b s1 = searching b s" and "header b s1 = header b s"
  using proceeds_fields [OF assms] by (simp_all add: searching_def header_def)

text \<open>How the search phase goes on: the search has made some steps.\<close>

lemma search_phase_next:
  assumes "search_phase b s" and "searching b s'"
    and "\<And>hist. search_run (cpu_mode b) (search_of s) hist \<Longrightarrow> subseq hist (copied (trace s)) \<Longrightarrow>
      \<exists>hist'. search_run (cpu_mode b) (search_of s') (hist @ hist') \<and>
        subseq (hist @ hist') (copied (trace s'))"
  shows "search_phase b s'"
  using assms unfolding search_phase_def by blast

text \<open>The run of an instruction, seen from the state before the bookkeeping.\<close>

lemma started:
  assumes p: "proceeds s h s1" and st: "starts b s1 s'"
  shows "search_of s' = search_of s" and "loop_ok b s' = loop_ok b s" and "can_save b s' = can_save b s"
    and "searching b s' = searching b s"
    and "ud_perf_counters_values s' = ud_perf_counters_values s"
    and "nop_perf_counters_values s' = nop_perf_counters_values s"
    and "written (trace s') = written (trace s) @ written h"
    and "copied (trace s') = copied (trace s) @ [take (cur_instruction_length s) (instruction_bytes s)]"
  using starts_outcome [OF st] proceeds_fields [OF p] proceeds_reference [OF p] can_save_proceeds [OF p]
    proceeds_copied [OF p]
  by simp_all

lemma session_ok_again:
  assumes ok: "session_ok b s" and m: "search_phase b s" and p: "proceeds s h s1"
    and st: "starts b s1 s'"
  shows "session_ok b s'"
proof -
  note st = started [OF p st]
  have "search_phase b s'" using m
  proof (rule search_phase_next)
    show "searching b s'" using m st by (simp add: search_phase_def)
    fix hist
    assume "search_run (cpu_mode b) (search_of s) hist" "subseq hist (copied (trace s))"
    then show "\<exists>hist'. search_run (cpu_mode b) (search_of s') (hist @ hist') \<and>
        subseq (hist @ hist') (copied (trace s'))"
      using st by (intro exI [of _ "[]"]) (simp add: list_emb_prefix)
  qed
  then show ?thesis using ok st by (simp add: session_ok_def lengths_ok_def)
qed

text \<open>A step of the search: \<open>s1\<close> is the state before it, \<open>s2\<close> after it.\<close>

lemma session_ok_onward:
  fixes s :: "'z loop_state_scheme"
  assumes ok: "session_ok b s" and m: "search_phase b s" and p: "proceeds s h s1"
    and step: "search_step (cpu_mode b) (search_of s1) (search_of s2)"
    and s2: "loop_ok b s2" "searching b s2 = searching b s1" "can_save b s2 = can_save b s1"
      "trace s2 = trace s1" "ud_perf_counters_values s2 = ud_perf_counters_values s1"
      "nop_perf_counters_values s2 = nop_perf_counters_values s1"
    and st: "starts b s2 s'"
  shows "session_ok b s'"
proof -
  let ?x = "take (cur_instruction_length s2) (instruction_bytes s2)"
  note f = proceeds_fields [OF p] proceeds_reference [OF p] can_save_proceeds [OF p] proceeds_copied [OF p]
  note o = starts_outcome [OF st]
  have "search_phase b s'" using m
  proof (rule search_phase_next)
    show "searching b s'" using m o s2 f by (simp add: search_phase_def)
    fix hist
    assume old: "search_run (cpu_mode b) (search_of s) hist" "subseq hist (copied (trace s))"
    have "search_run (cpu_mode b) (search_of s2) (hist @ [?x])"
      using search_run.step [OF old(1), of "instruction_bytes s2" "cur_byte_index s2"
          "cur_instruction_length s2" "last_instruction_length s2"] step f(4)
      by (simp add: search_of_def)
    moreover have "copied (trace s') = copied (trace s) @ [?x]" using o(8) s2(4) proceeds_copied [OF p] by simp
    ultimately show "\<exists>hist'. search_run (cpu_mode b) (search_of s') (hist @ hist') \<and>
        subseq (hist @ hist') (copied (trace s'))"
      using old(2) o(1) by (intro exI [of _ "[?x]"]) (simp add: list_emb_append_mono)
  qed
  then show ?thesis using ok o s2 f by (simp add: session_ok_def lengths_ok_def)
qed

section \<open>One exception of a session\<close>

lemma session_ok_starts_again:
  assumes ok: "session_ok b s" and m: "search_phase b s" and again: "starts_again b ctx cur s s'"
  shows "session_ok b s'"
proof -
  obtain h s1 where p: "proceeds s h s1"
    and c: "starts b s1 s' \<or> cur_instruction_length s < 15 \<and> starts b (longer s1) s'"
    using again unfolding starts_again_def by blast
  have l: "loop_ok b s1" "cur_instruction_length s1 = cur_instruction_length s"
    using ok proceeds_fields [OF p] by (simp_all add: session_ok_def)
  from c show ?thesis
  proof
    assume "starts b s1 s'"
    then show ?thesis by (rule session_ok_again [OF ok m p])
  next
    assume c: "cur_instruction_length s < 15 \<and> starts b (longer s1) s'"
    then have "cur_instruction_length s1 < 15" using l by simp
    note step = longer_step [OF this l(1)]
    show ?thesis using c by (intro session_ok_onward [OF ok m p step]) simp_all
  qed
qed

lemma session_ok_stepped:
  assumes ok: "session_ok b s" and m: "search_phase b s" and st: "stepped b ctx cur s s'"
  shows "session_ok b s'"
proof -
  obtain h s1 s2 where p: "proceeds s h s1" and mv: "moved b s1 s2" and st: "starts b s2 s'"
    using st unfolding stepped_def by blast
  have "loop_ok b s1" using ok proceeds_fields [OF p] by (simp add: session_ok_def)
  from session_ok_onward [OF ok m p moved_step [OF mv this] st] show ?thesis .
qed

text \<open>Why the program stops.\<close>

definition stops ::
  "build \<Rightarrow> exception_context \<Rightarrow> u64 list \<Rightarrow> 'z loop_state_scheme \<Rightarrow> 'z loop_state_scheme \<Rightarrow> bool" where
  "stops b ctx cur s s' \<longleftrightarrow> write_failed (trace s') \<or>
     measuring_ud s \<and> exception_number ctx \<noteq> EXCEPTION_INVALID_OPCODE \<or>
     \<not> measuring_ud s \<and> \<not> searching b s \<and>
       (exception_number ctx \<noteq> EXCEPTION_DEBUG \<or> cur ! INST_RETIRED_NOP b \<noteq> 1) \<or>
     searching b s \<and> finished b ctx cur s s'"

lemma phase_cases:
  assumes "session_ok b s"
  obtains (ud) "ud_phase b s" "measuring_ud s" "\<not> searching b s"
    | (nop) "nop_phase b s" "\<not> measuring_ud s" "\<not> searching b s"
    | (search) "search_phase b s" "\<not> measuring_ud s" "searching b s"
  using assms
  by (auto simp: session_ok_def ud_phase_def nop_phase_def search_phase_def searching_def)

lemma session_ok_exception:
  fixes s :: "'z loop_state_scheme"
  assumes ok: "session_ok b s"
  shows "ends (handle_exception b e ctx s) (\<lambda>_ _. False) (session_ok b)
    (stops b ctx (counters_read b e s) s)"
  using ok
proof (cases rule: phase_cases)
  note cur = counters_read_length [of b e s]
  have save: "can_save b s" "loop_ok b s" using ok by (simp_all add: session_ok_def)
  case ud
  from ends_measure_ud2 [OF save(1) ud(2), of e ctx] show ?thesis
    by (rule ends_mono) (use ud measured_ud2 [OF ok _ cur] in \<open>auto simp: stops_def\<close>)
next
  note cur = counters_read_length [of b e s]
  have save: "can_save b s" "loop_ok b s" using ok by (simp_all add: session_ok_def)
  case nop
  then have "count_nops b" "measuring_nop s" by (simp_all add: nop_phase_def)
  from ends_measure_nop [OF save(1) nop(2) this, of e ctx] show ?thesis
    by (rule ends_mono) (use nop measured_nop [OF ok _ cur] in \<open>auto simp: stops_def\<close>)
next
  note cur = counters_read_length [of b e s]
  have save: "can_save b s" "loop_ok b s" using ok by (simp_all add: session_ok_def)
  case search
  from ends_handle_exception [OF save(2,1) search(3), of e ctx] show ?thesis
    by (rule ends_mono)
       (use search session_ok_starts_again [OF ok] session_ok_stepped [OF ok] in
         \<open>auto simp: stops_def\<close>)
qed

lemma boot_run:
  fixes s s' :: "'z loop_state_scheme"
  assumes ok: "boot_ok b e s" and run: "(execute_ud b e s :: (unit, 'z loop_state_scheme) run) = User s'"
  shows "session_ok b s'" and "ud_phase b s'"
    and "ud_perf_counters_values s' = ud_perf_counters_values s"
    and "last_run s' [0x0f, 0x0b]"
proof -
  obtain s'' where "(execute_ud b e s :: (unit, 'z loop_state_scheme) run) = User s''"
    and x: "extends s (run_calls b s [0x0f, 0x0b] 2) s''"
    using execute_instruction_extends [of b e "[0x0f, 0x0b]" 2 s] unfolding execute_ud_def by auto
  then have s': "s'' = s'" using run by simp
  note f = extends_same [OF x [unfolded s']] extends_phase [OF x [unfolded s']]
    extends_written [OF x [unfolded s']]
  show "ud_phase b s'" using ok f by (simp add: boot_ok_def ud_phase_def)
  then show "session_ok b s'" using ok f
    by (simp add: boot_ok_def session_ok_def lengths_ok_def searching_def ud_phase_def)
  show "ud_perf_counters_values s' = ud_perf_counters_values s" by (rule f)
  obtain h where "trace s' = trace s @ h" "map fst h = run_calls b s [0x0f, 0x0b] 2" using f(7) by blast
  then show "last_run s' [0x0f, 0x0b]" using copied_run_calls [of h b s "[0x0f, 0x0b]" 2]
    by (simp add: last_run_def)
qed

lemma session_invariant: "session b e s \<Longrightarrow> session_ok b s"
proof (induction rule: session.induct)
  case (boot s s')
  then show ?case by (rule boot_run)
next
  case (exception s ctx s')
  from session_ok_exception [OF exception.IH, of e ctx] exception.hyps(3)
  show ?case by simp
qed

lemma session_honest: "session b e s \<Longrightarrow> honest e s"
proof (induction rule: session.induct)
  case (boot s s')
  then have "honest e (final (execute_ud b e s :: (unit, 'a loop_state_scheme) run))"
    by (intro keepsD [OF honest_current(2)]) (simp add: boot_ok_def)
  then show ?case using boot by simp
next
  case (exception s ctx s')
  from handled_honest [OF exception.hyps(3) exception.IH] show ?case by simp
qed

text \<open>An exception while the search is on.\<close>

lemma searching_outcome:
  assumes "session b e s" and "searching b s"
  shows "ends (handle_exception b e ctx s) (\<lambda>_ _. False)
    (\<lambda>s'. starts_again b ctx (counters_read b e s) s s' \<or> stepped b ctx (counters_read b e s) s s')
    (\<lambda>s'. write_failed (trace s') \<or> finished b ctx (counters_read b e s) s s')"
  using session_invariant [OF assms(1)] assms(2)
  by (intro ends_handle_exception) (simp_all add: session_ok_def)

lemma searching_phase: "session b e s \<Longrightarrow> searching b s \<Longrightarrow> search_phase b s"
  using session_invariant by (auto elim: phase_cases)

end
