(* ===== verification/Session_Log.thy ===== *)
theory Session_Log
  imports Machine
begin

text \<open>
  What a session has saved. A session is followed exception by exception, and the exceptions that judge
  an instruction are collected: those in the search after which the program goes on with other bytes.
  The file is proved to be a header and the records of their verdicts, in order, and nothing else.
\<close>

section \<open>The search in a session\<close>

lemma restarted_same:
  assumes "starts_again b ctx cur s s'"
    and "\<not> (unstable b ctx cur (last_perf_counters_values s) \<and> search_of s' = search_of s)"
    and "loop_ok b s"
  shows "search_step (cpu_mode b) (search_of s) (search_of s')"
proof -
  obtain h s1 where p: "proceeds s h s1" "cur_instruction_length s < 15" "starts b (longer s1) s'"
    using assms(1,2) started(1) unfolding starts_again_def by blast
  then have "loop_ok b s1" "cur_instruction_length s1 < 15" "search_of s1 = search_of s"
    using proceeds_fields [OF p(1)] assms(3) by simp_all
  then show ?thesis using longer_step(1) [of s1 b] starts_outcome(1) [OF p(3)] by simp
qed

lemma stepped_step:
  assumes "stepped b ctx cur s s'" and "loop_ok b s"
  shows "search_step (cpu_mode b) (search_of s) (search_of s')"
proof -
  obtain h s1 s2 where p: "proceeds s h s1" "moved b s1 s2" "starts b s2 s'"
    using assms(1) unfolding stepped_def by blast
  then have "loop_ok b s1" "search_of s1 = search_of s"
    using proceeds_fields [OF p(1)] assms(2) by simp_all
  then show ?thesis using moved_step(1) [OF p(2)] starts_outcome(1) [OF p(3)] by simp
qed

lemma searching_refines:
  assumes "session b e s" and "searching b s" and "handle_exception b e ctx s = User s'"
  shows "unstable b ctx (counters_read b e s) (last_perf_counters_values s) \<and> search_of s' = search_of s \<or>
    search_step (cpu_mode b) (search_of s) (search_of s')"
proof -
  have "loop_ok b s" using session_invariant [OF assms(1)] by (simp add: session_ok_def)
  then show ?thesis
    using searching_outcome [OF assms(1,2), of ctx] restarted_same stepped_step
    unfolding assms(3) ends.simps by blast
qed

lemma session_copied:
  assumes "session b e s" and "searching b s" and "handle_exception b e ctx s = User s'"
  shows "copied (trace s') = copied (trace s) @ [take (cur_instruction_length s') (instruction_bytes s')]"
proof -
  have st: "copied (trace s') = copied (trace s) @ [take (cur_instruction_length s') (instruction_bytes s')]"
    if "starts b s2 s'" "copied (trace s2) = copied (trace s)" for s2
    using starts_outcome(1,8) [OF that(1)] that(2) by (simp add: search_of_def)
  have "loop_ok b s" using session_invariant [OF assms(1)] by (simp add: session_ok_def)
  then have ok: "loop_ok b s1" "copied (trace s1) = copied (trace s)" if "proceeds s h s1" for h s1
    using proceeds_fields [OF that] proceeds_copied [OF that] by simp_all
  have "starts_again b ctx (counters_read b e s) s s' \<or> stepped b ctx (counters_read b e s) s s'"
    using searching_outcome [OF assms(1,2), of ctx] unfolding assms(3) by simp
  then show ?thesis
  proof
    assume "starts_again b ctx (counters_read b e s) s s'"
    then show ?thesis using st ok unfolding starts_again_def by (fastforce simp: longer_def)
  next
    assume "stepped b ctx (counters_read b e s) s s'"
    then obtain h s1 s2 where p: "proceeds s h s1" "moved b s1 s2" "starts b s2 s'"
      unfolding stepped_def by blast
    then show ?thesis using st [OF p(3)] moved_step(5) [OF p(2)] ok [OF p(1)] by simp
  qed
qed

section \<open>The records\<close>

definition saved_record ::
  "build \<Rightarrow> exception_context \<Rightarrow> instruction_type \<Rightarrow> u8 list \<Rightarrow> bool \<Rightarrow> u64 \<Rightarrow> u64 list \<Rightarrow> saved" where
  "saved_record b ctx ty instruction present extra counters =
     \<lparr>sv_exception = unat (exception_number ctx),
      sv_extra = (if present then Some (unat extra) else None),
      sv_counters = map unat counters,
      sv_type = instruction_type_value b ty,
      sv_bytes = instruction\<rparr>"

text \<open>What the type of an entry means: \<open>MACHINE_CHECK\<close> is 3, \<open>UNDOCUMENTED_UD\<close> 4,
  \<open>UNDOCUMENTED_NOT_UD\<close> 5, \<open>KERNEL_PAGE_FAULT\<close> 2; nothing is saved as \<open>NOT_INTERESTING\<close> or as
  \<open>VEX_MALFORMED_BUT_ACCEPTED\<close>. \<open>ud\<close> are the reference values of \<open>ud2\<close>.\<close>

definition meaningful :: "u64 list \<Rightarrow> saved \<Rightarrow> bool" where
  "meaningful ud r \<longleftrightarrow> sv_type r \<noteq> 0 \<and> sv_type r \<noteq> 6 \<and>
     (sv_type r = 4 \<longrightarrow> sv_exception r = 6 \<and> sv_counters r \<noteq> map unat ud) \<and>
     (sv_type r = 3 \<longleftrightarrow> sv_exception r = 18) \<and>
     (sv_type r = 2 \<longrightarrow> sv_exception r = 14) \<and>
     (sv_type r = 5 \<longrightarrow> sv_exception r \<noteq> 6) \<and>
     (sv_extra r \<noteq> None \<longrightarrow> sv_exception r \<in> {14, 18})"

text \<open>\<open>data\<close> is the byte string of the record \<open>r\<close>.\<close>

definition entry :: "build \<Rightarrow> u64 list \<Rightarrow> saved \<Rightarrow> u8 list \<Rightarrow> bool" where
  "entry b ud r data \<longleftrightarrow> meaningful ud r \<and>
     (\<forall>rest. decode_record (PERF_EVENTS_COUNT b) (data @ rest) = Some (r, rest))"

lemma entries_decode:
  "list_all2 (entry b ud) rs ds \<Longrightarrow>
   decode_records (PERF_EVENTS_COUNT b) (length rs) (concat ds) = Some (rs, [])"
proof (induction rs ds rule: list_all2_induct)
  case Nil
  then show ?case by simp
next
  case (Cons r rs d ds)
  then show ?case by (simp add: entry_def)
qed

lemma entries_meaningful: "list_all2 (entry b ud) rs ds \<Longrightarrow> r \<in> set rs \<Longrightarrow> meaningful ud r"
  by (induction rs ds rule: list_all2_induct) (auto simp: entry_def)

lemma verdict_meaningful:
  assumes "ty = verdict b ctx known mismatch nop (perf_counters_values_match b cur ud)"
    and "ty \<noteq> NOT_INTERESTING"
    and "length cur = PERF_EVENTS_COUNT b" and "length ud = PERF_EVENTS_COUNT b"
  shows "meaningful ud (saved_record b ctx ty instruction (has_extra ctx) extra cur)"
proof -
  have "cur \<noteq> ud \<Longrightarrow> map unat cur \<noteq> map unat ud"
    by (metis map_equality_iff list.inj_map_strong unsigned_word_eqI word_unat_eq_iff)
  then show ?thesis using assms(2)
    unfolding assms(1) match_eq [OF assms(3,4)]
    by (auto simp: meaningful_def saved_record_def verdict_def has_extra_def exception_numbers_unat
        number_eq split: if_splits)
qed

text \<open>The bytes of the instruction under test, and the record a verdict leads to, if any.\<close>

definition current :: "'z loop_state_scheme \<Rightarrow> u8 list" where
  "current s = take (cur_instruction_length s) (instruction_bytes s)"

definition verdict_records ::
  "build \<Rightarrow> exception_context \<Rightarrow> u64 list \<Rightarrow> 'z loop_state_scheme \<Rightarrow> u64 \<Rightarrow> u64 \<Rightarrow> saved list" where
  "verdict_records b ctx cur s xed_length extra =
     (let ty = saved_as b ctx cur s xed_length in
      if ty = NOT_INTERESTING then [] else [saved_record b ctx ty (current s) (has_extra ctx) extra cur])"

lemma verdict_bytes_entries:
  assumes "loop_ok b s" and "unat (exception_number ctx) < 22" and "length cur = PERF_EVENTS_COUNT b"
    and "length (ud_perf_counters_values s) = PERF_EVENTS_COUNT b"
  shows "\<exists>ds. list_all2 (entry b (ud_perf_counters_values s)) (verdict_records b ctx cur s xed_length extra) ds \<and>
    concat ds = verdict_bytes b ctx cur s xed_length extra"
proof (cases "saved_as b ctx cur s xed_length = NOT_INTERESTING")
  case True
  then show ?thesis by (intro exI [of _ "[]"]) (simp add: verdict_records_def verdict_bytes_def)
next
  case ty: False
  let ?ty = "saved_as b ctx cur s xed_length" and ?d = "verdict_bytes b ctx cur s xed_length extra"
  let ?r = "saved_record b ctx ?ty (current s) (has_extra ctx) extra cur"
  have len: "length (instruction_bytes s) = 15" "cur_instruction_length s \<le> 15"
    using assms(1) by (simp_all add: loop_ok_def search_of_def search_ok_def search_inv_def)
  have "meaningful (ud_perf_counters_values s) ?r"
    using ty assms(3,4) unfolding saved_as_def by (intro verdict_meaningful) (rule refl)
  moreover have "decode_record (PERF_EVENTS_COUNT b) (?d @ rest) = Some (?r, rest)" for rest
    using decode_record_bytes [of ctx "cur_instruction_length s" "instruction_bytes s" cur b ?ty
        "has_extra ctx" extra rest] assms(2,3) len ty
    by (simp add: verdict_bytes_def saved_record_def current_def)
  ultimately show ?thesis using ty
    by (intro exI [of _ "[?d]"]) (simp add: entry_def verdict_records_def Let_def)
qed

section \<open>Sessions with their judgements\<close>

text \<open>
  \<open>session_log b e s js\<close>: the session has come to \<open>s\<close>, and \<open>js\<close> are the exceptions that judged an
  instruction, each with the states before and after it. An exception of the search judges the
  instruction exactly if the program goes on with other bytes: a repetition, and a retry with one
  more byte, keep the bytes.
\<close>

inductive session_log ::
  "build \<Rightarrow> env \<Rightarrow> 'z loop_state_scheme \<Rightarrow>
   (exception_context \<times> 'z loop_state_scheme \<times> 'z loop_state_scheme) list \<Rightarrow> bool" for b e where
  boot: "boot_ok b e s \<Longrightarrow> (execute_ud b e s :: (unit, 'z loop_state_scheme) run) = User s' \<Longrightarrow>
    session_log b e s' []"
| exception: "session_log b e s js \<Longrightarrow> unat (exception_number ctx) < 22 \<Longrightarrow>
    handle_exception b e ctx s = User s' \<Longrightarrow>
    session_log b e s' (js @ (if searching b s \<and> instruction_bytes s' \<noteq> instruction_bytes s
      then [(ctx, s, s')] else []))"

lemma session_log_session: "session_log b e s js \<Longrightarrow> session b e s"
  by (induction rule: session_log.induct) (auto intro: session.intros)

lemma session_has_log: "session b e s \<Longrightarrow> \<exists>js. session_log b e s js"
  by (induction rule: session.induct) (blast intro: session_log.intros)+

text \<open>What a judgement adds to the file: the record of the verdict on what XED answered while the
  exception was handled, with the extra information the CPU gave.\<close>

definition filed ::
  "build \<Rightarrow> env \<Rightarrow> exception_context \<times> 'z loop_state_scheme \<times> 'z loop_state_scheme \<Rightarrow> saved list \<Rightarrow> bool" where
  "filed b e j rs \<longleftrightarrow> (case j of (ctx, s, s') \<Rightarrow> \<exists>h r extra. trace s' = trace s @ h \<and>
     (xed_question b s, r) \<in> set h \<and> (has_extra ctx \<longrightarrow> extra_from ctx h extra) \<and>
     rs = verdict_records b ctx (counters_read b e s) s (xed_answer r) extra)"

lemma filed_bytes: "filed b e (ctx, s, s') rs \<Longrightarrow> map sv_bytes rs = [] \<or> map sv_bytes rs = [current s]"
  by (auto simp: filed_def verdict_records_def saved_record_def Let_def split: if_splits)

lemma judged_stepped_written:
  assumes "stepped b ctx cur s s'" and "loop_ok b s"
  shows "\<exists>h. judged b ctx cur s h \<and> set h \<subseteq> set (trace s') \<and>
    written (trace s') = written (trace s) @ written h"
proof -
  obtain h s1 s2 where p: "proceeds s h s1" "judged b ctx cur s h" "moved b s1 s2" "starts b s2 s'"
    using assms(1) unfolding stepped_def by blast
  have "trace s2 = trace s @ h"
    using proceeds_fields(1,13) [OF p(1)] moved_step(5) [OF p(3)] assms(2) by simp
  moreover obtain k where "trace s' = trace s2 @ k"
    using extends_same(7) [OF p(4) [unfolded starts_def]] by blast
  ultimately show ?thesis using p(2) starts_outcome(7) [OF p(4)] by (intro exI [of _ h]) auto
qed

section \<open>The file\<close>

lemma subseq_set: "subseq xs ys \<Longrightarrow> set xs \<subseteq> set ys"
  by (auto elim: list_emb_set)

text \<open>The state of the log while the search is on. The instructions judged so far are among those
  executed before the current one.\<close>

definition log_ok ::
  "build \<Rightarrow> env \<Rightarrow> 'z loop_state_scheme \<Rightarrow>
   (exception_context \<times> 'z loop_state_scheme \<times> 'z loop_state_scheme) list \<Rightarrow> bool" where
  "log_ok b e s js \<longleftrightarrow> (\<exists>rss ds hist. list_all2 (filed b e) js rss \<and>
     list_all2 (entry b (ud_perf_counters_values s)) (concat rss) ds \<and>
     written (trace s) = header b s @ concat ds \<and>
     instructions_saved (counts s) = of_nat (length (concat rss)) \<and>
     search_run (cpu_mode b) (search_of s) (hist @ [current s]) \<and>
     subseq (hist @ [current s]) (copied (trace s)) \<and>
     subseq (map (\<lambda>(ctx, t, t'). current t) js) hist)"

lemma current_search: "search_of s' = search_of s \<Longrightarrow> current s' = current s"
  by (simp add: search_of_def current_def)

lemma run_step:
  "search_run m (search_of s) h \<Longrightarrow> search_step m (search_of s) (search_of s') \<Longrightarrow>
   search_run m (search_of s') (h @ [current s'])"
  using search_run.step [of m "search_of s" h "instruction_bytes s'" "cur_byte_index s'"
      "cur_instruction_length s'" "last_instruction_length s'"]
  by (simp add: search_of_def current_def)

text \<open>No instruction is in the log twice.\<close>

lemma subseq_distinct: "subseq xs ys \<Longrightarrow> distinct ys \<Longrightarrow> distinct xs"
  by (auto simp: subseq_conv_nths)

lemma filed_subseq:
  "list_all2 (filed b e) js rss \<Longrightarrow> subseq (map sv_bytes (concat rss)) (map (\<lambda>(ctx, t, t'). current t) js)"
proof (induction js rss rule: list_all2_induct)
  case Nil
  then show ?case by simp
next
  case (Cons j js rs rss)
  obtain ctx t t' where j: "j = (ctx, t, t')" by (cases j)
  have "map sv_bytes rs = [] \<or> map sv_bytes rs = [current t]" using Cons.hyps(1) unfolding j by (rule filed_bytes)
  then show ?case using Cons.IH unfolding j by (auto intro: list_emb_Cons)
qed

lemma log_okE:
  assumes "log_ok b e s js"
  obtains rss ds where "list_all2 (filed b e) js rss"
    and "list_all2 (entry b (ud_perf_counters_values s)) (concat rss) ds"
    and "written (trace s) = header b s @ concat ds"
    and "instructions_saved (counts s) = of_nat (length (concat rss))"
    and "distinct (map sv_bytes (concat rss))"
    and "set (map sv_bytes (concat rss)) \<subseteq> set (copied (trace s))"
proof -
  obtain rss ds hist where l: "list_all2 (filed b e) js rss"
    "list_all2 (entry b (ud_perf_counters_values s)) (concat rss) ds"
    "written (trace s) = header b s @ concat ds" "instructions_saved (counts s) = of_nat (length (concat rss))"
    and h: "search_run (cpu_mode b) (search_of s) (hist @ [current s])"
    "subseq (hist @ [current s]) (copied (trace s))" "subseq (map (\<lambda>(ctx, t, t'). current t) js) hist"
    using assms unfolding log_ok_def by blast
  have sub: "subseq (map sv_bytes (concat rss)) (hist @ [current s])"
    using subseq_order.trans [OF filed_subseq [OF l(1)] h(3)] by (rule list_emb_prefix)
  have "history_ok (cpu_mode b) (search_of s) (hist @ [current s])" using h(1) by (rule search_run_ok)
  then have "distinct (hist @ [current s])" by (cases "search_of s") (simp add: history_ok_def)
  with sub have "distinct (map sv_bytes (concat rss))" by (rule subseq_distinct)
  moreover have "set (map sv_bytes (concat rss)) \<subseteq> set (copied (trace s))"
    using subseq_set [OF sub] subseq_set [OF h(2)] by blast
  ultimately show thesis using l that by blast
qed

text \<open>A repetition, or a retry with one more byte, changes nothing of this.\<close>

lemma again_kept:
  assumes "starts_again b ctx cur s s'"
  shows "instruction_bytes s' = instruction_bytes s" and "searching b s' = searching b s"
    and "header b s' = header b s" and "ud_perf_counters_values s' = ud_perf_counters_values s"
    and "written (trace s') = written (trace s)" and "counts s' = counts s"
proof -
  obtain h s1 s2 where p: "proceeds s h s1" "written h = []" "counts s1 = counts s" and st: "starts b s2 s'"
    and s2: "s2 = s1 \<or> s2 = longer s1"
    using assms unfolding starts_again_def by blast
  note f = proceeds_fields [OF p(1)] proceeds_reference [OF p(1)] starts_outcome [OF st]
  have "instruction_bytes s2 = instruction_bytes s1" "searching b s2 = searching b s1" "header b s2 = header b s1"
    "ud_perf_counters_values s2 = ud_perf_counters_values s1" "trace s2 = trace s1" "counts s2 = counts s1"
    using s2 by (auto simp: longer_def searching_def header_def)
  moreover have "header b s' = header b s2" using starts_outcome(5,6) [OF st] by (simp add: header_def)
  ultimately show "instruction_bytes s' = instruction_bytes s" "searching b s' = searching b s"
    "header b s' = header b s" "ud_perf_counters_values s' = ud_perf_counters_values s"
    "written (trace s') = written (trace s)" "counts s' = counts s"
    using f p(2,3) by (simp_all add: search_of_def)
qed

text \<open>A judgement.\<close>

lemma stepped_kept:
  assumes "stepped b ctx cur s s'" and "loop_ok b s"
  shows "instruction_bytes s' \<noteq> instruction_bytes s" and "searching b s' = searching b s"
    and "header b s' = header b s" and "ud_perf_counters_values s' = ud_perf_counters_values s"
    and "\<exists>h r extra. trace s' = trace s @ h \<and> (xed_question b s, r) \<in> set h \<and>
      (has_extra ctx \<longrightarrow> extra_from ctx h extra) \<and>
      written (trace s') = written (trace s) @ verdict_bytes b ctx cur s (xed_answer r) extra \<and>
      instructions_saved (counts s') = instructions_saved (counts s) +
        of_nat (length (verdict_records b ctx cur s (xed_answer r) extra))"
proof -
  obtain h s1 s2 where p: "proceeds s h s1" and j: "judged b ctx cur s h" and t: "tallied s h s1"
    and m: "moved b s1 s2" and st: "starts b s2 s'"
    using assms(1) unfolding stepped_def by blast
  note f = proceeds_fields [OF p] proceeds_reference [OF p] starts_outcome [OF st]
  have ok: "loop_ok b s1" using f(13) assms(2) by simp
  note mv = moved_step [OF m ok]
  have inv: "search_inv (cpu_mode b) (instruction_bytes s1) (cur_byte_index s1) (cur_instruction_length s1)"
    using ok by (simp add: loop_ok_def search_of_def search_ok_def)
  have "be_value (instruction_bytes s1) < be_value (instruction_bytes s2)"
    using m advance_candidate [OF inv] by (auto simp: moved_def)
  then show "instruction_bytes s' \<noteq> instruction_bytes s" using f by (auto simp: search_of_def)
  show "searching b s' = searching b s" "ud_perf_counters_values s' = ud_perf_counters_values s"
    using f mv by simp_all
  show "header b s' = header b s" using f mv by (simp add: header_def)
  have n: "counts s2 = counts s1" using m by (auto simp: moved_def)
  obtain r extra where r: "(xed_question b s, r) \<in> set h" "has_extra ctx \<longrightarrow> extra_from ctx h extra"
    "written h = verdict_bytes b ctx cur s (xed_answer r) extra"
    using j unfolding judged_def by blast
  obtain k where k: "trace s' = trace s2 @ k"
    using extends_same(7) [OF st [unfolded starts_def]] by blast
  have "written h = [] \<longleftrightarrow> saved_as b ctx cur s (xed_answer r) = NOT_INTERESTING"
    using r(3) by (simp add: verdict_bytes_def record_bytes_def)
  then have "instructions_saved (counts s') = instructions_saved (counts s) +
      of_nat (length (verdict_records b ctx cur s (xed_answer r) extra))"
    using t n starts_outcome(9) [OF st] by (simp add: tallied_def verdict_records_def Let_def)
  moreover have "trace s' = trace s @ h @ k" using k mv(5) f(1) by simp
  moreover have "written (trace s') = written (trace s) @ verdict_bytes b ctx cur s (xed_answer r) extra"
    using starts_outcome(7) [OF st] mv(5) f(1) r(3) by simp
  ultimately show "\<exists>h r extra. trace s' = trace s @ h \<and> (xed_question b s, r) \<in> set h \<and>
      (has_extra ctx \<longrightarrow> extra_from ctx h extra) \<and>
      written (trace s') = written (trace s) @ verdict_bytes b ctx cur s (xed_answer r) extra \<and>
      instructions_saved (counts s') = instructions_saved (counts s) +
        of_nat (length (verdict_records b ctx cur s (xed_answer r) extra))"
    using r(1,2) extra_from_append(1)
    by (intro exI [of _ "h @ k"] exI [of _ r] exI [of _ extra]) auto
qed

lemma log_ok_again:
  assumes "log_ok b e s js" and "starts_again b ctx cur s s'"
    and "search_of s' = search_of s \<or> search_step (cpu_mode b) (search_of s) (search_of s')"
    and "copied (trace s') = copied (trace s) @ [current s']"
  shows "log_ok b e s' js"
proof -
  obtain rss ds hist where l: "list_all2 (filed b e) js rss"
    "list_all2 (entry b (ud_perf_counters_values s)) (concat rss) ds"
    "written (trace s) = header b s @ concat ds" "instructions_saved (counts s) = of_nat (length (concat rss))"
    and h: "search_run (cpu_mode b) (search_of s) (hist @ [current s])"
    "subseq (hist @ [current s]) (copied (trace s))" "subseq (map (\<lambda>(ctx, t, t'). current t) js) hist"
    using assms(1) unfolding log_ok_def by blast
  have "\<exists>hist'. search_run (cpu_mode b) (search_of s') (hist' @ [current s']) \<and>
      subseq (hist' @ [current s']) (copied (trace s')) \<and> subseq (map (\<lambda>(ctx, t, t'). current t) js) hist'"
    using assms(3)
  proof
    assume same: "search_of s' = search_of s"
    then have c: "current s' = current s" by (rule current_search)
    have "subseq (hist @ [current s']) (copied (trace s'))"
      unfolding c assms(4) using h(2) by (rule list_emb_prefix)
    then show ?thesis using h same c by (intro exI [of _ hist]) simp
  next
    assume "search_step (cpu_mode b) (search_of s) (search_of s')"
    from run_step [OF h(1) this] show ?thesis
      using list_emb_append_mono [OF h(2), of "[current s']" "[current s']"] assms(4) list_emb_prefix [OF h(3)]
      by (intro exI [of _ "hist @ [current s]"]) simp
  qed
  then show ?thesis unfolding log_ok_def using l again_kept [OF assms(2)] by metis
qed

lemma log_ok_stepped:
  fixes s :: "'z loop_state_scheme"
  assumes "log_ok b e s js" and st: "stepped b ctx (counters_read b e s) s s'"
    and ok: "loop_ok b s" "unat (exception_number ctx) < 22"
      "length (ud_perf_counters_values s) = PERF_EVENTS_COUNT b"
    and "search_step (cpu_mode b) (search_of s) (search_of s')"
    and "copied (trace s') = copied (trace s) @ [current s']"
  shows "log_ok b e s' (js @ [(ctx, s, s')])"
proof -
  obtain rss ds hist where l: "list_all2 (filed b e) js rss"
    "list_all2 (entry b (ud_perf_counters_values s)) (concat rss) ds"
    "written (trace s) = header b s @ concat ds" "instructions_saved (counts s) = of_nat (length (concat rss))"
    and h: "search_run (cpu_mode b) (search_of s) (hist @ [current s])"
    "subseq (hist @ [current s]) (copied (trace s))" "subseq (map (\<lambda>(ctx, t, t'). current t) js) hist"
    using assms(1) unfolding log_ok_def by blast
  note k = stepped_kept [OF st ok(1)]
  obtain g r extra where g: "trace s' = trace s @ g" "(xed_question b s, r) \<in> set g"
    "has_extra ctx \<longrightarrow> extra_from ctx g extra"
    "written (trace s') = written (trace s) @ verdict_bytes b ctx (counters_read b e s) s (xed_answer r) extra"
    "instructions_saved (counts s') = instructions_saved (counts s) +
      of_nat (length (verdict_records b ctx (counters_read b e s) s (xed_answer r) extra))"
    using k(5) by blast
  let ?new = "verdict_records b ctx (counters_read b e s) s (xed_answer r) extra"
  obtain ds' where d: "list_all2 (entry b (ud_perf_counters_values s)) ?new ds'"
    "concat ds' = verdict_bytes b ctx (counters_read b e s) s (xed_answer r) extra"
    using verdict_bytes_entries [OF ok(1,2) counters_read_length ok(3)] by blast
  have "filed b e (ctx, s, s') ?new" using g(1-3) unfolding filed_def by blast
  then have "list_all2 (filed b e) (js @ [(ctx, s, s')]) (rss @ [?new])"
    using l(1) by (simp add: list_all2_appendI)
  moreover have "list_all2 (entry b (ud_perf_counters_values s')) (concat (rss @ [?new])) (ds @ ds')"
    using l(2) d(1) k(4) by (simp add: list_all2_appendI)
  moreover have "written (trace s') = header b s' @ concat (ds @ ds')"
    using l(3) g(4) d(2) k(3) by simp
  moreover have "instructions_saved (counts s') = of_nat (length (concat (rss @ [?new])))"
    using l(4) g(5) by simp
  moreover have "subseq ((hist @ [current s]) @ [current s']) (copied (trace s'))"
    using list_emb_append_mono [OF h(2), of "[current s']" "[current s']"] assms(7) by simp
  moreover have "subseq (map (\<lambda>(ctx, t, t'). current t) (js @ [(ctx, s, s')])) (hist @ [current s])"
    using h(3) by (simp add: list_emb_append_mono)
  ultimately show ?thesis unfolding log_ok_def using run_step [OF h(1) assms(6)] by blast
qed

text \<open>The measurements come before, and leave the head of the file.\<close>

lemma measured_next:
  fixes s :: "'z loop_state_scheme"
  assumes "session b e s" and "\<not> searching b s" and "handle_exception b e ctx s = User s'"
  shows "counts s' = counts s \<and> (searching b s' \<longrightarrow> search_of s' = search_start \<and>
    written (trace s') = header b s' \<and> last_run s' [0])"
proof -
  have ok: "session_ok b s" using assms(1) by (rule session_invariant)
  then have save: "can_save b s" by (simp add: session_ok_def)
  from ok show ?thesis
  proof (cases rule: phase_cases)
    case ud
    have "ud2_next b (counters_read b e s) s s'"
      using ends_measure_ud2 [OF save ud(2), of e ctx] assms(3) by simp
    then show ?thesis using ud(1)
      by (auto simp: ud2_next_def ud_phase_def remeasured_def searching_def header_def search_of_def
          search_start_def split: if_splits)
  next
    case nop
    then have m: "count_nops b" "measuring_nop s" by (simp_all add: nop_phase_def)
    have "nop_next b (counters_read b e s) s s'"
      using ends_measure_nop [OF save nop(2) m, of e ctx] assms(3) by simp
    then show ?thesis using nop(1)
      by (auto simp: nop_next_def nop_phase_def remeasured_def searching_def header_def search_of_def
          search_start_def split: if_splits)
  next
    case search
    then show ?thesis using assms(2) by simp
  qed
qed

lemma log_ok_start:
  assumes "search_of s = search_start" and "written (trace s) = header b s" and "last_run s [0]"
    and "instructions_saved (counts s) = 0"
  shows "log_ok b e s []"
proof -
  have c: "current s = [0]" using assms(1) by (simp add: search_of_def search_start_def current_def)
  have "search_run (cpu_mode b) (search_of s) ([] @ [current s])"
    using search_run.start assms(1) by (simp add: c)
  moreover have "subseq ([] @ [current s]) (copied (trace s))"
    using assms(3) last_in_set [of "copied (trace s)"]
    by (simp add: c subseq_singleton_left last_run_def)
  ultimately show ?thesis unfolding log_ok_def using assms(2,4)
    by (intro exI [of _ "[]"] conjI) simp_all
qed

lemma session_log_ok:
  "session_log b e s js \<Longrightarrow>
   if searching b s then log_ok b e s js else js = [] \<and> instructions_saved (counts s) = 0"
proof (induction rule: session_log.induct)
  case (boot s s')
  have u: "ud_phase b s'" using boot by (rule boot_run)
  obtain s'' where "(execute_ud b e s :: (unit, 'a loop_state_scheme) run) = User s''"
    "extends s (run_calls b s [0x0f, 0x0b] 2) s''"
    using execute_instruction_extends [of b e "[0x0f, 0x0b]" 2 s] unfolding execute_ud_def by auto
  then have "counts s' = counts s" using boot(2) extends_same(8) by auto
  then show ?case using u boot(1) by (simp add: ud_phase_def searching_def boot_ok_def)
next
  case (exception s js ctx s')
  have ses: "session b e s" using exception.hyps(1) by (rule session_log_session)
  show ?case
  proof (cases "searching b s")
    case False
    then have js: "js = []" "instructions_saved (counts s) = 0" using exception.IH by simp_all
    from measured_next [OF ses False exception.hyps(3)] show ?thesis
      using js False by (auto intro: log_ok_start)
  next
    case True
    then have log: "log_ok b e s js" using exception.IH by simp
    have ok: "loop_ok b s" "length (ud_perf_counters_values s) = PERF_EVENTS_COUNT b"
      using session_invariant [OF ses] by (simp_all add: session_ok_def lengths_ok_def)
    have c: "copied (trace s') = copied (trace s) @ [current s']"
      using session_copied [OF ses True exception.hyps(3)] by (simp add: current_def)
    have "starts_again b ctx (counters_read b e s) s s' \<or> stepped b ctx (counters_read b e s) s s'"
      using searching_outcome [OF ses True, of ctx] unfolding exception.hyps(3) by simp
    then show ?thesis
    proof
      assume a: "starts_again b ctx (counters_read b e s) s s'"
      have "search_of s' = search_of s \<or> search_step (cpu_mode b) (search_of s) (search_of s')"
        using searching_refines [OF ses True exception.hyps(3)] by blast
      from log_ok_again [OF log a this c] show ?thesis using again_kept [OF a] True by simp
    next
      assume a: "stepped b ctx (counters_read b e s) s s'"
      from log_ok_stepped [OF log a ok(1) exception.hyps(2) ok(2) stepped_step [OF a ok(1)] c]
      show ?thesis using stepped_kept(1,2) [OF a ok(1)] True by simp
    qed
  qed
qed

end
