(* ===== verification/Session.thy ===== *)
theory Session
  imports Session_Log
begin

text \<open>
  What a session of the program does: the properties of the exception handler and of whole sessions,
  each with a concrete instance on the build of the Makefile.
\<close>

section \<open>A machine for the instances\<close>

text \<open>The state of the sources' initialisers once the file is open and the counters are chosen, for
  the Makefile's build on Skylake.\<close>

definition sample_build :: build where "sample_build = makefile_build Mode64"

definition sample_boot :: loop_state where
  "sample_boot = \<lparr>trace = [], output_file = 0x1000, disasm_xed_chip = XED_CHIP_SKYLAKE,
     perf_counters = Some (uarch_perf_counters (hd (intel_uarch_configs sample_build))),
     perf_global_ctrl_enable_all = 7, user_code_page_rw = 0x200000,
     user_code_page_for_exec = 0x201000, xsave_state_area_ptr = 0x300000,
     instruction_bytes = replicate 15 0, cur_instruction_length = 1, cur_byte_index = 0,
     last_instruction_length = 0, counts = no_stats, malformed_instruction_expect_ud = False,
     measuring_ud = True, ud_perf_counters_values = replicate 3 0, measuring_nop = False,
     nop_perf_counters_values = replicate 3 0, last_perf_counters_values = replicate 3 0,
     flush_required = False\<rparr>"

text \<open>The exceptions of the instances: \<open>#UD\<close> and \<open>#DB\<close>, from user mode.\<close>

definition user_exception :: "u64 \<Rightarrow> exception_context" where
  "user_exception n = \<lparr>exception_number = n, slot0 = 0x201fff, slot1 = 0x1b, slot2 = 0x102,
     slot3 = 0, slot4 = 0x23, slot5 = 0\<rparr>"

lemma sample_counters: "PERF_EVENTS_COUNT sample_build = 3"
  by (simp add: PERF_EVENTS_COUNT_def sample_build_def makefile_build_def)

lemma sample_boot_ok: "boot_ok sample_build e sample_boot"
  using sample_counters search_start_ok [of "cpu_mode sample_build"]
  by (simp add: boot_ok_def loop_ok_def can_save_def counters_known_def search_of_def sample_boot_def
      search_start_def intel_uarch_configs_def sample_build_def makefile_build_def no_stats_def)


text \<open>Every session starts, in particular this one.\<close>

lemma session_starts:
  fixes s :: "'z loop_state_scheme"
  assumes "boot_ok b e s"
  shows "\<exists>s' :: 'z loop_state_scheme. session b e s' \<and> session_ok b s' \<and> ud_phase b s' \<and>
    ud_perf_counters_values s' = ud_perf_counters_values s \<and> last_run s' [0x0f, 0x0b]"
proof -
  obtain s' where run: "(execute_ud b e s :: (unit, 'z loop_state_scheme) run) = User s'"
    using execute_instruction_extends [of b e "[0x0f, 0x0b]" 2 s] unfolding execute_ud_def by auto
  show ?thesis using boot_run [OF assms run] session.boot [OF assms run] by blast
qed

lemma counters_zero:
  assumes "\<And>h i. val0 (e h (Rdpmc i)) = 0 \<and> val1 (e h (Rdpmc i)) = 0"
  shows "counters_read b e s = replicate (PERF_EVENTS_COUNT b) 0"
proof -
  have "\<exists>s'. read_counters e xs s = Done (replicate (length xs) 0) s'"
    for xs and s :: "'a world_scheme"
  proof (induction xs arbitrary: s)
    case Nil
    then show ?case by (simp add: run_simps)
  next
    case (Cons x xs)
    have "rdpmc e (of_nat x) s = Done 0 (emit e (Rdpmc (of_nat x)) s)"
      using assms by (simp add: rdpmc_def run_simps join_halves_def)
    then show ?case using Cons.IH [of "emit e (Rdpmc (of_nat x)) s"] by (auto simp: run_simps)
  qed
  from this [of "[0..<PERF_EVENTS_COUNT b]" s] show ?thesis by (auto simp: counters_read_def)
qed

lemma counters_ok_env: "counters_read b ok_env s = replicate (PERF_EVENTS_COUNT b) 0"
  by (rule counters_zero) (simp add: ok_env_def)

lemma ok_env_writes: "honest ok_env s \<Longrightarrow> \<not> write_failed (trace s)"
  unfolding write_failed_def by (auto dest!: dialogue_answer simp: ok_env_def)

text \<open>With a firmware that accepts everything and a \<open>ud2\<close> that counts nothing, one \<open>#UD\<close> is enough
  to measure it.\<close>

lemma measured_at_once:
  assumes accepts: "\<And>s :: loop_state. honest e s \<Longrightarrow> \<not> write_failed (trace s)"
    and zero: "\<And>s :: loop_state. last_run s [0x0f, 0x0b] \<Longrightarrow>
      counters_read sample_build e s = replicate 3 0"
  shows "\<exists>s :: loop_state. session sample_build e s \<and> searching sample_build s \<and>
     search_of s = search_start \<and> last_run s [0] \<and> ud_perf_counters_values s = replicate 3 0"
proof -
  let ?b = sample_build and ?c = "user_exception 6"
  obtain s :: loop_state where s: "session ?b e s" "session_ok ?b s" "ud_phase ?b s"
    "ud_perf_counters_values s = replicate 3 0" "last_run s [0x0f, 0x0b]"
    using session_starts [OF sample_boot_ok, of e] by (auto simp: sample_boot_def)
  have ud: "exception_number ?c = EXCEPTION_INVALID_OPCODE" "unat (exception_number ?c) < 22"
    by (simp_all add: user_exception_def EXCEPTION_INVALID_OPCODE_def)
  have "can_save ?b s" "measuring_ud s" using s by (simp_all add: session_ok_def ud_phase_def)
  from ends_measure_ud2 [OF this, of e ?c] obtain s' where
    "handle_exception ?b e ?c s = User s' \<and> ud2_next ?b (replicate 3 0) s s' \<or>
     handle_exception ?b e ?c s = Halted s' \<and> write_failed (trace s')"
    using ud(1) by (cases "handle_exception ?b e ?c s") (auto simp: zero [OF s(5)])
  moreover have "honest e s'" if "handle_exception ?b e ?c s = Halted s'"
    using handled_honest [OF that session_honest [OF s(1)]] by simp
  ultimately have run: "handle_exception ?b e ?c s = User s'" and u: "ud2_next ?b (replicate 3 0) s s'"
    using accepts by blast+
  have "\<not> restart_required ?b (replicate 3 0) (ud_perf_counters_values s)"
    unfolding s(4) by (simp add: restart_required_def)
  then have "searching ?b s'" "search_of s' = search_start" "last_run s' [0]" using u s(3)
    by (auto simp: ud2_next_def searching_def remeasured_def ud_phase_def sample_build_def search_of_def
        search_start_def makefile_build_def split: if_splits)
  moreover have "session ?b e s'" using s(1) ud(2) run by (rule session.exception)
  ultimately show ?thesis using u by (auto simp: ud2_next_def)
qed

lemma sample_search:
  "\<exists>s :: loop_state. session sample_build ok_env s \<and> searching sample_build s \<and> search_of s = search_start"
  using measured_at_once [OF ok_env_writes counters_ok_env [of sample_build, unfolded sample_counters]]
  by blast

lemma sample_step:
  assumes "stepped sample_build c cur s s'" and "search_of s = (of_nat n # replicate 14 0, 0, 1, last_len)"
    and "n < 255" and "loop_ok sample_build s"
  shows "\<exists>last_len. search_of s' = (of_nat (Suc n) # replicate 14 0, 0, 1, last_len)"
proof -
  let ?b = "of_nat n # replicate 14 0 :: u8 list"
  obtain h s1 s2 where p: "proceeds s h s1" "moved sample_build s1 s2" "starts sample_build s2 s'"
    using assms(1) unfolding stepped_def by blast
  have "unat (of_nat n :: u8) = n" using assms(3) by (simp add: unat_of_nat)
  then have "(of_nat n :: u8) \<noteq> 0xff" using assms(3) by auto
  then have "next_candidate Mode64 ?b 0 1 = Candidate (of_nat (Suc n) # replicate 14 0) 0 1 False"
    using next_candidate_accept [of 0 ?b Mode64 1] by (simp add: one_byte_not_rejected add.commute)
  then obtain last' where
    "advance Mode64 ?b 0 1 last_len = (Candidate (of_nat (Suc n) # replicate 14 0) 0 1 False, last')"
    using one_byte_advance [of "of_nat n" last_len] by auto
  then have "search_of s2 = (of_nat (Suc n) # replicate 14 0, 0, 1, last')"
    using p(2) proceeds_fields(4) [OF p(1)] assms(2)
    by (auto simp: moved_def search_of_def sample_build_def makefile_build_def)
  then show ?thesis using starts_outcome(1) [OF p(3)] by auto
qed

lemma sample_not_finished:
  assumes "search_of s = (of_nat n # replicate 14 0, 0, 1, last_len)" and "n < 255"
  shows "\<not> finished sample_build c cur s s'"
proof -
  let ?b = "of_nat n # replicate 14 0 :: u8 list"
  have "unat (of_nat n :: u8) = n" using assms(2) by (simp add: unat_of_nat)
  then have "(of_nat n :: u8) \<noteq> 0xff" using assms(2) by auto
  then have "next_candidate Mode64 ?b 0 1 = Candidate (of_nat (Suc n) # replicate 14 0) 0 1 False"
    using next_candidate_accept [of 0 ?b Mode64 1] by (simp add: one_byte_not_rejected add.commute)
  then have "\<not> at_end sample_build s1" if "proceeds s h s1" for h s1
    using one_byte_advance [of "of_nat n" last_len] proceeds_fields(4) [OF that] assms(1)
    by (auto simp: at_end_def search_of_def sample_build_def makefile_build_def)
  then show ?thesis by (auto simp: finished_def)
qed

lemma search_start_eq: "search_start = (of_nat 0 # replicate 14 0, 0, 1, 0)"
  by (simp add: search_start_def numeral_eq_Suc)

text \<open>A session of one-byte instructions does not stop before the last of them.\<close>

lemma goes_on:
  assumes accepts: "\<And>s :: loop_state. honest e s \<Longrightarrow> \<not> write_failed (trace s)"
    and s: "session sample_build e (s :: loop_state)" "searching sample_build s"
      "search_of s = (of_nat n # replicate 14 0, 0, 1, last_len)" "n < 255"
  shows "\<exists>s'. handle_exception sample_build e c s = User s' \<and>
    (starts_again sample_build c (counters_read sample_build e s) s s' \<or>
     stepped sample_build c (counters_read sample_build e s) s s')"
proof -
  have "\<not> write_failed (trace s')" if "handle_exception sample_build e c s = Halted s'" for s'
    using handled_honest [OF that session_honest [OF s(1)]] accepts by simp
  then show ?thesis using searching_outcome [OF s(1,2), of c] sample_not_finished [OF s(3,4)]
    by (cases "handle_exception sample_build e c s") auto
qed

section \<open>Running one instruction\<close>

text \<open>C19: running an instruction does exactly this, and returns to no one: the counters are stopped,
  cleared and started; the bytes are copied so that the last one ends the code page; their cache
  line is flushed, the extended state reset, and \<open>iretq\<close> jumps to the first byte, with every other
  register zero and the trap flag set.\<close>

theorem execute_instruction_exact:
  fixes s :: "'z loop_state_scheme"
  shows "\<exists>h start. (execute_instruction b e ins n s :: ('a, 'z loop_state_scheme) run) = User (s\<lparr>trace := trace s @ h\<rparr>) \<and>
     start + of_nat n = 0x1000 \<and>
     map fst h =
       [Wrmsr 0x38f 0 0] @ map (\<lambda>i. Wrmsr (0xc1 + of_nat i) 0 0) [0..<PERF_EVENTS_COUNT b] @
       [Wrmsr 0x38f (low_half (perf_global_ctrl_enable_all s)) (high_half (perf_global_ctrl_enable_all s)),
        CopyMem (user_code_page_rw s + start) (take n ins),
        Clflush (user_code_page_rw s + start),
        Xrstor (xsave_state_area_ptr s),
        Iretq \<lparr>fr_rip = user_code_page_for_exec s + start, fr_cs = 0x1b, fr_rflags = 0x102,
               fr_rsp = 0, fr_ss = 0x23\<rparr> (replicate 15 0)]"
proof -
  obtain h where
    "(execute_instruction b e ins n s :: ('a, 'z loop_state_scheme) run) = User (s\<lparr>trace := trace s @ h\<rparr>)"
    "map fst h = run_calls b s ins n"
    using execute_instruction_extends [of b e ins n s] unfolding extends_def by blast
  then show ?thesis
    by (intro exI [of _ h] exI [of _ "0x1000 - of_nat n"])
       (simp add: run_calls_def Let_def MSR_IA32_PERF_GLOBAL_CTRL_def MSR_IA32_PMC_def)
qed

section \<open>The variables of a session\<close>

text \<open>C13: at every moment of a session each variable has a value of its kind: the instruction is an array
  of 15 bytes, its length and the byte index point into it, the bytes after the index are zero, the
  tables of counters have one entry per counter, the file is open, and the flag of a malformed VEX
  prefix is off (it is never set).\<close>

theorem session_well_typed:
  assumes "session b e s"
  shows "length (instruction_bytes s) = 15 \<and>
    cur_byte_index s < cur_instruction_length s \<and> cur_instruction_length s \<le> 15 \<and>
    (\<forall>i<15. cur_byte_index s < i \<longrightarrow> instruction_bytes s ! i = 0) \<and>
    (\<exists>infos. perf_counters s = Some infos \<and> length infos = PERF_EVENTS_COUNT b) \<and>
    length (ud_perf_counters_values s) = PERF_EVENTS_COUNT b \<and>
    (count_nops b \<and> searching b s \<longrightarrow> length (nop_perf_counters_values s) = PERF_EVENTS_COUNT b) \<and>
    output_file s \<noteq> 0 \<and> \<not> malformed_instruction_expect_ud s"
proof -
  have ok: "loop_ok b s" "lengths_ok b s" using session_invariant [OF assms] by (simp_all add: session_ok_def)
  then have "search_inv (cpu_mode b) (instruction_bytes s) (cur_byte_index s) (cur_instruction_length s)"
    by (simp add: loop_ok_def search_ok_def search_of_def)
  then show ?thesis using ok
    by (auto simp: search_inv_def zero_from_def loop_ok_def lengths_ok_def counters_known_def)
qed

theorem session_well_typed_witness:
  "\<exists>s :: loop_state. session sample_build ok_env s \<and> searching sample_build s \<and>
     length (instruction_bytes s) = 15 \<and> length (ud_perf_counters_values s) = 3 \<and> output_file s \<noteq> 0"
proof -
  obtain s :: loop_state where s: "session sample_build ok_env s" "searching sample_build s"
    using sample_search by blast
  from session_well_typed [OF s(1)] show ?thesis using s sample_counters by (intro exI [of _ s]) simp
qed

section \<open>Every exception is handled\<close>

text \<open>C9: no exception of a session leads to an access outside an object: its handling always runs
  an instruction again, in a state of the session, or stops for one of four reasons: the firmware
  refused a write, an unexpected exception while \<open>ud2\<close> or \<open>nop\<close> is measured, or the search is over.
  A session is one of a build that saves (\<open>NO_SAVE\<close> off) whose save file is open.\<close>

theorem exception_always_handled:
  assumes "session b e s" and "unat (exception_number ctx) < 22"
  shows "(\<exists>s'. handle_exception b e ctx s = User s' \<and> session b e s') \<or>
    (\<exists>s'. handle_exception b e ctx s = Halted s' \<and> stops b ctx (counters_read b e s) s s')"
proof -
  from session_ok_exception [OF session_invariant [OF assms(1)], of e ctx] show ?thesis
    using session.exception [OF assms] by (cases "handle_exception b e ctx s") auto
qed

theorem exception_always_handled_witness:
  "\<exists>s :: loop_state. (\<exists>s'. handle_exception sample_build ok_env (user_exception 1) s = User s' \<and>
       session sample_build ok_env s') \<or>
     (\<exists>s'. handle_exception sample_build ok_env (user_exception 1) s = Halted s' \<and>
       stops sample_build (user_exception 1) (counters_read sample_build ok_env s) s s')"
proof -
  obtain s :: loop_state where "session sample_build ok_env s" using sample_search by blast
  moreover have "unat (exception_number (user_exception 1)) < 22" by (simp add: user_exception_def)
  ultimately show ?thesis by (intro exI [of _ s]) (rule exception_always_handled)
qed

section \<open>Measuring the reference values\<close>

lemma one_measurement:
  fixes s :: "'z loop_state_scheme"
  assumes ok: "session_ok b s" and "measuring_ud s" and "handle_exception b e ctx s = User s'"
  shows "session_ok b s'" and "measuring_ud s' \<longleftrightarrow> counters_read b e s \<noteq> ud_perf_counters_values s"
    and "ud_perf_counters_values s' = counters_read b e s"
    and "written (trace s') = (if measuring_ud s' then [] else concat (map leb128 (counters_read b e s)))"
proof -
  let ?cur = "counters_read b e s"
  from ok have phase: "ud_phase b s" using assms(2) by (cases rule: phase_cases) simp_all
  have "can_save b s" using ok by (simp add: session_ok_def)
  from ends_measure_ud2 [OF this assms(2), of e ctx] have u: "ud2_next b ?cur s s'"
    using assms(3) by simp
  have "perf_counters_values_match b ?cur (ud_perf_counters_values s) \<longleftrightarrow> ?cur = ud_perf_counters_values s"
    using ok counters_read_length by (intro match_eq) (simp_all add: session_ok_def lengths_ok_def)
  then have "restart_required b ?cur (ud_perf_counters_values s) \<longleftrightarrow> ?cur \<noteq> ud_perf_counters_values s"
    by (auto simp: restart_required_def perf_counters_values_match_def)
  then show "measuring_ud s' \<longleftrightarrow> counters_read b e s \<noteq> ud_perf_counters_values s"
    "ud_perf_counters_values s' = counters_read b e s"
    "written (trace s') = (if measuring_ud s' then [] else concat (map leb128 (counters_read b e s)))"
    using u phase by (auto simp: ud2_next_def ud_phase_def split: if_splits)
  show "session_ok b s'" using measured_ud2 [OF ok phase counters_read_length u] .
qed

text \<open>C18: how the reference values of \<open>ud2\<close> are found. After a run, the measurement goes on exactly if the
  counters differ from the values kept so far, which they replace; they are written at the head of the
  file exactly when it ends. So once a run was not the last one, the next run ends the measurement
  exactly if the two, one after the other, have the same counters. The first run is compared with the
  initial values of the variable, zeros: see \<open>zero_first_run\<close>.\<close>

theorem reference_values_agree:
  assumes "session b e s" and "measuring_ud s" and "handle_exception b e ctx s = User s'"
  shows "(measuring_ud s' \<longleftrightarrow> counters_read b e s \<noteq> ud_perf_counters_values s) \<and>
    ud_perf_counters_values s' = counters_read b e s \<and>
    written (trace s') = (if measuring_ud s' then [] else concat (map leb128 (counters_read b e s))) \<and>
    (measuring_ud s' \<longrightarrow> (\<forall>ctx' s''. handle_exception b e ctx' s' = User s'' \<longrightarrow>
       (measuring_ud s'' \<longleftrightarrow> counters_read b e s' \<noteq> counters_read b e s) \<and>
       ud_perf_counters_values s'' = counters_read b e s' \<and>
       written (trace s'') = (if measuring_ud s'' then [] else concat (map leb128 (counters_read b e s')))))"
proof -
  note one = one_measurement [OF session_invariant [OF assms(1)] assms(2,3)]
  have "(measuring_ud s'' \<longleftrightarrow> counters_read b e s' \<noteq> counters_read b e s) \<and>
       ud_perf_counters_values s'' = counters_read b e s' \<and>
       written (trace s'') = (if measuring_ud s'' then [] else concat (map leb128 (counters_read b e s')))"
    if "measuring_ud s'" "handle_exception b e ctx' s' = User s''" for ctx' s''
    using one_measurement(2-4) [OF one(1) that] unfolding one(3) by blast
  then show ?thesis using one(2-4) by blast
qed

text \<open>The first run of \<open>ud2\<close> is taken for a second one if it counts nothing.\<close>

lemma zero_first_run:
  fixes s :: "'z loop_state_scheme"
  assumes "boot_ok b e s" and "(execute_ud b e s :: (unit, 'z loop_state_scheme) run) = User s1"
    and "handle_exception b e ctx s1 = User s2"
  shows "measuring_ud s2 \<longleftrightarrow> counters_read b e s1 \<noteq> replicate (PERF_EVENTS_COUNT b) 0"
proof -
  have "session_ok b s1" "measuring_ud s1" using boot_run [OF assms(1,2)] by (simp_all add: ud_phase_def)
  moreover have "ud_perf_counters_values s1 = replicate (PERF_EVENTS_COUNT b) 0"
    using boot_run(3) [OF assms(1,2)] assms(1) by (simp add: boot_ok_def)
  ultimately show ?thesis using one_measurement(2) [of b s1 e ctx s2] assms(3) by simp
qed

text \<open>In a build that does not save, no file is ever open (\<open>open_save_file\<close> leaves the pointer NULL),
  but the reference values are written all the same: the end of the measurement uses the NULL pointer.
  This is why a session is one of a build that saves.\<close>

lemma no_file_crashes: "output_file s = 0 \<Longrightarrow> save_uint64_array e (v # vs) s = Crash s"
  by (simp add: save_uint64_eq save_data_def run_simps)

lemma save_reference_crashes:
  fixes t :: "'z loop_state_scheme"
  assumes "output_file t = 0" and "counters_known b t"
  shows "\<exists>s'. save_reference_values b e what (v # vs) t = Crash s'"
proof -
  let ?title = "wide (what @ '' performance counters values:'' @ crlf)"
  obtain k where p: "print e ?title t = Done () (t\<lparr>trace := k\<rparr>)"
    by (auto simp: print_apply extu_apply emit_def)
  obtain h where "print_counters b e (v # vs) (t\<lparr>trace := k\<rparr>) = Done () (t\<lparr>trace := k @ h\<rparr>)"
    using talks_print_counters [OF assms(2), of e "v # vs"] by (auto simp: talks_def)
  then show ?thesis using p assms(1)
    by (simp add: save_reference_values_def andthen_def no_file_crashes del: save_uint64_array.simps)
qed

lemma no_save_crashes:
  fixes s :: "'z loop_state_scheme"
  assumes "output_file s = 0" and "counters_known b s" and "exception_number ctx = EXCEPTION_INVALID_OPCODE"
    and "\<not> restart_required b (v # vs) (ud_perf_counters_values s)"
  shows "\<exists>s'. check_ud2_measurements b e ctx (v # vs) s = Crash s'"
proof -
  let ?t = "s\<lparr>ud_perf_counters_values := v # vs, measuring_ud := False\<rparr>"
  have "output_file ?t = 0" "counters_known b ?t" using assms(1,2) by (simp_all add: counters_known_def)
  then obtain s' where "save_reference_values b e ''UD2'' (v # vs) ?t = Crash s'"
    using save_reference_crashes by blast
  then show ?thesis using assms(3,4) by (simp add: check_ud2_measurements_def run_simps)
qed

section \<open>The search and the session\<close>

text \<open>C4: the session implements the search. An exception that finds the program searching either
  runs the same instruction again, which happens only when it is \<open>#UD\<close> with counters that differ
  from those of the previous run, or makes exactly one step of the search; either way the
  instruction that runs next is the one the new search variables describe.\<close>

theorem session_refines_search:
  assumes "session b e s" and "searching b s" and "handle_exception b e ctx s = User s'"
  shows "(exception_number ctx = 6 \<and> counters_read b e s \<noteq> last_perf_counters_values s \<and>
        search_of s' = search_of s \<or>
      search_step (cpu_mode b) (search_of s) (search_of s')) \<and>
    copied (trace s') = copied (trace s) @ [take (cur_instruction_length s') (instruction_bytes s')]"
  using searching_refines [OF assms] session_copied [OF assms]
  by (auto simp: unstable_def restart_required_def exception_numbers_unat)

text \<open>A CPU on which every counter reads 5 after every instruction.\<close>

definition five_env :: env where
  "five_env h c =
     \<lparr>status = EFI_SUCCESS, val0 = (case c of Rdpmc i \<Rightarrow> 5 | _ \<Rightarrow> 0), val1 = 0, val2 = 0, val3 = 0\<rparr>"

lemma five_env_writes: "honest five_env s \<Longrightarrow> \<not> write_failed (trace s)"
  unfolding write_failed_def by (auto dest!: dialogue_answer simp: five_env_def)

lemma counters_five_env: "counters_read sample_build five_env s = replicate 3 5"
proof -
  have "\<exists>s'. read_counters five_env xs s = Done (replicate (length xs) 5) s'"
    for xs and s :: "'a world_scheme"
  proof (induction xs arbitrary: s)
    case Nil
    then show ?case by (simp add: run_simps)
  next
    case (Cons x xs)
    have "rdpmc five_env (of_nat x) s = Done 5 (emit five_env (Rdpmc (of_nat x)) s)"
      by (simp add: rdpmc_def run_simps join_halves_def five_env_def)
    then show ?case using Cons.IH [of "emit five_env (Rdpmc (of_nat x)) s"] by (auto simp: run_simps)
  qed
  from this [of "[0..<PERF_EVENTS_COUNT sample_build]" s] show ?thesis
    by (auto simp: counters_read_def sample_counters)
qed

lemma measuring_goes_on:
  fixes s :: loop_state
  assumes "session sample_build five_env s" and "measuring_ud s"
  shows "\<exists>s'. handle_exception sample_build five_env (user_exception 6) s = User s' \<and>
    session sample_build five_env s'"
proof -
  let ?b = sample_build and ?c = "user_exception 6"
  have n: "unat (exception_number ?c) < 22" "exception_number ?c = EXCEPTION_INVALID_OPCODE"
    by (simp_all add: user_exception_def EXCEPTION_INVALID_OPCODE_def)
  have "\<not> write_failed (trace s')" if "handle_exception ?b five_env ?c s = Halted s'" for s'
    using handled_honest [OF that session_honest [OF assms(1)]] five_env_writes by simp
  moreover have "\<not> searching ?b s" using assms(2) by (simp add: searching_def)
  ultimately show ?thesis
    using session_ok_exception [OF session_invariant [OF assms(1)], of five_env ?c] assms n
      session.exception [OF assms(1) n(1)]
    by (cases "handle_exception ?b five_env ?c s") (auto simp: stops_def)
qed

theorem reference_values_agree_witness:
  "\<exists>(s :: loop_state) s' s''. handle_exception sample_build five_env (user_exception 6) s = User s' \<and>
     measuring_ud s' \<and> handle_exception sample_build five_env (user_exception 6) s' = User s'' \<and>
     \<not> measuring_ud s'' \<and> written (trace s'') = [5, 5, 5]"
proof -
  obtain s :: loop_state where s: "session sample_build five_env s" "measuring_ud s"
    "ud_perf_counters_values s = replicate 3 0"
    using session_starts [OF sample_boot_ok, of five_env] by (auto simp: sample_boot_def ud_phase_def)
  obtain s' where s': "handle_exception sample_build five_env (user_exception 6) s = User s'"
    "session sample_build five_env s'"
    using measuring_goes_on [OF s(1,2)] by blast
  note agree = reference_values_agree [OF s(1,2) s'(1), unfolded counters_five_env s(3)]
  have m: "measuring_ud s'" using agree by simp
  obtain s'' where s'': "handle_exception sample_build five_env (user_exception 6) s' = User s''"
    using measuring_goes_on [OF s'(2) m] by blast
  have "\<not> measuring_ud s''" "written (trace s'') = concat (map leb128 (replicate 3 5))"
    using agree m s'' by auto
  moreover have "leb128 5 = [5]" by (simp add: leb128.simps)
  ultimately show ?thesis using s'(1) m s'' by (auto simp: numeral_eq_Suc)
qed

text \<open>\<open>#DB\<close> is never repeated: the search goes on, or is over.\<close>

lemma sample_debug:
  fixes s :: loop_state
  assumes "session sample_build ok_env s" and "searching sample_build s"
  defines "c \<equiv> user_exception 1"
  shows "(\<exists>s'. handle_exception sample_build ok_env c s = User s' \<and> session sample_build ok_env s' \<and>
        searching sample_build s' \<and> stepped sample_build c (counters_read sample_build ok_env s) s s') \<or>
    (\<exists>s'. handle_exception sample_build ok_env c s = Halted s' \<and> \<not> write_failed (trace s') \<and>
        finished sample_build c (counters_read sample_build ok_env s) s s')"
proof -
  let ?b = sample_build
  have c: "exception_number c = 1" "unat (exception_number c) < 22" by (simp_all add: c_def user_exception_def)
  then have again: "\<not> starts_again ?b c cur s s'" for cur s'
    by (auto simp: starts_again_def unstable_def fetch_fault_def exception_numbers_unat)
  have halt: "\<not> write_failed (trace s')" if "handle_exception ?b ok_env c s = Halted s'" for s'
    using handled_honest [OF that session_honest [OF assms(1)]] ok_env_writes by simp
  have go: "session ?b ok_env s'" "searching ?b s'"
    if "handle_exception ?b ok_env c s = User s'" "stepped ?b c cur s s'" for cur s'
  proof -
    show "session ?b ok_env s'" using assms(1) c(2) that(1) by (rule session.exception)
    have "loop_ok ?b s" using session_invariant [OF assms(1)] by (simp add: session_ok_def)
    from that(2) obtain h s1 s2 where p: "proceeds s h s1" "moved ?b s1 s2" "starts ?b s2 s'"
      unfolding stepped_def by blast
    have "loop_ok ?b s1" using \<open>loop_ok ?b s\<close> proceeds_fields(13) [OF p(1)] by simp
    then show "searching ?b s'"
      using assms(2) proceeds_reference(1) [OF p(1)] moved_step(3) [OF p(2)] starts_outcome(4) [OF p(3)]
      by simp
  qed
  show ?thesis using searching_outcome [OF assms(1,2), of c] again halt go
    by (cases "handle_exception ?b ok_env c s") auto
qed

theorem session_refines_search_witness:
  "\<exists>(s :: loop_state) (s' :: loop_state). session sample_build ok_env s \<and>
     handle_exception sample_build ok_env (user_exception 1) s = User s' \<and>
     search_step (cpu_mode sample_build) (search_of s) (search_of s') \<and>
     copied (trace s') = copied (trace s) @ [take (cur_instruction_length s') (instruction_bytes s')]"
proof -
  obtain s :: loop_state where s: "session sample_build ok_env s" "searching sample_build s"
    "search_of s = search_start"
    using sample_search by blast
  from goes_on [OF ok_env_writes s(1,2), of 0 0 "user_exception 1"]
  obtain s' where run: "handle_exception sample_build ok_env (user_exception 1) s = User s'"
    using s(3) search_start_eq by auto
  have "exception_number (user_exception 1) \<noteq> 6" by (simp add: user_exception_def)
  then show ?thesis using session_refines_search [OF s(1,2) run] s(1) run by blast
qed

section \<open>The log of a session\<close>

lemma decode_values_header:
  "length vs = n \<Longrightarrow> decode_values n (concat (map leb128 vs) @ r) = Some (map unat vs, r)"
  using decode_values_encode [of vs r] by simp

text \<open>C3: at every moment of the search the save file can be read back without knowing anything but
  the build: the reference values of \<open>ud2\<close> (and \<open>nop\<close>, in builds that count it), then records and
  nothing else. The records are exactly those of the session's judgements \<open>js\<close>, in order: each
  exception after which the search went on to other bytes contributes the record of its verdict, with
  the exception, the counters read, the bytes that were run and what XED and the CPU answered, and
  none if the verdict is that the instruction is not interesting. Their number is the program's count
  of saved instructions; no instruction is recorded twice; every one was executed, and its type is
  borne out by the rest of its record.\<close>

theorem session_log_decodes:
  assumes "session_log b e s js" and "searching b s"
  shows "\<exists>rest body rss.
      decode_values (PERF_EVENTS_COUNT b) (written (trace s)) =
        Some (map unat (ud_perf_counters_values s), rest) \<and>
      (if count_nops b then decode_values (PERF_EVENTS_COUNT b) rest =
         Some (map unat (nop_perf_counters_values s), body) else body = rest) \<and>
      list_all2 (filed b e) js rss \<and>
      decode_records (PERF_EVENTS_COUNT b) (length (concat rss)) body = Some (concat rss, []) \<and>
      instructions_saved (counts s) = of_nat (length (concat rss)) \<and>
      distinct (map sv_bytes (concat rss)) \<and>
      (\<forall>r\<in>set (concat rss). sv_bytes r \<in> set (copied (trace s)) \<and>
         meaningful (ud_perf_counters_values s) r)"
proof -
  have ses: "session b e s" using assms(1) by (rule session_log_session)
  have "log_ok b e s js" using session_log_ok [OF assms(1)] assms(2) by simp
  then obtain rss ds where rss: "list_all2 (filed b e) js rss"
    "list_all2 (entry b (ud_perf_counters_values s)) (concat rss) ds"
    and w: "written (trace s) = header b s @ concat ds"
    and n: "instructions_saved (counts s) = of_nat (length (concat rss))"
    and i: "distinct (map sv_bytes (concat rss))" "set (map sv_bytes (concat rss)) \<subseteq> set (copied (trace s))"
    by (rule log_okE)
  have len: "length (ud_perf_counters_values s) = PERF_EVENTS_COUNT b"
    "count_nops b \<Longrightarrow> length (nop_perf_counters_values s) = PERF_EVENTS_COUNT b"
    using session_invariant [OF ses] assms(2) by (simp_all add: session_ok_def lengths_ok_def)
  show ?thesis
    using w len rss(1) n i entries_decode [OF rss(2)] entries_meaningful [OF rss(2)]
    by (intro exI [of _ "(if count_nops b then concat (map leb128 (nop_perf_counters_values s)) else []) @
        concat ds"] exI [of _ "concat ds"] exI [of _ rss])
       (auto simp: header_def decode_values_header)
qed

text \<open>A machine check is recorded, whatever XED says.\<close>

lemma machine_check_filed:
  assumes "filed b e (ctx, s, s') rs" and "exception_number ctx = 18"
  shows "length rs = 1"
  using assms by (auto simp: filed_def verdict_records_def saved_as_def verdict_def exception_numbers_unat)

theorem session_log_decodes_witness:
  "\<exists>(s :: loop_state) js rest rss. session_log sample_build ok_env s js \<and>
      decode_values 3 (written (trace s)) = Some (map unat (ud_perf_counters_values s), rest) \<and>
      list_all2 (filed sample_build ok_env) js rss \<and>
      decode_records 3 (length (concat rss)) rest = Some (concat rss, []) \<and> 1 \<le> length (concat rss)"
proof -
  let ?b = sample_build and ?c = "user_exception 18"
  have c: "exception_number ?c = 18" "unat (exception_number ?c) < 22" by (simp_all add: user_exception_def)
  obtain s :: loop_state where s: "session ?b ok_env s" "searching ?b s"
    "search_of s = (of_nat 0 # replicate 14 0, 0, 1, 0)"
    using sample_search search_start_eq by metis
  obtain js where js: "session_log ?b ok_env s js" using session_has_log [OF s(1)] by blast
  obtain s' where run: "handle_exception ?b ok_env ?c s = User s'"
    "starts_again ?b ?c (counters_read ?b ok_env s) s s' \<or> stepped ?b ?c (counters_read ?b ok_env s) s s'"
    using goes_on [OF ok_env_writes s, of ?c] by auto
  then have st: "stepped ?b ?c (counters_read ?b ok_env s) s s'"
    by (auto simp: starts_again_def unstable_def fetch_fault_def exception_numbers_unat c)
  have "loop_ok ?b s" using session_invariant [OF s(1)] by (simp add: session_ok_def)
  note k = stepped_kept(1,2) [OF st this]
  have log: "session_log ?b ok_env s' (js @ [(?c, s, s')])"
    using session_log.exception [OF js c(2) run(1)] k(1) s(2) by simp
  have "searching ?b s'" using k(2) s(2) by simp
  from session_log_decodes [OF log this] obtain rest rss where r:
    "decode_values 3 (written (trace s')) = Some (map unat (ud_perf_counters_values s'), rest)"
    "list_all2 (filed ?b ok_env) (js @ [(?c, s, s')]) rss"
    "decode_records 3 (length (concat rss)) rest = Some (concat rss, [])"
    unfolding sample_counters by (auto simp: sample_build_def makefile_build_def)
  obtain rss' rs where "rss = rss' @ [rs]" "filed ?b ok_env (?c, s, s') rs"
    using r(2) by (auto simp: list_all2_append1 list_all2_Cons1)
  then have "1 \<le> length (concat rss)" using machine_check_filed c(1) by fastforce
  then show ?thesis using log r by blast
qed

section \<open>What is saved\<close>

text \<open>What the file grows by when no repetition takes place.\<close>

lemma searching_written:
  assumes "session b e s" and "searching b s" and "handle_exception b e ctx s = User s'"
    and "\<not> fetch_fault ctx"
    and "exception_number ctx = 6 \<Longrightarrow>
      \<not> restart_required b (counters_read b e s) (last_perf_counters_values s)"
  shows "\<exists>h extra. written (trace s') = written (trace s) @
    verdict_bytes b ctx (counters_read b e s) s (xed_answer (e h (xed_question b s))) extra"
proof -
  let ?cur = "counters_read b e s"
  have l: "loop_ok b s" using session_invariant [OF assms(1)] by (simp add: session_ok_def)
  have "\<not> starts_again b ctx ?cur s s'" using assms(4,5)
    by (auto simp: starts_again_def unstable_def exception_numbers_unat)
  then have "stepped b ctx ?cur s s'"
    using searching_outcome [OF assms(1,2), of ctx] unfolding assms(3) by simp
  from judged_stepped_written [OF this l] obtain h where
    h: "judged b ctx ?cur s h" "set h \<subseteq> set (trace s')" "written (trace s') = written (trace s) @ written h"
    by blast
  then obtain r extra where r: "(xed_question b s, r) \<in> set h"
    "written h = verdict_bytes b ctx ?cur s (xed_answer r) extra"
    unfolding judged_def by blast
  have "honest e s'" using handled_honest [OF assms(3) session_honest [OF assms(1)]] by simp
  then obtain h0 where "r = e h0 (xed_question b s)" using dialogue_answer r(1) h(2) by blast
  then show ?thesis using r(2) h(3) by auto
qed

text \<open>C2: an instruction hidden behind \<open>#UD\<close> is not lost. When an instruction raises \<open>#UD\<close> twice in a
  row with the same counters, these are not the counters of \<open>ud2\<close>, and XED does not know its bytes,
  then its record, with that verdict and those counters, is the next thing in the file, if the
  program goes on at all.\<close>

theorem hidden_instruction_saved:
  assumes "session b e s" and "searching b s"
    and "exception_number ctx = 6" and "\<not> restart_required b (counters_read b e s) (last_perf_counters_values s)"
    and "counters_read b e s \<noteq> ud_perf_counters_values s"
    and "\<And>h. status (e h (XedDecode (cpu_mode b) (disasm_xed_chip s)
      (take (cur_instruction_length s) (instruction_bytes s)))) \<noteq> 0"
    and "handle_exception b e ctx s = User s'"
  shows "written (trace s') = written (trace s) @
    record_bytes b ctx UNDOCUMENTED_UD (instruction_bytes s) (cur_instruction_length s) False 0
      (counters_read b e s)"
proof -
  let ?cur = "counters_read b e s"
  have "\<not> fetch_fault ctx" using assms(3) by (simp add: fetch_fault_def exception_numbers_unat)
  from searching_written [OF assms(1,2,7) this assms(4)] obtain h extra where
    w: "written (trace s') = written (trace s) @
      verdict_bytes b ctx ?cur s (xed_answer (e h (xed_question b s))) extra"
    by blast
  have "length (ud_perf_counters_values s) = PERF_EVENTS_COUNT b"
    using session_invariant [OF assms(1)] by (simp add: session_ok_def lengths_ok_def)
  then have "\<not> perf_counters_values_match b ?cur (ud_perf_counters_values s)"
    using assms(5) match_eq counters_read_length by blast
  moreover have "xed_answer (e h (xed_question b s)) = 0"
    using assms(6) [of h] by (simp add: xed_answer_def xed_question_def)
  ultimately have "saved_as b ctx ?cur s (xed_answer (e h (xed_question b s))) = UNDOCUMENTED_UD"
    "\<not> has_extra ctx"
    using assms(3) by (simp_all add: saved_as_def verdict_def has_extra_def exception_numbers_unat)
  then show ?thesis using w by (simp add: verdict_bytes_def record_bytes_def)
qed

text \<open>An instance: a CPU on which everything but \<open>ud2\<close> issues five micro-operations, and a XED that
  knows nothing.\<close>

definition slow_env :: env where
  "slow_env h c =
     \<lparr>status = (case c of XedDecode m chip bytes \<Rightarrow> 1 | _ \<Rightarrow> EFI_SUCCESS),
      val0 = (case c of Rdpmc i \<Rightarrow> (if last (copied h) = [0x0f, 0x0b] then 0 else 5) | _ \<Rightarrow> 0),
      val1 = 0, val2 = 0, val3 = 0\<rparr>"

lemma slow_env_writes: "honest slow_env s \<Longrightarrow> \<not> write_failed (trace s)"
  unfolding write_failed_def by (auto dest!: dialogue_answer simp: slow_env_def)

lemma counters_slow_env:
  assumes "last_run s x"
  shows "counters_read b slow_env s =
    replicate (PERF_EVENTS_COUNT b) (if x = [0x0f, 0x0b] then 0 else 5)"
proof -
  let ?v = "if x = [0x0f, 0x0b] then 0 else 5 :: u64"
  have "\<exists>s'. read_counters slow_env xs s = Done (replicate (length xs) ?v) s'"
    if "last_run s x" for xs and s :: "'a world_scheme"
    using that
  proof (induction xs arbitrary: s)
    case Nil
    then show ?case by (simp add: run_simps)
  next
    case (Cons i xs)
    let ?s = "emit slow_env (Rdpmc (of_nat i)) s"
    have "rdpmc slow_env (of_nat i) s = Done ?v ?s"
      using Cons.prems by (simp add: rdpmc_def run_simps slow_env_def join_halves_def last_run_def)
    moreover have "last_run ?s x" using Cons.prems by (simp add: last_run_def)
    ultimately show ?case using Cons.IH [of ?s] by (auto simp: run_simps)
  qed
  from this [OF assms, of "[0..<PERF_EVENTS_COUNT b]"] show ?thesis by (auto simp: counters_read_def)
qed

theorem hidden_instruction_saved_witness:
  "\<exists>(s :: loop_state) s'. handle_exception sample_build slow_env (user_exception 6) s = User s' \<and>
     written (trace s') = written (trace s) @
       record_bytes sample_build (user_exception 6) UNDOCUMENTED_UD (instruction_bytes s)
         (cur_instruction_length s) False 0 (counters_read sample_build slow_env s)"
proof -
  let ?b = sample_build and ?c = "user_exception 6"
  let ?start = "\<lambda>s :: loop_state. session ?b slow_env s \<and> searching ?b s \<and> last_run s [0] \<and>
      search_of s = (of_nat 0 # replicate 14 0, 0, 1, 0) \<and> ud_perf_counters_values s = replicate 3 0"
  have n: "exception_number ?c = 6" "unat (exception_number ?c) < 22" by (simp_all add: user_exception_def)
  obtain s where s: "?start s"
    using search_start_eq measured_at_once [OF slow_env_writes counters_slow_env [of _ "[0x0f, 0x0b]" sample_build,
        unfolded sample_counters, simplified]] by metis
  have cur: "counters_read ?b slow_env t = replicate 3 5" if "?start t" for t
    using that counters_slow_env [of t "[0]" ?b] sample_counters by simp
  have outcome: "\<exists>t'. handle_exception ?b slow_env ?c t = User t' \<and>
      (starts_again ?b ?c (replicate 3 5) t t' \<or> stepped ?b ?c (replicate 3 5) t t')" if "?start t" for t
    using goes_on [of slow_env t 0 0 ?c, OF slow_env_writes] that cur [OF that] by simp
  have "\<exists>t. ?start t \<and> \<not> restart_required ?b (replicate 3 5) (last_perf_counters_values t)"
  proof (cases "restart_required ?b (replicate 3 5) (last_perf_counters_values s)")
    case True
    obtain s' where run: "handle_exception ?b slow_env ?c s = User s'"
      "starts_again ?b ?c (replicate 3 5) s s' \<or> stepped ?b ?c (replicate 3 5) s s'"
      using outcome [OF s] by blast
    moreover have "\<not> stepped ?b ?c (replicate 3 5) s s'"
      using True n(1) by (auto simp: stepped_def judged_def exception_numbers_unat)
    ultimately obtain h s1 where again: "proceeds s h s1" "last_perf_counters_values s1 = replicate 3 5"
      "starts ?b s1 s'"
      using n(1) by (auto simp: starts_again_def fetch_fault_def exception_numbers_unat)
    have "last_perf_counters_values s' = replicate 3 5"
      using again(2,3) by (auto simp: starts_def extends_def)
    then have "\<not> restart_required ?b (replicate 3 5) (last_perf_counters_values s')"
      by (simp add: restart_required_def)
    moreover have "?start s'"
      using s session.exception [OF _ n(2) run(1)] started [OF again(1,3)]
      by (auto simp: last_run_def search_of_def numeral_eq_Suc)
    ultimately show ?thesis by blast
  qed (use s in blast)
  then obtain t where t: "?start t" "\<not> restart_required ?b (replicate 3 5) (last_perf_counters_values t)"
    by blast
  obtain t' where run: "handle_exception ?b slow_env ?c t = User t'" using outcome [OF t(1)] by blast
  have "status (slow_env h (XedDecode m chip bytes)) \<noteq> 0" for h m chip bytes by (simp add: slow_env_def)
  moreover have "replicate 3 5 \<noteq> (replicate 3 0 :: u64 list)" by simp
  ultimately have "written (trace t') = written (trace t) @
       record_bytes ?b ?c UNDOCUMENTED_UD (instruction_bytes t) (cur_instruction_length t) False 0
         (counters_read ?b slow_env t)"
    using t n(1) cur [OF t(1)] run by (intro hidden_instruction_saved) simp_all
  with run show ?thesis by blast
qed

text \<open>A judgement of an anomaly leaves its record.\<close>

lemma anomaly_recorded:
  assumes "fr_cs (frame_of ctx) AND 3 \<noteq> 3 \<or> exception_number ctx = 18"
    and "judged b ctx cur s h"
  shows "\<exists>ty extra. ty \<noteq> NOT_INTERESTING \<and> (exception_number ctx = 18 \<longrightarrow> ty = MACHINE_CHECK) \<and>
    (has_extra ctx \<longrightarrow> extra_from ctx h extra) \<and>
    written h = record_bytes b ctx ty (instruction_bytes s) (cur_instruction_length s) (has_extra ctx) extra cur"
proof -
  obtain r extra where r: "has_extra ctx \<longrightarrow> extra_from ctx h extra"
    "written h = verdict_bytes b ctx cur s (xed_answer r) extra"
    using assms(2) unfolding judged_def by blast
  let ?ty = "saved_as b ctx cur s (xed_answer r)"
  have "?ty \<noteq> NOT_INTERESTING" "exception_number ctx = 18 \<longrightarrow> ?ty = MACHINE_CHECK"
    using assms(1) by (auto simp: saved_as_def verdict_def kernel_mode_def exception_numbers_unat)
  then show ?thesis using r by (intro exI [of _ ?ty] exI [of _ extra]) (simp add: verdict_bytes_def)
qed

lemma stepped_judged:
  assumes "stepped b ctx cur s s' \<or> finished b ctx cur s s'" and "loop_ok b s"
  obtains h where "judged b ctx cur s h" "trace s' = trace s @ h"
proof -
  consider (step) h s1 s2 where "proceeds s h s1" "judged b ctx cur s h" "moved b s1 s2" "starts b s2 s'"
    | (over) h s1 k where "proceeds s h s1" "judged b ctx cur s h" "trace s' = trace s1 @ k" "written k = []"
    using assms(1) unfolding stepped_def finished_def by blast
  then show thesis
  proof cases
    case step
    have "loop_ok b s1" using proceeds_fields(13) [OF step(1)] assms(2) by simp
    then have "trace s2 = trace s1" using moved_step [OF step(3)] by simp
    moreover obtain k where "trace s' = trace s2 @ k" "written k = []"
      using step(4) by (auto simp: starts_def extends_def dest: written_run_calls)
    ultimately have "trace s' = trace s @ (h @ k)" "judged b ctx cur s (h @ k)"
      using proceeds_fields(1) [OF step(1)] judged_append(1) [OF step(2)] by simp_all
    then show thesis using that by blast
  next
    case over
    have "trace s' = trace s @ (h @ k)" "judged b ctx cur s (h @ k)"
      using proceeds_fields(1) [OF over(1)] over(3) judged_append(1) [OF over(2,4)] by simp_all
    then show thesis using that by blast
  qed
qed

text \<open>C11: during the search, what should never happen is not passed over. When the program itself is
  interrupted (the saved code segment is not the user's), or a machine check is reported, then the
  file grows by exactly its record, whatever XED says of the bytes, and whether the program then goes
  on or ends; or it is a \<open>#UD\<close> whose counters are not those of the run before, and the same
  instruction runs again with nothing written; or the program stops because the firmware refused a
  write. A machine check is never of the second kind.\<close>

theorem anomalies_saved:
  assumes "session b e s" and "searching b s"
    and "fr_cs (frame_of ctx) AND 3 \<noteq> 3 \<or> exception_number ctx = 18"
  shows "\<exists>s'. (handle_exception b e ctx s = User s' \<or> handle_exception b e ctx s = Halted s') \<and>
    ((\<exists>ty extra. ty \<noteq> NOT_INTERESTING \<and> (exception_number ctx = 18 \<longrightarrow> ty = MACHINE_CHECK) \<and>
        written (trace s') = written (trace s) @
          record_bytes b ctx ty (instruction_bytes s) (cur_instruction_length s) (has_extra ctx) extra
            (counters_read b e s)) \<or>
     handle_exception b e ctx s = User s' \<and> exception_number ctx = 6 \<and>
        restart_required b (counters_read b e s) (last_perf_counters_values s) \<and>
        written (trace s') = written (trace s) \<and> search_of s' = search_of s \<and>
        last_run s' (take (cur_instruction_length s) (instruction_bytes s)) \<or>
     handle_exception b e ctx s = Halted s' \<and> write_failed (trace s'))"
proof -
  let ?cur = "counters_read b e s"
  have l: "loop_ok b s" using session_invariant [OF assms(1)] by (simp add: session_ok_def)
  have nf: "\<not> fetch_fault ctx" using assms(3) by (auto simp: fetch_fault_def kernel_mode_def exception_numbers_unat)
  have recorded: "\<exists>ty extra. ty \<noteq> NOT_INTERESTING \<and> (exception_number ctx = 18 \<longrightarrow> ty = MACHINE_CHECK) \<and>
        written (trace s') = written (trace s) @
          record_bytes b ctx ty (instruction_bytes s) (cur_instruction_length s) (has_extra ctx) extra ?cur"
    if j: "stepped b ctx ?cur s s' \<or> finished b ctx ?cur s s'" for s'
  proof -
    obtain h where h: "judged b ctx ?cur s h" "trace s' = trace s @ h" using stepped_judged [OF j l] .
    show ?thesis using anomaly_recorded [OF assms(3) h(1)] h(2) by auto
  qed
  have again: "exception_number ctx = 6 \<and> restart_required b ?cur (last_perf_counters_values s) \<and>
      written (trace s') = written (trace s) \<and> search_of s' = search_of s \<and>
      last_run s' (take (cur_instruction_length s) (instruction_bytes s))"
    if a: "starts_again b ctx ?cur s s'" for s'
  proof -
    obtain h s1 where p: "proceeds s h s1" "starts b s1 s'" and u: "unstable b ctx ?cur (last_perf_counters_values s)"
      using a nf unfolding starts_again_def by blast
    note k = again_kept [OF a] started [OF p]
    show ?thesis using u k(5,7,14) by (simp add: unstable_def exception_numbers_unat last_run_def)
  qed
  show ?thesis
  proof (cases "handle_exception b e ctx s")
    case (User s')
    then show ?thesis using searching_outcome [OF assms(1,2), of ctx] recorded [of s'] again [of s'] by auto
  next
    case (Halted s')
    then show ?thesis using searching_outcome [OF assms(1,2), of ctx] recorded [of s'] by auto
  qed (use searching_outcome [OF assms(1,2), of ctx] in auto)
qed

theorem anomalies_saved_witness:
  "\<exists>(s :: loop_state) s' ty extra. handle_exception sample_build ok_env (user_exception 18) s = User s' \<and>
     ty = MACHINE_CHECK \<and> written (trace s') = written (trace s) @
       record_bytes sample_build (user_exception 18) ty (instruction_bytes s) (cur_instruction_length s)
         (has_extra (user_exception 18)) extra (counters_read sample_build ok_env s)"
proof -
  let ?c = "user_exception 18"
  obtain s :: loop_state where s: "session sample_build ok_env s" "searching sample_build s"
    "search_of s = (of_nat 0 # replicate 14 0, 0, 1, 0)"
    using sample_search search_start_eq by metis
  have n: "exception_number ?c = 18" by (simp add: user_exception_def)
  obtain s' where run: "handle_exception sample_build ok_env ?c s = User s'"
    using goes_on [OF ok_env_writes s] by auto
  from anomalies_saved [OF s(1,2), of ?c] n run show ?thesis by auto
qed





section \<open>The end of a session\<close>

lemma finished_covers:
  assumes "session b e s" and "searching b s" and "finished b ctx cur s s'" and "length y = 15"
  shows "(\<exists>x\<in>set (copied (trace s')). x \<noteq> [] \<and> take (length x) y = x) \<or>
    (\<exists>k\<ge>1. k \<le> 15 \<and> rejected (cpu_mode b) y k)"
proof -
  obtain hist where run: "search_run (cpu_mode b) (search_of s) hist" "subseq hist (copied (trace s))"
    using searching_phase [OF assms(1,2)] unfolding search_phase_def by blast
  obtain h s1 k where p: "proceeds s h s1" and e: "at_end b s1" and t: "trace s' = trace s1 @ k"
    using assms(3) unfolding finished_def by blast
  have "set hist \<subseteq> set (copied (trace s))" using run(2) by (rule subseq_set)
  then have sub: "set hist \<subseteq> set (copied (trace s'))" using proceeds_copied [OF p] t by auto
  obtain bytes last_len where adv: "advance (cpu_mode b) (instruction_bytes s1) (cur_byte_index s1)
       (cur_instruction_length s1) (last_instruction_length s1) = (Exhausted bytes, last_len)"
    using e unfolding at_end_def by blast
  have ok: "history_ok (cpu_mode b) (instruction_bytes s1, cur_byte_index s1,
       cur_instruction_length s1, last_instruction_length s1) hist"
    using search_run_ok [OF run(1)] proceeds_fields(4) [OF p] by (simp add: search_of_def)
  have "be_value y < 256 ^ 15" using be_value_less [of y] assms(4) by simp
  then have "covered (cpu_mode b) hist y"
    using adv assms(4) by (intro advance_covers [OF ok]) simp_all
  then show ?thesis using sub by (auto simp: covered_def)
qed

text \<open>C1: a session that stops during the search, without a refused write, has covered everything. When
  the handling of an exception that found the search on (\<open>searching\<close>: neither \<open>ud2\<close> nor \<open>nop\<close> is being
  measured) ends in a halt and no write was refused, every 15-byte string begins with an instruction
  whose bytes were copied to the code page and run, or has a prefix the filter rejects. A session
  stopped earlier, by an unexpected exception while \<open>ud2\<close> or \<open>nop\<close> is measured, covers nothing.\<close>

theorem session_complete:
  assumes "session b e s" and "searching b s"
    and "handle_exception b e ctx s = Halted s'" and "\<not> write_failed (trace s')" and "length y = 15"
  shows "(\<exists>x\<in>set (copied (trace s')). x \<noteq> [] \<and> take (length x) y = x) \<or>
    (\<exists>k\<ge>1. k \<le> 15 \<and> rejected (cpu_mode b) y k)"
proof -
  have "finished b ctx (counters_read b e s) s s'"
    using searching_outcome [OF assms(1,2), of ctx] assms(4) unfolding assms(3) by simp
  then show ?thesis using assms(5) by (rule finished_covers [OF assms(1,2)])
qed

text \<open>A session in which every instruction is one byte long.\<close>

lemma sample_run:
  "n \<le> 255 \<Longrightarrow> \<exists>(s :: loop_state) last_len. session sample_build ok_env s \<and> searching sample_build s \<and>
     search_of s = (of_nat n # replicate 14 0, 0, 1, last_len)"
proof (induction n)
  case 0
  then show ?case using sample_search search_start_eq by metis
next
  case (Suc n)
  then obtain s :: loop_state and last_len where s: "session sample_build ok_env s" "searching sample_build s"
    "search_of s = (of_nat n # replicate 14 0, 0, 1, last_len)" "n < 255"
    by auto
  have "loop_ok sample_build s" using session_invariant [OF s(1)] by (simp add: session_ok_def)
  then show ?case using sample_debug [OF s(1,2)] sample_step [OF _ s(3,4)] sample_not_finished [OF s(3,4)]
    by blast
qed

theorem session_complete_witness:
  "\<exists>(s :: loop_state) s'. handle_exception sample_build ok_env (user_exception 1) s = Halted s' \<and>
     ((\<exists>x\<in>set (copied (trace s')). x \<noteq> [] \<and> take (length x) (replicate 15 0x90) = x) \<or>
      (\<exists>k\<ge>1. k \<le> 15 \<and> rejected Mode64 (replicate 15 0x90) k))"
proof -
  have b: "of_nat 255 # replicate 14 0 = (0xff # replicate 14 0 :: u8 list)" by simp
  obtain s :: loop_state and last_len where s: "session sample_build ok_env s" "searching sample_build s"
    "search_of s = (0xff # replicate 14 0, 0, 1, last_len)"
    using sample_run [of 255] unfolding b by auto
  have "update_byte_index (0xff # replicate 14 0) 0 = (0 # replicate 14 0, None)" by simp
  then have "next_candidate Mode64 (0xff # replicate 14 0) 0 1 = Exhausted (0 # replicate 14 0)"
    using next_candidate_carry [of 0 "0xff # replicate 14 0"] by simp
  then have "\<not> moved sample_build s1 s2" if "proceeds s h s1" for h s1 s2
    using one_byte_advance [of "0xff" last_len] proceeds_fields(4) [OF that] s(3)
    by (auto simp: moved_def search_of_def sample_build_def makefile_build_def)
  then have "\<not> stepped sample_build c cur s s'" for c cur s' by (auto simp: stepped_def)
  then obtain s' where run: "handle_exception sample_build ok_env (user_exception 1) s = Halted s'"
    "\<not> write_failed (trace s')"
    using sample_debug [OF s(1,2)] by blast
  from session_complete [OF s(1,2) run, of "replicate 15 0x90"] run(1)
  show ?thesis by (auto simp: sample_build_def makefile_build_def)
qed

section \<open>Progress\<close>

text \<open>An exception that finds the search on and does not repeat the instruction.\<close>

definition onward_exception :: "build \<Rightarrow> env \<Rightarrow> 'z loop_state_scheme \<Rightarrow> 'z loop_state_scheme \<Rightarrow> bool" where
  "onward_exception b e s s' \<longleftrightarrow> session b e s \<and> searching b s \<and> (\<exists>ctx.
     handle_exception b e ctx s = User s' \<and>
     \<not> unstable b ctx (counters_read b e s) (last_perf_counters_values s))"

lemma onward_steps:
  assumes "(onward_exception b e ^^ n) s t" and "loop_ok b s"
  shows "(search_step (cpu_mode b) ^^ n) (search_of s) (search_of t)"
  using assms
proof (induction n arbitrary: t)
  case 0
  then show ?case by simp
next
  case (Suc n)
  then obtain u where "(onward_exception b e ^^ n) s u" "onward_exception b e u t"
    by (auto elim: relpowp_Suc_E)
  then show ?case using Suc.IH [of u] Suc.prems(2) searching_refines [of b e u _ t]
    unfolding onward_exception_def by (auto intro: relpowp_Suc_I)
qed

text \<open>C10: the search of a session makes progress and ends. Fewer than 16 * 256^15 exceptions in a row
  can find the search on and be handled without the program stopping, when none of them is a
  \<open>#UD\<close> whose counters differ from those of the run before; so the search runs for ever only if the counters
  fluctuate for ever. The exceptions of the measurements of \<open>ud2\<close> and \<open>nop\<close> before it are not counted.\<close>

theorem session_ends:
  assumes "(onward_exception b e ^^ n) s t" and "session b e s"
  shows "n < 16 * 256 ^ 15"
proof -
  have "loop_ok b s" using session_invariant [OF assms(2)] by (simp add: session_ok_def)
  with assms(1) have "(search_step (cpu_mode b) ^^ n) (search_of s) (search_of t)" by (rule onward_steps)
  moreover have "search_ok (cpu_mode b) (search_of s)" using \<open>loop_ok b s\<close> by (simp add: loop_ok_def)
  ultimately show ?thesis by (rule search.steps_bounded)
qed

theorem session_ends_witness:
  "\<exists>(s :: loop_state) t. (onward_exception sample_build ok_env ^^ 1) s t \<and> 1 < (16 * 256 ^ 15 :: nat)"
proof -
  obtain s :: loop_state and last_len where s: "session sample_build ok_env s" "searching sample_build s"
    "search_of s = (of_nat 0 # replicate 14 0, 0, 1, last_len)"
    using sample_run [of 0] by blast
  have "\<not> finished sample_build c cur s s'" for c cur s' using s(3) by (rule sample_not_finished) simp
  then obtain t where "handle_exception sample_build ok_env (user_exception 1) s = User t"
    using sample_debug [OF s(1,2)] by blast
  moreover have "\<not> unstable sample_build (user_exception 1) cur last" for cur last
    by (simp add: unstable_def user_exception_def EXCEPTION_INVALID_OPCODE_def)
  ultimately have "(onward_exception sample_build ok_env ^^ 1) s t"
    using s(1,2) unfolding onward_exception_def relpowp_1 by blast
  from this session_ends [OF this s(1)] show ?thesis by blast
qed

end
