(* ===== verification/System_Tables.thy ===== *)
theory System_Tables
  imports Exec_Loop
begin

text \<open>
  The descriptor tables (\<open>src/system_tables_setup.c\<close>, \<open>src/load_segments.S\<close>): segments, task state
  and interrupt gates. The tables are C arrays that the CPU reads; the properties decode the entries
  the way the CPU does. The addresses the linker gives to the objects are parameters.
\<close>

section \<open>State\<close>

record idt_entry =
  offset_low :: u16
  segment_selector :: u16
  gate_flags :: u16
  offset_middle :: u16
  offset_high :: u32
  gate_reserved :: u32

text \<open>Of the task state segment only \<open>rsp0\<close> is ever written. \<open>gdt\<close> is an array of pairs.\<close>

record boot_state = loop_state +
  tss_rsp0 :: u64
  gdt :: "(u32 \<times> u32) list"
  idt :: "idt_entry list"
  xsave_state_area_allocated_ptr :: u64

record image =
  tss_address :: u64
  gdt_address :: u64
  idt_address :: u64
  exception_handlers :: "u64 list"

section \<open>The segment descriptors\<close>

definition GDT_CODE_OR_DATA_SEGMENT :: u64 where "GDT_CODE_OR_DATA_SEGMENT = push_bit 12 1"
definition GDT_DPL_3 :: u64 where "GDT_DPL_3 = push_bit 13 3"
definition GDT_PRESENT :: u64 where "GDT_PRESENT = push_bit 15 1"
definition GDT_16BIT_CODE_SEGMENT :: u64 where
  "GDT_16BIT_CODE_SEGMENT = GDT_CODE_OR_DATA_SEGMENT OR push_bit 8 11"
definition GDT_64BIT_CODE_SEGMENT :: u64 where
  "GDT_64BIT_CODE_SEGMENT = push_bit 21 1 OR GDT_CODE_OR_DATA_SEGMENT OR push_bit 8 11"
definition GDT_32BIT_CODE_SEGMENT :: u64 where
  "GDT_32BIT_CODE_SEGMENT = push_bit 22 1 OR GDT_CODE_OR_DATA_SEGMENT OR push_bit 8 11"
definition GDT_GRANULARITY :: u64 where "GDT_GRANULARITY = push_bit 23 1"
definition GDT_32BIT_DATA_SEGMENT :: u64 where
  "GDT_32BIT_DATA_SEGMENT = GDT_CODE_OR_DATA_SEGMENT OR push_bit 8 3"
definition GDT_TSS_AVAILABLE :: u64 where "GDT_TSS_AVAILABLE = push_bit 8 9"

definition GDT_USER_CODE_SEGMENT :: "build \<Rightarrow> u64" where
  "GDT_USER_CODE_SEGMENT b =
     (case cpu_mode b of
        Mode64 \<Rightarrow> GDT_64BIT_CODE_SEGMENT
      | Mode32 \<Rightarrow> GDT_32BIT_CODE_SEGMENT
      | Mode16 \<Rightarrow> GDT_16BIT_CODE_SEGMENT)"

lemmas gdt_constants = GDT_CODE_OR_DATA_SEGMENT_def GDT_DPL_3_def GDT_PRESENT_def
  GDT_16BIT_CODE_SEGMENT_def GDT_64BIT_CODE_SEGMENT_def GDT_32BIT_CODE_SEGMENT_def
  GDT_GRANULARITY_def GDT_32BIT_DATA_SEGMENT_def GDT_TSS_AVAILABLE_def GDT_USER_CODE_SEGMENT_def

definition SIZEOF_TSS :: nat where "SIZEOF_TSS = 104"

text \<open>The initialiser of \<open>gdt\<close>.\<close>

definition initial_gdt :: "build \<Rightarrow> (u32 \<times> u32) list" where
  "initial_gdt b =
     [(0, 0),
      (0xffff, ucast (push_bit 16 0xf OR GDT_PRESENT OR GDT_64BIT_CODE_SEGMENT OR GDT_GRANULARITY)),
      (0xffff, ucast (push_bit 16 0xf OR GDT_PRESENT OR GDT_32BIT_DATA_SEGMENT OR GDT_GRANULARITY)),
      (0xffff, ucast (push_bit 16 0xf OR GDT_PRESENT OR GDT_USER_CODE_SEGMENT b OR GDT_GRANULARITY OR
                 GDT_DPL_3)),
      (0xffff, ucast (push_bit 16 0xf OR GDT_PRESENT OR GDT_32BIT_DATA_SEGMENT OR GDT_GRANULARITY OR
                 GDT_DPL_3)),
      (0, 0), (0, 0)]"

text \<open>What \<open>setup_gdt\<close> writes for the task state segment, which takes two entries.\<close>

definition tss_entries :: "u64 \<Rightarrow> (u32 \<times> u32) \<times> (u32 \<times> u32)" where
  "tss_entries tss_base =
     ((ucast ((of_nat (SIZEOF_TSS - 1) AND 0xffff) OR push_bit 16 (tss_base AND 0xffff)),
       (ucast (GDT_PRESENT OR GDT_TSS_AVAILABLE) OR ucast (drop_bit 16 tss_base AND 0xff)) OR
         ucast (tss_base AND 0xff000000)),
      (ucast (drop_bit 32 tss_base), 0))"

definition setup_gdt :: "image \<Rightarrow> env \<Rightarrow> (unit, 'z boot_state_scheme) prog" where
  "setup_gdt img e =
     andthen (modify (\<lambda>s. s\<lparr>gdt := (gdt s)[5 := fst (tss_entries (tss_address img)),
                                          6 := snd (tss_entries (tss_address img))]\<rparr>)) (\<lambda>_.
     andthen (fetch gdt) (\<lambda>table.
     extu e (Lgdt (of_nat (8 * length table - 1)) (gdt_address img))))"

definition set_tss_rsp0 :: "u64 \<Rightarrow> (unit, 'z boot_state_scheme) prog" where
  "set_tss_rsp0 new_value = modify (\<lambda>s. s\<lparr>tss_rsp0 := new_value\<rparr>)"

definition load_segments :: "env \<Rightarrow> u16 \<Rightarrow> u16 \<Rightarrow> u16 \<Rightarrow> (unit, 'z world_scheme) prog" where
  "load_segments e code_segment stack_segment task_segment =
     extu e (LoadSegments code_segment stack_segment task_segment)"

section \<open>The interrupt gates\<close>

definition IDT_PRESENT :: u64 where "IDT_PRESENT = push_bit 15 1"
definition IDT_DPL_3 :: u64 where "IDT_DPL_3 = push_bit 13 3"
definition IDT_TRAP_GATE :: u64 where "IDT_TRAP_GATE = push_bit 8 0xf"

text \<open>The number of handlers, and so of gates.\<close>

definition HANDLERS_COUNT :: nat where "HANDLERS_COUNT = 22"

definition gate :: "nat \<Rightarrow> u64 \<Rightarrow> idt_entry \<Rightarrow> idt_entry" where
  "gate i ptr entry = entry
     \<lparr>offset_low := ucast (ptr AND 0xffff),
      segment_selector := 8,
      gate_flags := (let flags = ucast (IDT_PRESENT OR IDT_TRAP_GATE)
                     in if i = 3 then flags OR ucast IDT_DPL_3 else flags),
      offset_middle := ucast (drop_bit 16 ptr AND 0xffff),
      offset_high := ucast (drop_bit 32 ptr)\<rparr>"

definition initial_idt :: "idt_entry list" where
  "initial_idt = replicate HANDLERS_COUNT
     \<lparr>offset_low = 0, segment_selector = 0, gate_flags = 0, offset_middle = 0, offset_high = 0,
      gate_reserved = 0\<rparr>"

definition setup_idt :: "image \<Rightarrow> env \<Rightarrow> (unit, 'z boot_state_scheme) prog" where
  "setup_idt img e =
     andthen (for_each [0..<HANDLERS_COUNT] (\<lambda>i. modify (\<lambda>s. s\<lparr>idt :=
         (idt s)[i := gate i (exception_handlers img ! i) (idt s ! i)]\<rparr>))) (\<lambda>_.
     andthen (fetch idt) (\<lambda>table.
     extu e (Lidt (of_nat (0x10 * length table - 1)) (idt_address img))))"

section \<open>The program's variables as they are initialised\<close>

definition initial_state :: "build \<Rightarrow> boot_state" where
  "initial_state b = \<lparr>trace = [], output_file = 0, disasm_xed_chip = XED_CHIP_INVALID,
     perf_counters = None, perf_global_ctrl_enable_all = 0, user_code_page_rw = 0,
     user_code_page_for_exec = 0, xsave_state_area_ptr = 0,
     instruction_bytes = replicate 15 0, cur_instruction_length = 1, cur_byte_index = 0,
     last_instruction_length = 0, counts = no_stats, malformed_instruction_expect_ud = False,
     measuring_ud = True, ud_perf_counters_values = replicate (PERF_EVENTS_COUNT b) 0,
     measuring_nop = False, nop_perf_counters_values = replicate (PERF_EVENTS_COUNT b) 0,
     last_perf_counters_values = replicate (PERF_EVENTS_COUNT b) 0, flush_required = False,
     tss_rsp0 = 0, gdt = initial_gdt b, idt = initial_idt, xsave_state_area_allocated_ptr = 0\<rparr>"

section \<open>What the CPU reads\<close>

text \<open>A descriptor of a segment of code or data, in the layout of the architecture: the access byte (present,
  privilege level, whether it is a system descriptor, code, direction or conformance, write or read
  permission), the 64-bit and 32-bit flags, base, and limit in bytes.\<close>

record segment =
  seg_present :: bool
  seg_level :: nat
  seg_system :: bool
  seg_code :: bool
  seg_expand_down :: bool
  seg_accessible :: bool
  seg_long :: bool
  seg_default32 :: bool
  seg_base :: u32
  seg_limit :: u32

definition low_base :: "u32 \<times> u32 \<Rightarrow> u32" where
  "low_base entry = (case entry of (l, h) \<Rightarrow>
     drop_bit 16 l OR push_bit 16 (take_bit 8 h) OR push_bit 24 (drop_bit 24 h))"

definition limit_bytes :: "u32 \<times> u32 \<Rightarrow> u32" where
  "limit_bytes entry = (case entry of (l, h) \<Rightarrow>
     let limit = take_bit 16 l OR (h AND 0xf0000)
     in if bit h 23 then limit * 0x1000 + 0xfff else limit)"

definition descriptor :: "(u32 \<times> u32) list \<Rightarrow> u16 \<Rightarrow> segment" where
  "descriptor table selector =
     (let entry = table ! (unat selector div 8); high = snd entry in
      \<lparr>seg_present = bit high 15, seg_level = unat (drop_bit 13 high) mod 4,
       seg_system = (\<not> bit high 12), seg_code = bit high 11, seg_expand_down = bit high 10,
       seg_accessible = bit high 9, seg_long = bit high 21, seg_default32 = bit high 22,
       seg_base = low_base entry, seg_limit = limit_bytes entry\<rparr>)"

text \<open>A 16-byte system descriptor; type 9 is an available 64-bit task state segment.\<close>

record system_segment =
  sys_present :: bool
  sys_level :: nat
  sys_system :: bool
  sys_type :: nat
  sys_base :: u64
  sys_limit :: u32

definition system_descriptor :: "(u32 \<times> u32) list \<Rightarrow> u16 \<Rightarrow> system_segment" where
  "system_descriptor table selector =
     (let i = unat selector div 8; entry = table ! i;
          access = take_bit 8 (drop_bit 8 (snd entry)); upper = fst (table ! (i + 1)) in
      \<lparr>sys_present = bit access 7, sys_level = unat (drop_bit 5 access) mod 4,
       sys_system = (\<not> bit access 4), sys_type = unat access mod 16,
       sys_base = ucast (low_base entry) OR push_bit 32 (ucast upper),
       sys_limit = limit_bytes entry\<rparr>)"

text \<open>Where a gate leads, and from which privilege level an \<open>int\<close> instruction may use it.\<close>

definition gate_offset :: "idt_entry \<Rightarrow> u64" where
  "gate_offset g = ucast (offset_low g) OR push_bit 16 (ucast (offset_middle g)) OR
     push_bit 32 (ucast (offset_high g))"

definition gate_level :: "idt_entry \<Rightarrow> nat" where
  "gate_level g = unat (drop_bit 13 (gate_flags g)) mod 4"

section \<open>Properties\<close>

lemma u64_masks:
  fixes v :: u64
  shows "v AND 0xffff = take_bit 16 v" and "v AND 0xff = take_bit 8 v"
    and "v AND 0xff000000 = push_bit 24 (take_bit 8 (drop_bit 24 v))"
proof -
  show "v AND 0xffff = take_bit 16 v" "v AND 0xff = take_bit 8 v"
    by (simp_all add: take_bit_eq_mask mask_eq_exp_minus_1)
  have m: "(0xff000000 :: u64) = push_bit 24 (mask 8)"
    by (simp add: mask_eq_exp_minus_1 push_bit_eq_mult)
  show "v AND 0xff000000 = push_bit 24 (take_bit 8 (drop_bit 24 v))"
    unfolding m by (rule bit_word_eqI) (auto simp: bit_simps)
qed

lemma gate_offset_gate: "gate_offset (gate i ptr g) = ptr"
proof (rule bit_word_eqI)
  fix n assume "n < LENGTH(64)"
  then have "n < 64" by simp
  consider "n < 16" | "16 \<le> n" "n < 32" | "32 \<le> n" by linarith
  then show "bit (gate_offset (gate i ptr g)) n = bit ptr n"
    using \<open>n < 64\<close>
    by cases (auto simp: gate_offset_def gate_def u64_masks bit_simps)
qed

text \<open>The two words of the first entry, for any limit \<open>c\<close> and any flags \<open>g\<close>.\<close>

lemma tss_low_word:
  fixes c p :: u64
  defines "l \<equiv> (ucast (take_bit 16 c OR push_bit 16 (take_bit 16 p)) :: u32)"
  shows "take_bit 16 l = ucast (take_bit 16 c)" and "drop_bit 16 l = ucast (take_bit 16 p)"
  unfolding l_def by (rule bit_word_eqI, auto simp: bit_simps)+

lemma tss_high_word:
  fixes g p :: u64
  defines "h \<equiv> ((ucast (push_bit 8 (take_bit 8 g)) OR ucast (take_bit 8 (drop_bit 16 p))) OR
      ucast (push_bit 24 (take_bit 8 (drop_bit 24 p))) :: u32)"
  shows "take_bit 8 h = ucast (take_bit 8 (drop_bit 16 p))"
    and "drop_bit 24 h = ucast (take_bit 8 (drop_bit 24 p))"
    and "h AND push_bit 16 (mask 4) = 0" and "take_bit 8 (drop_bit 8 h) = ucast (take_bit 8 g)"
    and "\<not> bit h 23"
  unfolding h_def by (rule bit_word_eqI, auto simp: bit_simps)+

lemma tss_entries_eq:
  "tss_entries p =
     ((ucast (take_bit 16 0x67 OR push_bit 16 (take_bit 16 p)),
       (ucast (push_bit 8 (take_bit 8 0x89) :: u64) OR ucast (take_bit 8 (drop_bit 16 p))) OR
         ucast (push_bit 24 (take_bit 8 (drop_bit 24 p)))),
      (ucast (drop_bit 32 p), 0))"
  by (simp add: tss_entries_def u64_masks gdt_constants SIZEOF_TSS_def)

lemma ucast_small: "n \<le> 32 \<Longrightarrow> ucast (ucast (take_bit n (v :: u64)) :: u32) = take_bit n v"
  by (rule bit_word_eqI) (auto simp: bit_simps)

lemma low_base_tss: "low_base (fst (tss_entries p)) = ucast (take_bit 32 p)"
proof -
  have "low_base (fst (tss_entries p)) = ucast (take_bit 16 p) OR
      push_bit 16 (ucast (take_bit 8 (drop_bit 16 p))) OR push_bit 24 (ucast (take_bit 8 (drop_bit 24 p)))"
    unfolding tss_entries_eq low_base_def fst_conv prod.case tss_low_word tss_high_word
    by (simp add: or.assoc)
  also have "\<dots> = ucast (take_bit 32 p)"
  proof (rule bit_word_eqI)
    fix n assume "n < LENGTH(32)"
    then have "n < 32" by simp
    consider "n < 16" | "16 \<le> n" "n < 24" | "24 \<le> n" by linarith
    then show "bit (ucast (take_bit 16 p) OR push_bit 16 (ucast (take_bit 8 (drop_bit 16 p))) OR
      push_bit 24 (ucast (take_bit 8 (drop_bit 24 p))) :: u32) n = bit (ucast (take_bit 32 p) :: u32) n"
      using \<open>n < 32\<close> by cases (auto simp: bit_simps)
  qed
  finally show ?thesis .
qed

lemma limit_bytes_tss: "limit_bytes (fst (tss_entries p)) = 0x67"
proof -
  have m: "(0xf0000 :: u32) = push_bit 16 (mask 4)" by (simp add: mask_eq_exp_minus_1)
  show ?thesis
    unfolding tss_entries_eq fst_conv limit_bytes_def prod.case m tss_low_word tss_high_word
    by (simp add: Let_def) (simp add: bit_simps)
qed

lemma tss_descriptor:
  assumes "table ! 5 = fst (tss_entries p)" and "table ! 6 = snd (tss_entries p)"
  shows "system_descriptor table 0x28 = \<lparr>sys_present = True, sys_level = 0, sys_system = True,
    sys_type = 9, sys_base = p, sys_limit = of_nat (SIZEOF_TSS - 1)\<rparr>"
proof -
  have a: "take_bit 8 (drop_bit 8 (snd (fst (tss_entries p)))) = 0x89"
    unfolding tss_entries_eq fst_conv snd_conv tss_high_word by simp
  have "ucast (ucast (take_bit 32 p) :: u32) OR push_bit 32 (ucast (ucast (drop_bit 32 p) :: u32)) = p"
  proof (rule bit_word_eqI)
    fix n assume "n < LENGTH(64)"
    then have "n < 64" by simp
    consider "n < 32" | "32 \<le> n" by linarith
    then show "bit (ucast (ucast (take_bit 32 p) :: u32) OR push_bit 32 (ucast (ucast (drop_bit 32 p) :: u32)) :: u64) n =
        bit p n"
      using \<open>n < 64\<close> by cases (auto simp: bit_simps)
  qed
  moreover have "fst (snd (tss_entries p)) = ucast (drop_bit 32 p)" by (simp add: tss_entries_def)
  ultimately show ?thesis
    using assms by (simp add: system_descriptor_def low_base_tss limit_bytes_tss a Let_def SIZEOF_TSS_def)
qed

text \<open>C38: the segment table is what the CPU needs. \<open>setup_gdt\<close> on the initial table loads a table of
  seven entries in which the selectors the program uses mean, read by the architecture's layout:
  kernel code, 64-bit, readable, level 0; kernel data, writable, level 0; user code, readable, level 3,
  whose width is the build's mode; user data, writable, level 3; each of them a present segment of code
  or data that does not conform or expand down, with base 0 and all four gigabytes; and a present
  system descriptor of level 0, an available 64-bit task state segment with the address of \<open>tss\<close> and
  its exact limit.\<close>

theorem setup_gdt_segments:
  assumes "gdt s = initial_gdt b"
  shows "\<exists>s'. setup_gdt img e s = Done () s' \<and>
    map fst (trace s') = map fst (trace s) @ [Lgdt 55 (gdt_address img)] \<and>
    descriptor (gdt s') 0x08 = \<lparr>seg_present = True, seg_level = 0, seg_system = False,
      seg_code = True, seg_expand_down = False, seg_accessible = True, seg_long = True,
      seg_default32 = False, seg_base = 0, seg_limit = 0xffffffff\<rparr> \<and>
    descriptor (gdt s') 0x10 = \<lparr>seg_present = True, seg_level = 0, seg_system = False,
      seg_code = False, seg_expand_down = False, seg_accessible = True, seg_long = False,
      seg_default32 = False, seg_base = 0, seg_limit = 0xffffffff\<rparr> \<and>
    descriptor (gdt s') 0x1b = \<lparr>seg_present = True, seg_level = 3, seg_system = False,
      seg_code = True, seg_expand_down = False, seg_accessible = True, seg_long = (cpu_mode b = Mode64),
      seg_default32 = (cpu_mode b = Mode32), seg_base = 0, seg_limit = 0xffffffff\<rparr> \<and>
    descriptor (gdt s') 0x23 = \<lparr>seg_present = True, seg_level = 3, seg_system = False,
      seg_code = False, seg_expand_down = False, seg_accessible = True, seg_long = False,
      seg_default32 = False, seg_base = 0, seg_limit = 0xffffffff\<rparr> \<and>
    system_descriptor (gdt s') 0x28 = \<lparr>sys_present = True, sys_level = 0, sys_system = True,
      sys_type = 9, sys_base = tss_address img, sys_limit = of_nat (SIZEOF_TSS - 1)\<rparr>"
proof -
  let ?p = "tss_address img"
  let ?g = "(initial_gdt b)[5 := fst (tss_entries ?p), 6 := snd (tss_entries ?p)]"
  obtain s' where run: "setup_gdt img e s = Done () s'" and g: "gdt s' = ?g"
    and t: "map fst (trace s') = map fst (trace s) @ [Lgdt 55 (gdt_address img)]"
    using assms by (simp add: setup_gdt_def run_simps initial_gdt_def emit_def)
  have nth: "?g ! 1 = initial_gdt b ! 1" "?g ! 2 = initial_gdt b ! 2" "?g ! 3 = initial_gdt b ! 3"
    "?g ! 4 = initial_gdt b ! 4" "?g ! 5 = fst (tss_entries ?p)" "?g ! 6 = snd (tss_entries ?p)"
    by (simp_all add: initial_gdt_def)
  note read = descriptor_def low_base_def limit_bytes_def initial_gdt_def gdt_constants
  have "descriptor ?g 0x08 = \<lparr>seg_present = True, seg_level = 0, seg_system = False,
      seg_code = True, seg_expand_down = False, seg_accessible = True, seg_long = True,
      seg_default32 = False, seg_base = 0, seg_limit = 0xffffffff\<rparr>"
    using nth(1) by (simp add: read)
  moreover have "descriptor ?g 0x10 = \<lparr>seg_present = True, seg_level = 0, seg_system = False,
      seg_code = False, seg_expand_down = False, seg_accessible = True, seg_long = False,
      seg_default32 = False, seg_base = 0, seg_limit = 0xffffffff\<rparr>"
    using nth(2) by (simp add: read)
  moreover have "descriptor ?g 0x1b = \<lparr>seg_present = True, seg_level = 3, seg_system = False,
      seg_code = True, seg_expand_down = False, seg_accessible = True, seg_long = (cpu_mode b = Mode64),
      seg_default32 = (cpu_mode b = Mode32), seg_base = 0, seg_limit = 0xffffffff\<rparr>"
    using nth(3) by (cases "cpu_mode b") (simp_all add: read)
  moreover have "descriptor ?g 0x23 = \<lparr>seg_present = True, seg_level = 3, seg_system = False,
      seg_code = False, seg_expand_down = False, seg_accessible = True, seg_long = False,
      seg_default32 = False, seg_base = 0, seg_limit = 0xffffffff\<rparr>"
    using nth(4) by (simp add: read)
  ultimately show ?thesis using run t tss_descriptor [OF nth(5,6)]
    by (intro exI [of _ s'] conjI) (simp_all only: g)
qed

lemma setup_idt_loop:
  "n \<le> length (idt s) \<Longrightarrow> for_each [0..<n] (\<lambda>i. modify (\<lambda>s. s\<lparr>idt := (idt s)[i := f i (idt s ! i)]\<rparr>)) s =
     Done () (s\<lparr>idt := map (\<lambda>i. f i (idt s ! i)) [0..<n] @ drop n (idt s)\<rparr>)"
proof (induction n)
  case 0
  then show ?case by (simp add: run_simps)
next
  case (Suc n)
  let ?l = "map (\<lambda>i. f i (idt s ! i)) [0..<n]"
  have "(?l @ drop n (idt s)) ! n = idt s ! n" using Suc.prems by (simp add: nth_append)
  moreover have "(?l @ drop n (idt s))[n := x] = ?l @ x # drop (Suc n) (idt s)" for x
    using Suc.prems by (simp add: list_update_append Cons_nth_drop_Suc [symmetric])
  ultimately show ?case using Suc by (simp add: for_each_append run_simps)
qed

text \<open>C37: every exception reaches its stub. After \<open>setup_idt\<close> the gate of each of the 22 vectors is
  present, runs in the kernel's code segment and leads to the address of its handler, all 64 bits of
  it; only the gate of \<open>#BP\<close> is open to user mode; and the table is loaded with its exact limit.\<close>

theorem setup_idt_gates:
  assumes "length (idt s) = 22" and "length (exception_handlers img) = 22"
  shows "\<exists>s'. setup_idt img e s = Done () s' \<and> length (idt s') = 22 \<and>
    map fst (trace s') = map fst (trace s) @ [Lidt (16 * 22 - 1) (idt_address img)] \<and>
    (\<forall>i<22. gate_offset (idt s' ! i) = exception_handlers img ! i \<and>
       segment_selector (idt s' ! i) = 8 \<and> bit (gate_flags (idt s' ! i)) 15 \<and>
       gate_level (idt s' ! i) = (if i = 3 then 3 else 0))"
proof -
  let ?t = "map (\<lambda>i. gate i (exception_handlers img ! i) (idt s ! i)) [0..<22]"
  obtain s' where run: "setup_idt img e s = Done () s'" and g: "idt s' = ?t"
    and t: "map fst (trace s') = map fst (trace s) @ [Lidt (16 * 22 - 1) (idt_address img)]"
    using setup_idt_loop [of 22 s "\<lambda>i. gate i (exception_handlers img ! i)"] assms
    by (simp add: setup_idt_def HANDLERS_COUNT_def run_simps emit_def)
  have flags: "bit (gate_flags (gate i p x)) 15" "gate_level (gate i p x) = (if i = 3 then 3 else 0)"
    "segment_selector (gate i p x) = 8" for i p x
    by (simp_all add: gate_def gate_level_def IDT_PRESENT_def IDT_TRAP_GATE_def IDT_DPL_3_def Let_def)
  have "\<forall>i<22. gate_offset (?t ! i) = exception_handlers img ! i \<and>
       segment_selector (?t ! i) = 8 \<and> bit (gate_flags (?t ! i)) 15 \<and>
       gate_level (?t ! i) = (if i = 3 then 3 else 0)"
    by (simp add: gate_offset_gate flags del: upt_Suc)
  then show ?thesis using run t by (intro exI [of _ s'] conjI) (simp_all only: g length_map length_upt diff_zero)
qed

text \<open>Instances: a linked program and a CPU that answers nothing of interest.\<close>

definition sample_image :: image where
  "sample_image = \<lparr>tss_address = 0x140012000, gdt_address = 0x140013000, idt_address = 0x140014000,
     exception_handlers = map (\<lambda>i. 0x140001000 + 16 * of_nat i) [0..<22]\<rparr>"

theorem setup_gdt_segments_witness:
  "\<exists>s'. setup_gdt sample_image sample_console (initial_state (makefile_build Mode32)) = Done () s' \<and>
     sys_base (system_descriptor (gdt s') 0x28) = 0x140012000 \<and>
     descriptor (gdt s') 0x1b = \<lparr>seg_present = True, seg_level = 3, seg_system = False,
      seg_code = True, seg_expand_down = False, seg_accessible = True, seg_long = False,
      seg_default32 = True, seg_base = 0, seg_limit = 0xffffffff\<rparr>"
proof -
  have "gdt (initial_state (makefile_build Mode32)) = initial_gdt (makefile_build Mode32)"
    by (simp add: initial_state_def)
  from setup_gdt_segments [OF this, of sample_image sample_console]
  show ?thesis by (auto simp: makefile_build_def sample_image_def)
qed

theorem setup_idt_gates_witness:
  "\<exists>s'. setup_idt sample_image sample_console (initial_state (makefile_build Mode32)) = Done () s' \<and>
     gate_offset (idt s' ! 14) = 0x1400010e0 \<and> gate_level (idt s' ! 3) = 3"
proof -
  have "length (idt (initial_state (makefile_build Mode32))) = 22"
    "length (exception_handlers sample_image) = 22"
    by (simp_all add: initial_state_def initial_idt_def HANDLERS_COUNT_def sample_image_def)
  from setup_idt_gates [OF this, of sample_console] obtain s' where
    run: "setup_idt sample_image sample_console (initial_state (makefile_build Mode32)) = Done () s'"
    and "\<forall>i<22. gate_offset (idt s' ! i) = exception_handlers sample_image ! i \<and>
      gate_level (idt s' ! i) = (if i = 3 then 3 else 0)"
    by blast
  then have "gate_offset (idt s' ! 14) = exception_handlers sample_image ! 14" "gate_level (idt s' ! 3) = 3"
    by simp_all
  then show ?thesis using run by (simp add: sample_image_def del: upt_Suc)
qed

end
