(* ===== verification/Save_Open.thy ===== *)
theory Save_Open
  imports Save_Format
begin

text \<open>
  Opening the save file (\<open>open_save_file\<close> of \<open>src/save_file.c\<close>): from the image's handle to the boot
  volume, to the file, which is emptied. A reply carries the out-parameters of a call; they count
  only when it succeeds, as UEFI has it. A use of a NULL pointer is undefined.
\<close>

section \<open>The function\<close>

definition deref :: "u64 \<Rightarrow> ('a, 's) prog \<Rightarrow> ('a, 's) prog" where
  "deref p m = (if p = 0 then crash else m)"

text \<open>A message with the status, and the early return.\<close>

definition give_up :: "env \<Rightarrow> string \<Rightarrow> u64 \<Rightarrow> (u64, 'z world_scheme) prog" where
  "give_up e message st = andthen (printf e (message @ crlf) [VInt st]) (\<lambda>_. return st)"

definition save_file_name :: "build \<Rightarrow> string" where
  "save_file_name b =
     (case cpu_mode b of
        Mode64 \<Rightarrow> ''interesting_x86_instructions_64bit.bin''
      | Mode32 \<Rightarrow> ''interesting_x86_instructions_32bit.bin''
      | Mode16 \<Rightarrow> ''interesting_x86_instructions_16bit.bin'')"

text \<open>The device the program was started from, and the root directory of its volume.\<close>

definition open_device :: "env \<Rightarrow> u64 \<Rightarrow> (u64 + u64, 'z world_scheme) prog" where
  "open_device e image_handle =
     andthen (ext e (OpenLoadedImageProtocol image_handle)) (\<lambda>r.
     if status r \<noteq> EFI_SUCCESS then
       andthen (give_up e ''Could not open loaded image protocol, status = 0x%lx'' (status r)) (\<lambda>st. return (Inl st))
     else deref (val0 r) (
     let device_handle = val1 r in
     andthen (ext e (CloseLoadedImageProtocol image_handle)) (\<lambda>r.
     if status r \<noteq> EFI_SUCCESS then
       andthen (give_up e ''Could not close loaded image protocol, status = 0x%lx'' (status r)) (\<lambda>st. return (Inl st))
     else return (Inr device_handle))))"

definition open_root :: "env \<Rightarrow> u64 \<Rightarrow> (u64 + u64, 'z world_scheme) prog" where
  "open_root e device_handle =
     andthen (ext e (OpenSimpleFsProtocol device_handle)) (\<lambda>r.
     if status r \<noteq> EFI_SUCCESS then
       andthen (give_up e ''Could not open simple FS protocol, status = 0x%lx'' (status r)) (\<lambda>st. return (Inl st))
     else deref (val0 r) (
     andthen (ext e (OpenVolume (val0 r))) (\<lambda>r.
     andthen (extu e (CloseSimpleFsProtocol device_handle)) (\<lambda>_.
     if status r \<noteq> EFI_SUCCESS then
       andthen (give_up e ''Could not open the boot volume, status = 0x%lx'' (status r)) (\<lambda>st. return (Inl st))
     else return (Inr (val0 r))))))"

text \<open>Opening the file; on an error only a message follows, and \<open>output_file\<close> stays NULL.\<close>

definition open_output :: "build \<Rightarrow> env \<Rightarrow> u64 \<Rightarrow> (unit, 'z save_world_scheme) prog" where
  "open_output b e root_dir = deref root_dir (
     andthen (ext e (OpenFile root_dir (save_file_name b))) (\<lambda>r.
     andthen (only_if (status r = EFI_SUCCESS) (modify (\<lambda>s. s\<lparr>output_file := val0 r\<rparr>))) (\<lambda>_.
     andthen (extu e (CloseDir root_dir)) (\<lambda>_.
     only_if (status r \<noteq> EFI_SUCCESS)
       (printf e (''Could not open output file, status = 0x%lx'' @ crlf) [VInt (status r)])))))"

text \<open>The size is read, and set to \<open>0\<close> if it is not. \<open>GetInfo\<close> answers with the size of the file in
  \<open>val0\<close> and the size of the information in \<open>val1\<close>.\<close>

definition reset_size :: "env \<Rightarrow> u64 \<Rightarrow> u64 \<Rightarrow> u64 \<Rightarrow> (u64, 'z save_world_scheme) prog" where
  "reset_size e file info_size file_info =
     andthen (ext e (GetInfo file info_size file_info)) (\<lambda>r.
     if status r \<noteq> EFI_SUCCESS then
       andthen (printf e (''Unexpected status when retrieving output file info: 0x%lx (expected: EFI_SUCCESS (0x%lx))'' @ crlf)
                  [VInt (status r), VInt EFI_SUCCESS]) (\<lambda>_. return (status r))
     else deref file_info (
     if val0 r \<noteq> 0 then
       andthen (print e (wide (''Output file is not empty, resetting file size to 0.'' @ crlf))) (\<lambda>_.
       andthen (ext e (SetInfo file (val1 r) file_info 0)) (\<lambda>r.
       andthen (only_if (status r \<noteq> EFI_SUCCESS)
         (printf e (''Unexpected status when updating output file size: 0x%lx (expected: EFI_SUCCESS (0x%lx))'' @ crlf)
            [VInt (status r), VInt EFI_SUCCESS])) (\<lambda>_.
       return (status r))))
     else return (status r)))"

definition empty_output :: "env \<Rightarrow> (u64, 'z save_world_scheme) prog" where
  "empty_output e =
     andthen (fetch output_file) (\<lambda>file. deref file (
     andthen (ext e (GetInfoSize file)) (\<lambda>r.
     if status r \<noteq> EFI_BUFFER_TOO_SMALL then
       andthen (printf e (''Unexpected status when retrieving output file info size: 0x%lx (expected: EFI_BUFFER_TOO_SMALL (0x%lx))'' @ crlf)
                  [VInt (status r), VInt EFI_BUFFER_TOO_SMALL]) (\<lambda>_. return (status r))
     else
     let info_size = val0 r in
     andthen (ext e (AllocatePool info_size)) (\<lambda>r.
     if status r \<noteq> EFI_SUCCESS then
       give_up e ''Memory allocation for output file info failed, status = 0x%lx'' (status r)
     else
     andthen (reset_size e file info_size (val0 r)) (\<lambda>st.
     andthen (extu e (FreePool (val0 r))) (\<lambda>_.
     return st))))))"

definition open_save_file :: "build \<Rightarrow> env \<Rightarrow> u64 \<Rightarrow> (u64, 'z save_world_scheme) prog" where
  "open_save_file b e image_handle =
     (if no_save b then
        andthen (print e (wide (''No output mode enabled, skipping save file creation'' @ crlf))) (\<lambda>_.
        return EFI_SUCCESS)
      else
      andthen (open_device e image_handle) (\<lambda>device. case device of
        Inl st \<Rightarrow> return st
      | Inr device_handle \<Rightarrow>
      andthen (open_root e device_handle) (\<lambda>root. case root of
        Inl st \<Rightarrow> return st
      | Inr root_dir \<Rightarrow>
      andthen (open_output b e root_dir) (\<lambda>_. empty_output e))))"

section \<open>Properties\<close>

text \<open>The firmware never reports success with a NULL pointer.\<close>

fun gives_pointer :: "call \<Rightarrow> bool" where
  "gives_pointer (OpenLoadedImageProtocol i) = True"
| "gives_pointer (OpenSimpleFsProtocol d) = True"
| "gives_pointer (OpenVolume p) = True"
| "gives_pointer (OpenFile d n) = True"
| "gives_pointer (AllocatePool n) = True"
| "gives_pointer c = False"

definition valid_pointers :: "env \<Rightarrow> bool" where
  "valid_pointers e \<longleftrightarrow> (\<forall>h c. gives_pointer c \<longrightarrow> status (e h c) = EFI_SUCCESS \<longrightarrow> val0 (e h c) \<noteq> 0)"

definition opens_file :: "env \<Rightarrow> bool" where
  "opens_file e \<longleftrightarrow> (\<forall>h d n. status (e h (OpenFile d n)) = EFI_SUCCESS)"

text \<open>A size query with no room for the answer does not succeed.\<close>

definition refuses_size_query :: "env \<Rightarrow> bool" where
  "refuses_size_query e \<longleftrightarrow> (\<forall>h f. status (e h (GetInfoSize f)) \<noteq> EFI_SUCCESS)"

definition finds_volume :: "env \<Rightarrow> bool" where
  "finds_volume e \<longleftrightarrow> (\<forall>h x. status (e h (OpenLoadedImageProtocol x)) = EFI_SUCCESS \<and>
     status (e h (CloseLoadedImageProtocol x)) = EFI_SUCCESS \<and>
     status (e h (OpenSimpleFsProtocol x)) = EFI_SUCCESS \<and> status (e h (OpenVolume x)) = EFI_SUCCESS)"

text \<open>Nothing is refused that \<open>empty_output\<close> asks for.\<close>

definition empties_file :: "env \<Rightarrow> bool" where
  "empties_file e \<longleftrightarrow> (\<forall>h f n p. status (e h (GetInfoSize f)) = EFI_BUFFER_TOO_SMALL \<and>
     status (e h (AllocatePool n)) = EFI_SUCCESS \<and> status (e h (GetInfo f n p)) = EFI_SUCCESS \<and>
     status (e h (SetInfo f n p 0)) = EFI_SUCCESS)"

text \<open>The file is empty: its size was \<open>0\<close>, or was set to \<open>0\<close>.\<close>

definition emptied :: "u64 \<Rightarrow> history \<Rightarrow> bool" where
  "emptied f h \<longleftrightarrow>
     (\<exists>n p r. (GetInfo f n p, r) \<in> set h \<and> status r = EFI_SUCCESS \<and> val0 r = 0) \<or>
     (\<exists>n p r. (SetInfo f n p 0, r) \<in> set h \<and> status r = EFI_SUCCESS)"

lemma emptied_intros:
  "(GetInfo f n p, r) \<in> set h \<Longrightarrow> status r = EFI_SUCCESS \<Longrightarrow> val0 r = 0 \<Longrightarrow> emptied f h"
  "(SetInfo f n p 0, r) \<in> set h \<Longrightarrow> status r = EFI_SUCCESS \<Longrightarrow> emptied f h"
  by (auto simp: emptied_def)

lemma emptied_mono: "emptied f h \<Longrightarrow> set h \<subseteq> set k \<Longrightarrow> emptied f k"
  unfolding emptied_def by blast

lemma speaks_deref: "p \<noteq> 0 \<Longrightarrow> speaks s quiet m P \<Longrightarrow> speaks s quiet (deref p m) P"
  by (simp add: deref_def)

text \<open>A message on the way.\<close>

lemma talks_message:
  "talks s quiet (print e text)" "accepts fmt args \<Longrightarrow> talks s quiet (printf e fmt args)"
  "accepts (str @ crlf) [VInt st] \<Longrightarrow> talks s quiet (give_up e str st)"
  unfolding print_def give_up_def by (auto simp: printf_accepts intro!: talks_intros)

lemma speaks_give_up:
  assumes "accepts (str @ crlf) [VInt st]" and P: "\<And>h. P (g st) h"
  shows "speaks s quiet (andthen (give_up e str st) (\<lambda>st. return (g st))) P"
proof -
  have "andthen (give_up e str st) (\<lambda>st. return (g st)) s =
      andthen (printf e (str @ crlf) [VInt st]) (\<lambda>_. return (g st)) s"
    using assms(1) by (simp add: give_up_def run_simps)
  then show ?thesis
    using speaks_say [where P = P and b = "g st", OF talks_message(2) [OF assms(1)] P, of s e]
    by (simp only: speaks_def)
qed

lemma open_device_speaks:
  assumes "valid_pointers e"
  shows "speaks s quiet (open_device e i) (\<lambda>r h. (\<forall>st. r = Inl st \<longrightarrow> st \<noteq> EFI_SUCCESS) \<and>
    (finds_volume e \<longrightarrow> (\<exists>d. r = Inr d)))"
proof -
  have ok: "val0 (e t (OpenLoadedImageProtocol i)) \<noteq> 0"
    if "status (e t (OpenLoadedImageProtocol i)) = EFI_SUCCESS" for t
    using assms that by (simp add: valid_pointers_def)
  show ?thesis unfolding open_device_def
    by (rule speaks_call) (auto simp: Let_def finds_volume_def intro!: speaks_give_up
        speaks_deref ok speaks_call speaks_return)
qed

lemma open_root_speaks:
  assumes "valid_pointers e"
  shows "speaks s quiet (open_root e d) (\<lambda>r h. (\<forall>st. r = Inl st \<longrightarrow> st \<noteq> EFI_SUCCESS) \<and>
    (\<forall>p. r = Inr p \<longrightarrow> p \<noteq> 0) \<and> (finds_volume e \<longrightarrow> (\<exists>p. r = Inr p)))"
proof -
  have ok: "val0 (e t (OpenSimpleFsProtocol d)) \<noteq> 0"
    if "status (e t (OpenSimpleFsProtocol d)) = EFI_SUCCESS" for t
    using assms that by (simp add: valid_pointers_def)
  have ok2: "val0 (e t (OpenVolume p)) \<noteq> 0" if "status (e t (OpenVolume p)) = EFI_SUCCESS" for t p
    using assms that by (simp add: valid_pointers_def)
  show ?thesis unfolding open_root_def
    by (rule speaks_call) (auto simp: finds_volume_def ok2 intro!: speaks_give_up
        speaks_deref ok speaks_call speaks_callu speaks_return)
qed

lemma empty_output_speaks:
  assumes "valid_pointers e" and "output_file s = f" and "f \<noteq> 0" and "refuses_size_query e"
  shows "speaks s quiet (empty_output e) (\<lambda>st h. (st = EFI_SUCCESS \<longrightarrow> emptied f h) \<and> (empties_file e \<longrightarrow> st = EFI_SUCCESS))"
proof -
  have ok: "val0 (e t (AllocatePool n)) \<noteq> 0" if "status (e t (AllocatePool n)) = EFI_SUCCESS" for t n
    using assms(1) that by (simp add: valid_pointers_def)
  have reset: "speaks s' quiet (reset_size e f n p) (\<lambda>st h. (st = EFI_SUCCESS \<longrightarrow> emptied f h) \<and> (empties_file e \<longrightarrow> st = EFI_SUCCESS))"
    if "p \<noteq> 0" for s' :: "'a save_world_scheme" and n p
    unfolding reset_size_def
    by (rule speaks_call) (auto simp: that empties_file_def intro: emptied_intros intro!: speaks_say talks_message speaks_deref
        speaks_call speaks_return speaks_andthen [OF speaks_talks [where P = "\<lambda>_ _. True"]] talks_only_if)
  have free: "speaks s' quiet (andthen (reset_size e f n p) (\<lambda>st. andthen (extu e (FreePool p)) (\<lambda>_. return st)))
      (\<lambda>st h. (st = EFI_SUCCESS \<longrightarrow> emptied f (x # y # h)) \<and> (empties_file e \<longrightarrow> st = EFI_SUCCESS))"
    if "p \<noteq> 0" for s' :: "'a save_world_scheme" and n p x y
    by (rule speaks_andthen [OF reset [OF that]])
       (auto intro!: speaks_callu speaks_return elim: emptied_mono)
  have quits: "speaks s' quiet (give_up e str st) (\<lambda>st' h. (st' = EFI_SUCCESS \<longrightarrow> emptied f (x # y # h)) \<and> (empties_file e \<longrightarrow> st' = EFI_SUCCESS))"
    if "st \<noteq> EFI_SUCCESS" "\<not> empties_file e" "accepts (str @ crlf) [VInt st]"
    for s' :: "'a save_world_scheme" and str st x y
    using that unfolding give_up_def by (intro speaks_say talks_message) simp_all
  show ?thesis unfolding empty_output_def
  proof (rule speaks_fetch, unfold assms(2), rule speaks_deref [OF assms(3)], rule speaks_call, goal_cases)
    case (2 t s1)
    let ?r = "e t (GetInfoSize f)"
    show ?case
    proof (cases "status ?r = EFI_BUFFER_TOO_SMALL")
      case True
      have "speaks s1 quiet (andthen (ext e (AllocatePool (val0 ?r))) (\<lambda>q. if status q \<noteq> EFI_SUCCESS then
            give_up e ''Memory allocation for output file info failed, status = 0x%lx'' (status q)
          else andthen (reset_size e f (val0 ?r) (val0 q)) (\<lambda>st. andthen (extu e (FreePool (val0 q))) (\<lambda>_. return st))))
        (\<lambda>st k. (st = EFI_SUCCESS \<longrightarrow> emptied f ((GetInfoSize f, ?r) # k)) \<and> (empties_file e \<longrightarrow> st = EFI_SUCCESS))"
      proof (rule speaks_call, goal_cases)
        case (2 t' s2)
        have "status (e t' (AllocatePool n)) = EFI_SUCCESS" if "empties_file e" for n
          using that unfolding empties_file_def by blast
        then show ?case by (auto simp: free ok intro!: quits)
      qed simp
      with True show ?thesis by (simp add: Let_def)
    next
      case False
      moreover have "status ?r \<noteq> EFI_SUCCESS" using assms(4) by (simp add: refuses_size_query_def)
      moreover have "\<not> empties_file e" using False by (auto simp: empties_file_def)
      ultimately show ?thesis by (simp add: speaks_say talks_message)
    qed
  qed simp
qed

lemma open_output_outcome:
  assumes "p \<noteq> 0"
  shows "\<exists>h. (\<forall>c\<in>fst ` set h. quiet c) \<and>
    open_output b e p s = Done () (s\<lparr>trace := trace s @ h, output_file :=
      (let r = e (trace s) (OpenFile p (save_file_name b)) in
       if status r = EFI_SUCCESS then val0 r else output_file s)\<rparr>)"
proof -
  let ?c = "OpenFile p (save_file_name b)"
  let ?r = "e (trace s) ?c"
  define m :: "(unit, 'a save_world_scheme) prog" where "m = andthen (extu e (CloseDir p)) (\<lambda>_.
      only_if (status ?r \<noteq> EFI_SUCCESS)
        (printf e (''Could not open output file, status = 0x%lx'' @ crlf) [VInt (status ?r)]))"
  let ?s = "(if status ?r = EFI_SUCCESS then (emit e ?c s)\<lparr>output_file := val0 ?r\<rparr> else emit e ?c s)"
  have "talks ?s quiet m" unfolding m_def by (intro talks_intros talks_message) simp_all
  then obtain a h where h: "m ?s = Done a (?s\<lparr>trace := trace ?s @ h\<rparr>)" "\<forall>c\<in>fst ` set h. quiet c"
    by (rule talksE)
  have "open_output b e p s = m ?s"
    using assms by (simp add: open_output_def deref_def m_def run_simps del: print_def)
  with h show ?thesis by (intro exI [of _ "(?c, ?r) # h"]) (simp add: emit_def Let_def)
qed

text \<open>Whatever happens after the volume is found, only messages and calls are added.\<close>

lemma open_save_file_found:
  assumes "\<not> no_save b" and "valid_pointers e"
  shows "(\<exists>st h. open_save_file b e i s = Done st (s\<lparr>trace := trace s @ h\<rparr>) \<and>
      (\<forall>c\<in>fst ` set h. quiet c) \<and> st \<noteq> EFI_SUCCESS \<and> \<not> finds_volume e) \<or>
    (\<exists>p h. p \<noteq> 0 \<and> (\<forall>c\<in>fst ` set h. quiet c) \<and>
      open_save_file b e i s =
        bind (open_output b e p (s\<lparr>trace := trace s @ h\<rparr>)) (\<lambda>_. empty_output e))"
proof -
  obtain d h1 where 1: "open_device e i s = Done d (s\<lparr>trace := trace s @ h1\<rparr>)"
      "\<forall>c\<in>fst ` set h1. quiet c" "\<And>st. d = Inl st \<Longrightarrow> st \<noteq> EFI_SUCCESS"
      "finds_volume e \<Longrightarrow> \<exists>x. d = Inr x"
    using open_device_speaks [OF assms(2), of s i] unfolding speaks_def spoke_def by blast
  show ?thesis
  proof (cases d)
    case (Inl st)
    then show ?thesis using 1 assms(1) by (auto simp: open_save_file_def run_simps)
  next
    case (Inr dev)
    let ?s = "s\<lparr>trace := trace s @ h1\<rparr>"
    obtain r h2 where 2: "open_root e dev ?s = Done r (?s\<lparr>trace := trace ?s @ h2\<rparr>)"
      "\<forall>c\<in>fst ` set h2. quiet c" "\<And>st. r = Inl st \<Longrightarrow> st \<noteq> EFI_SUCCESS"
      "\<And>p. r = Inr p \<Longrightarrow> p \<noteq> 0" "finds_volume e \<Longrightarrow> \<exists>x. r = Inr x"
      using open_root_speaks [OF assms(2), of ?s dev] unfolding speaks_def spoke_def by blast
    have q: "\<forall>c\<in>fst ` set (h1 @ h2). quiet c" using 1(2) 2(2) by auto
    show ?thesis
    proof (cases r)
      case (Inl st)
      with 1 2 Inr assms(1) q have "open_save_file b e i s = Done st (s\<lparr>trace := trace s @ h1 @ h2\<rparr>)"
        by (simp add: open_save_file_def run_simps)
      then show ?thesis using Inl 2(3,5) q by blast
    next
      case root: (Inr p)
      with 1 2 Inr assms(1) have "open_save_file b e i s =
          bind (open_output b e p (s\<lparr>trace := trace s @ h1 @ h2\<rparr>)) (\<lambda>_. empty_output e)"
        by (simp add: open_save_file_def run_simps)
      then show ?thesis using root 2(4) q by blast
    qed
  qed
qed

text \<open>The whole function.\<close>

lemma open_save_file_outcome:
  fixes s :: "'z save_world_scheme"
  assumes "valid_pointers e" and "opens_file e" and "refuses_size_query e"
  shows "\<exists>st f h. open_save_file b e i s = Done st (s\<lparr>trace := trace s @ h, output_file := f\<rparr>) \<and>
    (\<forall>c\<in>fst ` set h. quiet c) \<and>
    (if no_save b then f = output_file s else st = EFI_SUCCESS \<longrightarrow> f \<noteq> 0 \<and> emptied f h) \<and>
    (finds_volume e \<and> empties_file e \<longrightarrow> st = EFI_SUCCESS)"
proof (cases "no_save b")
  case True
  obtain a h where "print e (wide (''No output mode enabled, skipping save file creation'' @ crlf)) s =
      Done a (s\<lparr>trace := trace s @ h\<rparr>)" "\<forall>c\<in>fst ` set h. quiet c"
    by (rule talksE [OF talks_message(1)])
  then have "open_save_file b e i s = Done EFI_SUCCESS (s\<lparr>trace := trace s @ h, output_file := output_file s\<rparr>)"
    using True by (simp add: open_save_file_def run_simps)
  with True \<open>\<forall>c\<in>fst ` set h. quiet c\<close> show ?thesis
    by (intro exI [of _ EFI_SUCCESS] exI [of _ "output_file s"] exI [of _ h]) simp
next
  case save: False
  consider st h where "open_save_file b e i s = Done st (s\<lparr>trace := trace s @ h\<rparr>)"
      "\<forall>c\<in>fst ` set h. quiet c" "st \<noteq> EFI_SUCCESS" "\<not> finds_volume e"
    | p h where "p \<noteq> 0" "\<forall>c\<in>fst ` set h. quiet c" "open_save_file b e i s =
        bind (open_output b e p (s\<lparr>trace := trace s @ h\<rparr>)) (\<lambda>_. empty_output e)"
    using open_save_file_found [OF save assms(1), of i s] by blast
  then show ?thesis
  proof cases
    case 1
    then show ?thesis using save
      by (intro exI [of _ st] exI [of _ "output_file s"] exI [of _ h]) simp
  next
    case 2
    define s1 where "s1 = s\<lparr>trace := trace s @ h\<rparr>"
    define f where "f = val0 (e (trace s1) (OpenFile p (save_file_name b)))"
    have f: "f \<noteq> 0" using assms(1,2) by (simp add: f_def valid_pointers_def opens_file_def)
    obtain k where k: "\<forall>c\<in>fst ` set k. quiet c"
      "open_output b e p s1 = Done () (s1\<lparr>trace := trace s1 @ k, output_file := f\<rparr>)"
      using open_output_outcome [OF 2(1), of b e s1] assms(2) by (auto simp: f_def opens_file_def Let_def)
    let ?s2 = "s1\<lparr>trace := trace s1 @ k, output_file := f\<rparr>"
    obtain st l where l: "empty_output e ?s2 = Done st (?s2\<lparr>trace := trace ?s2 @ l\<rparr>)"
      "\<forall>c\<in>fst ` set l. quiet c" "st = EFI_SUCCESS \<Longrightarrow> emptied f l"
      "empties_file e \<Longrightarrow> st = EFI_SUCCESS"
      using empty_output_speaks [OF assms(1) _ f assms(3), of ?s2] unfolding speaks_def spoke_def by auto
    have "open_save_file b e i s = Done st (s\<lparr>trace := trace s @ (h @ k @ l), output_file := f\<rparr>)"
      using 2(3) k(2) l(1) by (simp add: s1_def)
    moreover have "\<forall>c\<in>fst ` set (h @ k @ l). quiet c" using 2(2) k(1) l(2) by auto
    moreover have "st = EFI_SUCCESS \<longrightarrow> emptied f (h @ k @ l)" using l(3) emptied_mono [of f l "h @ k @ l"] by auto
    ultimately show ?thesis using save f l(4) by (metis (no_types))
  qed
qed

text \<open>C33: when the file can be opened, \<open>open_save_file\<close> always returns, changes only the
  variable \<open>output_file\<close> of the state and writes nothing; if it reports success, \<open>output_file\<close> is not NULL
  and the file is empty; and it does report success if the firmware refuses nothing. A build without
  saving leaves \<open>output_file\<close> as it was.\<close>

theorem open_save_file_ready:
  fixes s :: "'z save_world_scheme"
  assumes "valid_pointers e" and "opens_file e" and "refuses_size_query e"
  shows "\<exists>st f h. open_save_file b e i s = Done st (s\<lparr>trace := trace s @ h, output_file := f\<rparr>) \<and>
    (\<forall>c\<in>fst ` set h. quiet c) \<and>
    (if no_save b then f = output_file s else st = EFI_SUCCESS \<longrightarrow> f \<noteq> 0 \<and> emptied f h) \<and>
    (finds_volume e \<and> empties_file e \<longrightarrow> st = EFI_SUCCESS)"
  using assms by (rule open_save_file_outcome)

text \<open>C34: a file that cannot be opened is not handled: after the message, \<open>output_file\<close> is used although
  it is NULL.\<close>

theorem open_failure_crashes:
  fixes s :: "'z save_world_scheme"
  assumes "\<not> no_save b" and "output_file s = 0" and "valid_pointers e" and "finds_volume e"
    and "\<And>h d n. status (e h (OpenFile d n)) \<noteq> EFI_SUCCESS"
  shows "\<exists>s'. open_save_file b e i s = Crash s'"
proof -
  obtain p h where p: "p \<noteq> 0" and o: "open_save_file b e i s =
      bind (open_output b e p (s\<lparr>trace := trace s @ h\<rparr>)) (\<lambda>_. empty_output e)"
    using open_save_file_found [OF assms(1,3), of i s] assms(4) by blast
  let ?s = "s\<lparr>trace := trace s @ h\<rparr>"
  obtain k where "open_output b e p ?s = Done () (?s\<lparr>trace := trace ?s @ k, output_file := 0\<rparr>)"
    using open_output_outcome [OF p, of b e ?s] assms(2,5) by (auto simp: Let_def)
  then show ?thesis using o by (simp add: empty_output_def run_simps deref_def)
qed

text \<open>A firmware that opens the file, with \<open>16\<close> bytes in it, and one that does not.\<close>

definition sample_volume :: env where
  "sample_volume h c = \<lparr>status = (case c of GetInfoSize f \<Rightarrow> EFI_BUFFER_TOO_SMALL | _ \<Rightarrow> EFI_SUCCESS),
     val0 = 16, val1 = 0, val2 = 0, val3 = 0\<rparr>"

definition full_volume :: env where
  "full_volume h c = \<lparr>status = (case c of OpenFile d n \<Rightarrow> 0x8000000000000009 | _ \<Rightarrow> EFI_SUCCESS),
     val0 = 16, val1 = 0, val2 = 0, val3 = 0\<rparr>"

theorem open_save_file_ready_witness:
  "\<exists>st f h. open_save_file (makefile_build Mode64) sample_volume 7 \<lparr>trace = [], output_file = 0\<rparr> =
     Done st \<lparr>trace = h, output_file = f\<rparr> \<and> st = EFI_SUCCESS \<and> f \<noteq> 0 \<and> emptied f h"
proof -
  have "valid_pointers sample_volume" "opens_file sample_volume" "refuses_size_query sample_volume"
    "finds_volume sample_volume" "empties_file sample_volume"
    by (simp_all add: valid_pointers_def opens_file_def refuses_size_query_def finds_volume_def
        empties_file_def sample_volume_def
        EFI_SUCCESS_def EFI_BUFFER_TOO_SMALL_def)
  with open_save_file_ready [OF this(1-3), of "makefile_build Mode64" 7 "\<lparr>trace = [], output_file = 0\<rparr>"]
  show ?thesis by (auto simp: makefile_build_def)
qed

theorem open_failure_crashes_witness:
  "\<exists>s'. open_save_file (makefile_build Mode64) full_volume 7 \<lparr>trace = [], output_file = 0\<rparr> = Crash s'"
  by (rule open_failure_crashes)
     (simp_all add: makefile_build_def valid_pointers_def finds_volume_def full_volume_def EFI_SUCCESS_def)

end
