(* ===== verification/Paging.thy ===== *)
theory Paging
  imports Prelude
begin

text \<open>
  Four- and five-level page tables as the CPU reads them, and what replacing one page does to them.
  Memory is a function from the addresses of quadwords to their values. A table stands at level
  \<open>k\<close> if \<open>k\<close> more tables lie below it: the tables of level \<open>0\<close> hold the entries of 4 KiB pages. The
  tables that can be reached from a root form a tree (\<open>tree\<close>), so that changing one of them changes
  the translation of the addresses that pass through it only.
\<close>

section \<open>Entries\<close>

type_synonym memory = "u64 \<Rightarrow> u64"

definition present :: "u64 \<Rightarrow> bool" where "present e = bit e 0"
definition large :: "u64 \<Rightarrow> bool" where "large e = bit e 7"

text \<open>An entry above level \<open>0\<close> that refers to a table, and the table.\<close>

definition branch :: "u64 \<Rightarrow> bool" where "branch e \<longleftrightarrow> present e \<and> \<not> large e"
definition target :: "u64 \<Rightarrow> u64" where "target e = e AND 0xffffffffff000"

text \<open>The number of address bits an entry of level \<open>k\<close> translates at once, and the index of the
  entry.\<close>

definition span :: "nat \<Rightarrow> nat" where "span k = 12 + 9 * k"
definition index :: "nat \<Rightarrow> u64 \<Rightarrow> nat" where "index k v = unat (drop_bit (span k) v AND 0x1ff)"
definition slot :: "u64 \<Rightarrow> nat \<Rightarrow> u64" where "slot t j = t + 8 * of_nat j"
definition aligned :: "u64 \<Rightarrow> bool" where "aligned t \<longleftrightarrow> t AND 0xfff = 0"

text \<open>The physical address: the base from the entry, the rest from the address translated.\<close>

definition page_address :: "nat \<Rightarrow> u64 \<Rightarrow> u64 \<Rightarrow> u64" where
  "page_address k e v = (target e AND NOT (mask (span k))) OR (v AND mask (span k))"

text \<open>The flags of an entry by the names of the code.\<close>

definition PAGE_PRESENT :: u64 where "PAGE_PRESENT = push_bit 0 1"
definition PAGE_WRITABLE :: u64 where "PAGE_WRITABLE = push_bit 1 1"
definition PAGE_USER :: u64 where "PAGE_USER = push_bit 2 1"
definition PAGE_SIZE :: u64 where "PAGE_SIZE = push_bit 7 1"
definition PAGE_NOEXECUTE :: u64 where "PAGE_NOEXECUTE = push_bit 63 1"

section \<open>Translation\<close>

fun translate :: "memory \<Rightarrow> nat \<Rightarrow> u64 \<Rightarrow> u64 \<Rightarrow> u64 option" where
  "translate m 0 t v = (let e = m (slot t (index 0 v)) in
     if present e then Some (page_address 0 e v) else None)"
| "translate m (Suc k) t v = (let e = m (slot t (index (Suc k) v)) in
     if \<not> present e then None
     else if large e then Some (page_address (Suc k) e v)
     else translate m k (target e) v)"

text \<open>The entries met on the way to a 4 KiB page.\<close>

fun walk :: "memory \<Rightarrow> nat \<Rightarrow> u64 \<Rightarrow> u64 \<Rightarrow> u64 list" where
  "walk m 0 t v = [m (slot t (index 0 v))]"
| "walk m (Suc k) t v = (let e = m (slot t (index (Suc k) v)) in
     e # (if branch e then walk m k (target e) v else []))"

text \<open>Two addresses in one 4 KiB page.\<close>

definition same_page :: "nat \<Rightarrow> u64 \<Rightarrow> u64 \<Rightarrow> bool" where
  "same_page k v w \<longleftrightarrow> (\<forall>i\<le>k. index i v = index i w)"

section \<open>The tree of tables\<close>

fun tables :: "memory \<Rightarrow> nat \<Rightarrow> u64 \<Rightarrow> u64 set" where
  "tables m 0 t = {t}"
| "tables m (Suc k) t = insert t (\<Union>j\<in>{j. j < 512 \<and> branch (m (slot t j))}. tables m k (target (m (slot t j))))"

text \<open>A large page starts at a multiple of its size. Bits 52 to 62 of a reference to a table are not
  used, which \<open>remap_page\<close> relies on.\<close>

definition well_formed :: "nat \<Rightarrow> u64 \<Rightarrow> bool" where
  "well_formed k e \<longleftrightarrow>
     (present e \<and> large e \<longrightarrow> (\<forall>n. 12 \<le> n \<longrightarrow> n < span k \<longrightarrow> \<not> bit e n)) \<and>
     (branch e \<longrightarrow> (\<forall>n. 52 \<le> n \<longrightarrow> n < 63 \<longrightarrow> \<not> bit e n))"

fun tree :: "memory \<Rightarrow> nat \<Rightarrow> u64 \<Rightarrow> bool" where
  "tree m 0 t = aligned t"
| "tree m (Suc k) t =
     (aligned t \<and>
      (\<forall>j<512. well_formed (Suc k) (m (slot t j)) \<and>
         (branch (m (slot t j)) \<longrightarrow>
            tree m k (target (m (slot t j))) \<and> t \<notin> tables m k (target (m (slot t j))) \<and>
            (\<forall>i<512. i \<noteq> j \<longrightarrow> branch (m (slot t i)) \<longrightarrow>
               tables m k (target (m (slot t i))) \<inter> tables m k (target (m (slot t j))) = {}))))"

section \<open>Addresses\<close>

lemma index_less: "index k v < 512"
proof -
  have "drop_bit (span k) v AND 0x1ff \<le> 0x1ff" by (rule word_and_le1)
  then have "unat (drop_bit (span k) v AND 0x1ff) \<le> unat (0x1ff :: u64)" by (rule word_le_nat_alt [THEN iffD1])
  then show ?thesis by (simp add: index_def)
qed

lemma aligned_mod: "aligned t \<longleftrightarrow> unat t mod 4096 = 0"
proof -
  have "t AND 0xfff = take_bit 12 t" by (simp add: take_bit_eq_mask mask_eq_exp_minus_1)
  moreover have "unat (take_bit 12 t) = take_bit 12 (unat t)" by (rule unsigned_take_bit_eq)
  moreover have "take_bit 12 (unat t) = unat t mod 4096" using take_bit_eq_mod [of 12 "unat t"] by simp
  ultimately show ?thesis by (metis aligned_def unat_eq_zero)
qed

lemma aligned_target: "aligned (target e)"
  unfolding aligned_def target_def by (simp add: and.assoc)

lemma unat_slot:
  assumes "aligned t" and "j < 512"
  shows "unat (slot t j) = unat t + 8 * j"
proof -
  have t: "unat t mod 4096 = 0" using assms(1) by (simp add: aligned_mod)
  then obtain q where q: "unat t = 4096 * q" by (auto simp: mod_eq_0_iff_dvd)
  have "4096 * q < 2 ^ 64" using q unat_u64_less [of t] by simp
  then have "q \<le> 4503599627370495" by simp
  then have b: "unat t + 8 * j < 2 ^ 64" using q assms(2) by simp
  have "slot t j = t + of_nat (8 * j)" by (simp add: slot_def)
  moreover have "unat (of_nat (8 * j) :: u64) = 8 * j"
    using assms(2) by (simp only: unsigned_of_nat) (simp add: take_bit_eq_mod)
  ultimately show ?thesis using b by (simp add: unat_word_ariths(1))
qed

lemma slot_eq [simp]:
  assumes "aligned t" and "aligned u" and "i < 512" and "j < 512"
  shows "slot t i = slot u j \<longleftrightarrow> t = u \<and> i = j"
proof
  assume "slot t i = slot u j"
  then have eq: "unat t + 8 * i = unat u + 8 * j" using assms by (metis unat_slot)
  have m: "unat t mod 4096 = 0" "unat u mod 4096 = 0" using assms by (simp_all add: aligned_mod)
  have "(unat t + 8 * i) mod 4096 = 8 * i" "(unat u + 8 * j) mod 4096 = 8 * j"
    using m assms(3,4) by (simp_all add: mod_add_left_eq [symmetric, of _ "8 * _"])
  with eq have "i = j" by simp
  with eq show "t = u \<and> i = j" by (simp add: word_unat_eq_iff)
qed simp

section \<open>Changes elsewhere\<close>

text \<open>Two memories that agree on a page, and what follows if they agree on all tables.\<close>

definition agree :: "u64 \<Rightarrow> memory \<Rightarrow> memory \<Rightarrow> bool" where
  "agree t m m' \<longleftrightarrow> (\<forall>j<512. m (slot t j) = m' (slot t j))"

lemma agreeD: "agree t m m' \<Longrightarrow> j < 512 \<Longrightarrow> m (slot t j) = m' (slot t j)"
  by (simp add: agree_def)

lemma agree_refl [simp]: "agree t m m"
  by (simp add: agree_def)

lemma agree_sym: "agree t m m' \<Longrightarrow> agree t m' m"
  by (simp add: agree_def)

lemma agree_trans: "agree t m1 m2 \<Longrightarrow> agree t m2 m3 \<Longrightarrow> agree t m1 m3"
  by (simp add: agree_def)

lemma agree_upd: "aligned t \<Longrightarrow> aligned u \<Longrightarrow> j < 512 \<Longrightarrow> t \<noteq> u \<Longrightarrow> agree u m (m(slot t j := x))"
  by (simp add: agree_def)

lemma root_in_tables: "t \<in> tables m k t"
  by (cases k) simp_all

lemma aligned_tables: "aligned t \<Longrightarrow> u \<in> tables m k t \<Longrightarrow> aligned u"
proof (induction k arbitrary: t)
  case 0
  then show ?case by simp
next
  case (Suc k)
  then show ?case using aligned_target by auto
qed

lemma tree_aligned: "tree m k t \<Longrightarrow> aligned t"
  by (cases k) simp_all

lemma agree_tables:
  "(\<And>u. u \<in> tables m k t \<Longrightarrow> agree u m m') \<Longrightarrow> tables m' k t = tables m k t"
proof (induction k arbitrary: t)
  case 0
  then show ?case by simp
next
  case (Suc k)
  have e: "m' (slot t j) = m (slot t j)" if "j < 512" for j
    using Suc.prems [of t] that by (simp add: agree_def)
  have "tables m' k (target (m (slot t j))) = tables m k (target (m (slot t j)))"
    if "j < 512" "branch (m (slot t j))" for j
    using that Suc.prems by (intro Suc.IH) auto
  then show ?case using e by (auto cong: conj_cong)
qed

lemma agree_tree:
  "tree m k t \<Longrightarrow> (\<And>u. u \<in> tables m k t \<Longrightarrow> agree u m m') \<Longrightarrow> tree m' k t"
proof (induction k arbitrary: t)
  case 0
  then show ?case by simp
next
  case (Suc k)
  have e: "m' (slot t j) = m (slot t j)" if "j < 512" for j
    using Suc.prems(2) [of t] that by (simp add: agree_def)
  have sub: "tree m' k (target (m (slot t j)))"
    and same: "tables m' k (target (m (slot t j))) = tables m k (target (m (slot t j)))"
    if "j < 512" "branch (m (slot t j))" for j
    using that Suc.prems by (auto intro!: Suc.IH agree_tables)
  show ?case using Suc.prems(1) by (simp add: e sub same cong: conj_cong)
qed

lemma agree_translate:
  "(\<And>u. u \<in> tables m k t \<Longrightarrow> agree u m m') \<Longrightarrow> translate m' k t v = translate m k t v"
proof (induction k arbitrary: t)
  case 0
  then show ?case using index_less [of 0 v] by (simp add: agree_def)
next
  case (Suc k)
  let ?e = "m (slot t (index (Suc k) v))"
  have e: "m' (slot t (index (Suc k) v)) = ?e"
    using Suc.prems [of t] index_less [of "Suc k" v] by (simp add: agree_def)
  have "translate m' k (target ?e) v = translate m k (target ?e) v" if "branch ?e"
    using that Suc.prems index_less [of "Suc k" v] by (intro Suc.IH) auto
  then show ?case using e by (simp add: Let_def branch_def)
qed

section \<open>Bits of entries\<close>

lemma bit_target: "bit (target e) n \<longleftrightarrow> 12 \<le> n \<and> n < 52 \<and> bit e n"
proof -
  have m: "(0xffffffffff000 :: u64) = push_bit 12 (mask 40)"
    by (simp add: mask_eq_exp_minus_1 push_bit_eq_mult)
  show ?thesis unfolding target_def m by (auto simp: bit_simps)
qed

lemma bit_index: "bit (of_nat (index k v) :: u64) n \<longleftrightarrow> n < 9 \<and> bit v (span k + n)"
proof -
  have m: "(0x1ff :: u64) = mask 9" by (simp add: mask_eq_exp_minus_1)
  show ?thesis unfolding index_def m by (auto simp: bit_simps dest: bit_imp_le_length)
qed

lemma bit_page_address:
  "bit (page_address k e v) n \<longleftrightarrow>
     (if n < span k then n < 64 \<and> bit v n else 12 \<le> n \<and> n < 52 \<and> bit e n)"
  by (auto simp: page_address_def bit_simps bit_target dest: bit_imp_le_length)

lemma add_push_bit_low:
  assumes "n < s"
  shows "bit (a + push_bit s b) n \<longleftrightarrow> bit (a :: u64) n"
proof -
  have t: "take_bit s (take_bit s a) = take_bit s a" by simp
  have "a = take_bit s a OR push_bit s (drop_bit s a)"
  proof (rule bit_word_eqI)
    fix i show "bit a i = bit (take_bit s a OR push_bit s (drop_bit s a)) i"
      by (cases "i < s") (auto simp: bit_simps dest: bit_imp_le_length)
  qed
  then have "a + push_bit s b = take_bit s a + push_bit s (drop_bit s a + b)"
    unfolding small_or_push_bit [OF t] by (simp add: push_bit_add algebra_simps)
  also have "\<dots> = take_bit s a OR push_bit s (drop_bit s a + b)"
    by (rule small_or_push_bit [OF t, symmetric])
  finally have "a + push_bit s b = take_bit s a OR push_bit s (drop_bit s a + b)" .
  then show ?thesis using assms by (simp add: bit_or_iff bit_take_bit_iff bit_push_bit_iff)
qed

lemma add_push_bit_or:
  assumes "\<And>n. s \<le> n \<Longrightarrow> n < s + 9 \<Longrightarrow> \<not> bit (a :: u64) n" and "\<And>n. bit b n \<Longrightarrow> n < 9"
  shows "a + push_bit s b = a OR push_bit s b"
proof -
  have "a AND push_bit s b = 0"
    by (rule bit_word_eqI) (use assms in \<open>fastforce simp: bit_simps\<close>)
  then show ?thesis by (rule disjunctive_add_eq_or)
qed

section \<open>What one level of the walk writes\<close>

text \<open>The entry after the rights \<open>prot\<close> were added, where \<open>remap_page\<close> finds them missing, and the
  entries of a new table at level \<open>k\<close> that stands for the entry \<open>e\<close>.\<close>

definition settled :: "u64 \<Rightarrow> u64 \<Rightarrow> u64" where
  "settled prot e = (if e AND prot \<noteq> prot AND NOT PAGE_NOEXECUTE
     then (e OR prot) AND NOT PAGE_NOEXECUTE else e)"

definition split_entry :: "nat \<Rightarrow> u64 \<Rightarrow> nat \<Rightarrow> u64" where
  "split_entry k e j = (if large e
     then (if k = 0 then e AND NOT PAGE_SIZE else e) + push_bit (span k) (of_nat j) else 0)"

text \<open>The rights only name the bits P, W, U and NX, and P always.\<close>

definition rights :: "u64 \<Rightarrow> bool" where
  "rights prot \<longleftrightarrow> bit prot 0 \<and> (\<forall>n. bit prot n \<longrightarrow> n \<in> {0, 1, 2, 63})"

lemma bit_flags:
  "bit PAGE_PRESENT n \<longleftrightarrow> n = 0" "bit PAGE_WRITABLE n \<longleftrightarrow> n = 1" "bit PAGE_USER n \<longleftrightarrow> n = 2"
  "bit PAGE_SIZE n \<longleftrightarrow> n = 7" "bit PAGE_NOEXECUTE n \<longleftrightarrow> n = 63"
  unfolding PAGE_PRESENT_def PAGE_WRITABLE_def PAGE_USER_def PAGE_SIZE_def PAGE_NOEXECUTE_def
  by (simp_all only: bit_push_bit_iff bit_1_iff possible_bit_word, auto)

lemma settled_bits:
  assumes "rights prot" and "n < 63"
  shows "bit (settled prot e) n \<longleftrightarrow> bit e n \<or> bit prot n"
proof (cases "e AND prot = prot AND NOT PAGE_NOEXECUTE")
  case True
  have "bit (e AND prot) n = bit (prot AND NOT PAGE_NOEXECUTE) n" using True by (rule arg_cong)
  then have "bit prot n \<Longrightarrow> bit e n" using assms(2) by (simp add: bit_simps bit_flags)
  then show ?thesis using True by (auto simp: settled_def)
next
  case False
  then show ?thesis using assms(2) by (auto simp: settled_def bit_simps bit_flags)
qed

lemma settled_present: "rights prot \<Longrightarrow> present (settled prot e)"
  using settled_bits [of prot 0 e] by (simp add: present_def rights_def)

lemma settled_large: "rights prot \<Longrightarrow> large (settled prot e) \<longleftrightarrow> large e"
  using settled_bits [of prot 7 e] by (auto simp: large_def rights_def)

lemma settled_target: "rights prot \<Longrightarrow> target (settled prot e) = target e"
proof (rule bit_word_eqI)
  fix n assume r: "rights prot"
  then have "12 \<le> n \<Longrightarrow> n < 52 \<Longrightarrow> \<not> bit prot n" by (auto simp: rights_def)
  then show "bit (target (settled prot e)) n = bit (target e) n"
    using r by (auto simp: bit_target settled_bits)
qed

lemma settled_well_formed:
  assumes "rights prot" and "branch e" and "well_formed k e"
  shows "branch (settled prot e)" and "well_formed k (settled prot e)"
proof -
  have n: "\<not> bit prot n" if "52 \<le> n" "n < 63" for n using that assms(1) by (auto simp: rights_def)
  show b: "branch (settled prot e)" using assms by (simp add: branch_def settled_present settled_large)
  then show "well_formed k (settled prot e)"
    using assms n by (auto simp: well_formed_def branch_def settled_bits settled_large)
qed

lemma split_present: "present (split_entry k e j) \<longleftrightarrow> large e \<and> present e"
proof -
  have "0 < span k" by (simp add: span_def)
  then show ?thesis
    by (auto simp: split_entry_def present_def add_push_bit_low bit_simps bit_flags)
qed

lemma split_large: "0 < k \<Longrightarrow> large (split_entry k e j) \<longleftrightarrow> large e"
proof -
  have "7 < span k" by (simp add: span_def)
  then show "0 < k \<Longrightarrow> ?thesis" by (auto simp: split_entry_def large_def add_push_bit_low)
qed

lemma split_bits:
  assumes "well_formed (Suc k) e" and "present e" and "large e" and "n \<noteq> 7"
  shows "bit (split_entry k e (index k v)) n \<longleftrightarrow>
    (if span k \<le> n \<and> n < span k + 9 then bit v n else bit e n)"
proof -
  let ?e = "if k = 0 then e AND NOT PAGE_SIZE else e"
  have z: "\<not> bit e n" if "12 \<le> n" "n < span k + 9" for n
    using assms(1-3) that by (simp add: well_formed_def span_def)
  have "?e + push_bit (span k) (of_nat (index k v)) = ?e OR push_bit (span k) (of_nat (index k v))"
    by (rule add_push_bit_or) (use z in \<open>auto simp: bit_simps bit_index bit_flags span_def simp del: bit_of_nat_iff\<close>)
  then have v: "split_entry k e (index k v) = ?e OR push_bit (span k) (of_nat (index k v))"
    using assms(3) by (simp add: split_entry_def)
  have e: "bit ?e n = bit e n" using assms(4) by (auto simp: bit_simps bit_flags dest: bit_imp_le_length)
  show ?thesis
  proof (cases "span k \<le> n \<and> n < span k + 9")
    case True
    then have "\<not> bit e n" using z by (simp add: span_def)
    with True e show ?thesis unfolding v
      by (auto simp: bit_or_iff bit_push_bit_iff bit_index dest: bit_imp_le_length)
  next
    case False
    with e show ?thesis unfolding v by (auto simp: bit_or_iff bit_push_bit_iff bit_index)
  qed
qed

text \<open>A split page is the same memory.\<close>

lemma split_page_address:
  assumes "well_formed (Suc k) e" and "present e" and "large e" and "k < 4"
  shows "page_address k (split_entry k e (index k v)) v = page_address (Suc k) e v"
proof (rule bit_word_eqI)
  fix n assume "n < LENGTH(64)"
  then show "bit (page_address k (split_entry k e (index k v)) v) n = bit (page_address (Suc k) e v) n"
    using assms(4) split_bits [OF assms(1-3)]
    by (auto simp: bit_page_address span_def)
qed

lemma split_well_formed:
  assumes "0 < k" and "well_formed (Suc k) e" and "j < 512"
  shows "well_formed k (split_entry k e j)" and "\<not> branch (split_entry k e j)"
proof -
  have low: "bit (split_entry k e j) n \<longleftrightarrow> bit e n" if "large e" "n < span k" for n
    using that assms(1) by (simp add: split_entry_def add_push_bit_low)
  show nb: "\<not> branch (split_entry k e j)" using assms(1) by (auto simp: branch_def split_present split_large)
  show "well_formed k (split_entry k e j)"
    using assms(1,2) nb low by (auto simp: well_formed_def split_present span_def)
qed

section \<open>Replacing one page\<close>

text \<open>What the loop of \<open>remap_page\<close> does to memory: from the table \<open>t\<close> of level \<open>k\<close> in \<open>m\<close> it descends to
  the table \<open>pt\<close> of level \<open>0\<close>, which leaves \<open>m'\<close>, with \<open>N\<close> the tables it created. A created table stands
  for the entry it replaces; memory is otherwise the same when it is filled.\<close>

inductive descends :: "u64 \<Rightarrow> u64 \<Rightarrow> nat \<Rightarrow> u64 \<Rightarrow> memory \<Rightarrow> u64 \<Rightarrow> memory \<Rightarrow> u64 set \<Rightarrow> bool"
  for prot v where
  arrive: "descends prot v 0 t m t m {}"
| follow: "a = slot t (index (Suc k) v) \<Longrightarrow> branch (m a) \<Longrightarrow>
    descends prot v k (target (m a)) (m(a := settled prot (m a))) pt m' N \<Longrightarrow>
    descends prot v (Suc k) t m pt m' N"
| create: "a = slot t (index (Suc k) v) \<Longrightarrow> \<not> branch (m a) \<Longrightarrow>
    aligned p \<Longrightarrow> target p = p \<Longrightarrow> p \<notin> N \<Longrightarrow>
    (\<And>j. j < 512 \<Longrightarrow> m1 (slot p j) = split_entry k (m a) j) \<Longrightarrow>
    (\<And>u. aligned u \<Longrightarrow> u \<noteq> p \<Longrightarrow> agree u m m1) \<Longrightarrow>
    descends prot v k p (m1(a := settled prot (p OR PAGE_PRESENT OR PAGE_WRITABLE OR PAGE_USER))) pt m' N \<Longrightarrow>
    descends prot v (Suc k) t m pt m' (insert p N)"

text \<open>A table whose entry \<open>i\<close> now leads to a tree of tables \<open>D\<close> that are used nowhere else.\<close>

lemma relink:
  assumes old: "tree m (Suc k) t" and "i < 512" and x: "branch x" "well_formed (Suc k) x"
    and slots: "\<And>j. j < 512 \<Longrightarrow> m' (slot t j) = (if j = i then x else m (slot t j))"
    and new: "tree m' k (target x)" "tables m' k (target x) \<subseteq> D" "t \<notin> D"
    and apart: "\<And>j. j < 512 \<Longrightarrow> j \<noteq> i \<Longrightarrow> branch (m (slot t j)) \<Longrightarrow>
      tables m k (target (m (slot t j))) \<inter> D = {}"
    and same: "\<And>u. aligned u \<Longrightarrow> u \<notin> D \<Longrightarrow> u \<noteq> t \<Longrightarrow> agree u m m'"
  shows "tree m' (Suc k) t" and "tables m' (Suc k) t \<subseteq> tables m (Suc k) t \<union> D"
    and "index (Suc k) w \<noteq> i \<Longrightarrow> translate m' (Suc k) t w = translate m (Suc k) t w"
proof -
  have old': "tree m k (target (m (slot t j)))" "t \<notin> tables m k (target (m (slot t j)))"
    "well_formed (Suc k) (m (slot t j))" if "j < 512" "branch (m (slot t j))" for j
    using old that by simp_all
  have wf: "well_formed (Suc k) (m (slot t j))" if "j < 512" for j using old that by simp
  have sep: "tables m k (target (m (slot t i))) \<inter> tables m k (target (m (slot t j))) = {}"
    if "i < 512" "j < 512" "i \<noteq> j" "branch (m (slot t i))" "branch (m (slot t j))" for i j
    using old that by simp
  have keep: "agree u m m'" if "j < 512" "j \<noteq> i" "branch (m (slot t j))"
    "u \<in> tables m k (target (m (slot t j)))" for j u
    using that(4) old'(2) [OF that(1,3)] apart [OF that(1-3)]
    by (intro same aligned_tables [OF aligned_target that(4)]) auto
  have tr: "tree m' k (target (m (slot t j)))"
    if "j < 512" "j \<noteq> i" "branch (m (slot t j))" for j
    using that by (intro agree_tree [OF old'(1)] keep)
  have tb: "tables m' k (target (m (slot t j))) = tables m k (target (m (slot t j)))"
    if "j < 512" "j \<noteq> i" "branch (m (slot t j))" for j
    using that by (intro agree_tables keep)
  have tl: "translate m' k (target (m (slot t j))) w = translate m k (target (m (slot t j))) w"
    if "j < 512" "j \<noteq> i" "branch (m (slot t j))" for j w
    using that by (intro agree_translate keep)
  show "tables m' (Suc k) t \<subseteq> tables m (Suc k) t \<union> D"
    using slots tb new(2) by (auto split: if_splits)
  show "translate m' (Suc k) t w = translate m (Suc k) t w" if "index (Suc k) w \<noteq> i"
    using that slots [OF index_less] tl [OF index_less] by (simp add: Let_def branch_def)
  have "tree m' k (target (m' (slot t j)))" "t \<notin> tables m' k (target (m' (slot t j)))"
    if "j < 512" "branch (m' (slot t j))" for j
    using that slots [OF that(1)] new tr [OF that(1)] tb [OF that(1)] old'(2) [OF that(1)]
    by (auto split: if_splits)
  moreover have "well_formed (Suc k) (m' (slot t j))" if "j < 512" for j
    using slots [OF that] x(2) wf [OF that] by simp
  moreover have "tables m' k (target (m' (slot t l))) \<inter> tables m' k (target (m' (slot t j))) = {}"
    if lj: "l < 512" "j < 512" "l \<noteq> j" "branch (m' (slot t l))" "branch (m' (slot t j))" for l j
  proof -
    consider "l = i" | "j = i" | "l \<noteq> i" "j \<noteq> i" by blast
    then show ?thesis
    proof cases
      case 1
      then show ?thesis using lj slots [OF lj(1)] slots [OF lj(2)] tb [OF lj(2)] apart [OF lj(2)] new(2) by auto
    next
      case 2
      then show ?thesis using lj slots [OF lj(1)] slots [OF lj(2)] tb [OF lj(1)] apart [OF lj(1)] new(2) by auto
    next
      case 3
      then show ?thesis
        using lj slots [OF lj(1)] slots [OF lj(2)] tb [OF lj(1)] tb [OF lj(2)] sep [OF lj(1-3)] by simp
    qed
  qed
  ultimately show "tree m' (Suc k) t" using tree_aligned [OF old] by simp
qed

text \<open>The abstract effect: the page of \<open>v\<close> has the entry \<open>leaf\<close>, reached through \<open>k\<close> entries that grant the
  rights; every other page is translated as before; the tables are still a tree, of the old ones and
  those of \<open>N\<close>; and nothing else in memory changed.\<close>

definition remapped ::
  "u64 \<Rightarrow> u64 \<Rightarrow> u64 \<Rightarrow> nat \<Rightarrow> u64 \<Rightarrow> memory \<Rightarrow> memory \<Rightarrow> u64 set \<Rightarrow> bool" where
  "remapped prot v leaf k t m m' N \<longleftrightarrow>
     tree m' k t \<and> tables m' k t \<subseteq> tables m k t \<union> N \<and>
     (\<forall>u. aligned u \<longrightarrow> u \<notin> tables m k t \<union> N \<longrightarrow> agree u m m') \<and>
     (\<forall>w. \<not> same_page k v w \<longrightarrow> translate m' k t w = translate m k t w) \<and>
     (\<forall>w. same_page k v w \<longrightarrow>
        translate m' k t w = (if present leaf then Some (page_address 0 leaf w) else None)) \<and>
     (\<exists>es. walk m' k t v = es @ [leaf] \<and> length es = k \<and>
        (\<forall>e\<in>set es. branch e \<and> (\<exists>e0. e = settled prot e0))) \<and>
     (let a = slot t (index k v) in k \<noteq> 0 \<longrightarrow> branch (m a) \<longrightarrow> m' a = settled prot (m a))"

lemma same_page_Suc: "same_page (Suc k) v w \<longleftrightarrow> index (Suc k) v = index (Suc k) w \<and> same_page k v w"
  by (auto simp: same_page_def le_Suc_eq)

lemma remapped_leaf:
  assumes "aligned t"
  shows "remapped prot v leaf 0 t m (m(slot t (index 0 v) := leaf)) {}"
  using assms agree_upd [OF assms _ index_less]
  by (auto simp: remapped_def same_page_def Let_def index_less)

lemma remapped_parent:
  assumes old: "tree m (Suc k) t" and i: "i = index (Suc k) v"
    and x: "branch x" "well_formed (Suc k) x" "x = settled prot e0"
    and child: "remapped prot v leaf k (target x) m1 m' N0"
    and D: "D = tables m1 k (target x) \<union> N0" "t \<notin> D" "D \<subseteq> tables m (Suc k) t \<union> N"
    and slots: "\<And>j. j < 512 \<Longrightarrow> m1 (slot t j) = (if j = i then x else m (slot t j))"
    and same: "\<And>u. aligned u \<Longrightarrow> u \<notin> D \<Longrightarrow> u \<noteq> t \<Longrightarrow> agree u m m1"
    and apart: "\<And>j. j < 512 \<Longrightarrow> j \<noteq> i \<Longrightarrow> branch (m (slot t j)) \<Longrightarrow>
      tables m k (target (m (slot t j))) \<inter> D = {}"
    and start: "\<And>w. index (Suc k) w = i \<Longrightarrow> translate m1 k (target x) w = translate m (Suc k) t w"
    and kept: "branch (m (slot t i)) \<Longrightarrow> e0 = m (slot t i)"
  shows "remapped prot v leaf (Suc k) t m m' N"
proof -
  have t: "aligned t" using old by (rule tree_aligned)
  have c: "tree m' k (target x)" "tables m' k (target x) \<subseteq> D"
    "\<And>u. aligned u \<Longrightarrow> u \<notin> D \<Longrightarrow> agree u m1 m'"
    "\<And>w. \<not> same_page k v w \<Longrightarrow> translate m' k (target x) w = translate m1 k (target x) w"
    "\<And>w. same_page k v w \<Longrightarrow> translate m' k (target x) w =
       (if present leaf then Some (page_address 0 leaf w) else None)"
    using child unfolding remapped_def D(1) by blast+
  obtain es where es: "walk m' k (target x) v = es @ [leaf]" "length es = k"
    "\<forall>e\<in>set es. branch e \<and> (\<exists>e0. e = settled prot e0)"
    using child unfolding remapped_def by blast
  have slots': "m' (slot t j) = (if j = i then x else m (slot t j))" if "j < 512" for j
    using agreeD [OF c(3) [OF t D(2)] that] slots [OF that] by simp
  have same': "agree u m m'" if "aligned u" "u \<notin> D" "u \<noteq> t" for u
    using agree_trans [OF same [OF that] c(3) [OF that(1,2)]] .
  have i512: "i < 512" unfolding i by (rule index_less)
  note link = relink [OF old i512 x(1,2) slots' c(1,2) D(2) apart same']
  have t_in: "t \<in> tables m (Suc k) t" by simp
  have here: "translate m' (Suc k) t w = translate m' k (target x) w" if "index (Suc k) w = i" for w
    using slots' [OF i512] x(1) that by (simp add: Let_def branch_def)
  have "tree m' (Suc k) t" using link(1) by blast
  moreover have "tables m' (Suc k) t \<subseteq> tables m (Suc k) t \<union> N" using link(2) D(3) by blast
  moreover have "agree u m m'" if "aligned u" "u \<notin> tables m (Suc k) t \<union> N" for u
    using that D(3) t_in by (intro same') auto
  moreover have "translate m' (Suc k) t w = translate m (Suc k) t w" if "\<not> same_page (Suc k) v w" for w
  proof (cases "index (Suc k) w = i")
    case True
    with that i have "\<not> same_page k v w" by (simp add: same_page_Suc)
    then show ?thesis using here [OF True] c(4) start [OF True] by simp
  next
    case False
    then show ?thesis using link(3) by blast
  qed
  moreover have "translate m' (Suc k) t w = (if present leaf then Some (page_address 0 leaf w) else None)"
    if "same_page (Suc k) v w" for w
    using that here c(5) by (simp add: same_page_Suc i)
  moreover have "walk m' (Suc k) t v = (x # es) @ [leaf]"
    using slots' [OF i512] x(1) es(1) i by (simp add: Let_def)
  moreover have "m' (slot t i) = settled prot (m (slot t i))" if "branch (m (slot t i))"
    using slots' [OF i512] x(3) kept [OF that] by simp
  ultimately show ?thesis using es x(1,3) unfolding remapped_def Let_def i [symmetric]
    by (intro conjI allI impI exI [of _ "x # es"]) auto
qed

lemma created_entry:
  fixes p prot :: u64
  defines "x \<equiv> settled prot (p OR PAGE_PRESENT OR PAGE_WRITABLE OR PAGE_USER)"
  assumes "rights prot" and "target p = p"
  shows "branch x" and "well_formed k x" and "target x = p"
proof -
  let ?b = "p OR PAGE_PRESENT OR PAGE_WRITABLE OR PAGE_USER"
  have p: "bit p n \<Longrightarrow> 12 \<le> n \<and> n < 52" for n using bit_target [of p n] assms(3) by simp
  have "branch ?b" using p [of 7] by (auto simp: branch_def present_def large_def bit_or_iff bit_flags)
  moreover have "well_formed k ?b" using p \<open>branch ?b\<close>
    by (fastforce simp: well_formed_def branch_def bit_or_iff bit_flags)
  ultimately show "branch x" "well_formed k x"
    using settled_well_formed [OF assms(2)] unfolding x_def by blast+
  have "target ?b = p"
    by (rule bit_word_eqI) (use p in \<open>auto simp: bit_target bit_or_iff bit_flags\<close>)
  then show "target x = p" unfolding x_def using settled_target [OF assms(2)] by simp
qed

text \<open>A fresh table translates as the entry it stands for.\<close>

lemma split_table:
  assumes "well_formed (Suc k) e" and "\<not> branch e" and "aligned p" and "k < 4"
    and p: "\<And>j. j < 512 \<Longrightarrow> m (slot p j) = split_entry k e j"
  shows "tree m k p" and "tables m k p = {p}"
    and "translate m k p w = (if present e then Some (page_address (Suc k) e w) else None)"
proof -
  note w = p [OF index_less, of k w]
  have t: "translate m k p w = (if present e then Some (page_address (Suc k) e w) else None)"
    using w assms(1,2,4) split_page_address [of k e w]
    by (cases k) (auto simp: Let_def split_present split_large branch_def)
  show "tree m k p" using assms(1,3) p by (cases k) (simp_all add: split_well_formed)
  show "tables m k p = {p}" using assms(1) p by (cases k) (auto simp: split_well_formed)
  show "translate m k p w = (if present e then Some (page_address (Suc k) e w) else None)" by (rule t)
qed

text \<open>The tables below an entry whose rights were settled, and below an entry that was created.\<close>

lemma follow_child:
  fixes prot :: u64
  assumes "tree m (Suc k) t" and "i < 512" and "branch (m (slot t i))"
  defines "c \<equiv> target (m (slot t i))" and "m1 \<equiv> m(slot t i := settled prot (m (slot t i)))"
  shows "tree m1 k c" and "tables m1 k c = tables m k c" and "translate m1 k c w = translate m k c w"
    and "t \<notin> tables m k c" and "tables m k c \<subseteq> tables m (Suc k) t"
    and "well_formed (Suc k) (m (slot t i))"
proof -
  have c: "tree m k c" and nt: "t \<notin> tables m k c" and wf: "well_formed (Suc k) (m (slot t i))"
    using assms(1-3) by (simp_all add: c_def)
  have ag: "agree u m m1" if "u \<in> tables m k c" for u
    unfolding m1_def using that nt agree_upd [OF tree_aligned [OF assms(1)] _ assms(2)]
      aligned_tables [OF aligned_target, of u m k] by (auto simp: c_def)
  show "tree m1 k c" by (rule agree_tree [OF c ag])
  show "tables m1 k c = tables m k c" by (rule agree_tables [OF ag])
  show "translate m1 k c w = translate m k c w" by (rule agree_translate [OF ag])
  show "t \<notin> tables m k c" by (rule nt)
  show "tables m k c \<subseteq> tables m (Suc k) t" using assms(2,3) by (auto simp: c_def)
  show "well_formed (Suc k) (m (slot t i))" by (rule wf)
qed

lemma create_child:
  fixes x :: u64
  assumes "tree m (Suc k) t" and "i < 512" and "\<not> branch (m (slot t i))" and "k < 4"
    and "aligned p" and "p \<noteq> t" and m1: "\<And>j. j < 512 \<Longrightarrow> m1 (slot p j) = split_entry k (m (slot t i)) j"
  defines "m2 \<equiv> m1(slot t i := x)"
  shows "tree m2 k p" and "tables m2 k p = {p}"
    and "translate m2 k p w =
      (if present (m (slot t i)) then Some (page_address (Suc k) (m (slot t i)) w) else None)"
proof -
  have wf: "well_formed (Suc k) (m (slot t i))" using assms(1,2) by simp
  have s: "m2 (slot p j) = split_entry k (m (slot t i)) j" if "j < 512" for j
    using m1 [OF that] assms(2,5,6) tree_aligned [OF assms(1)] that by (simp add: m2_def)
  show "tree m2 k p" "tables m2 k p = {p}" "translate m2 k p w =
      (if present (m (slot t i)) then Some (page_address (Suc k) (m (slot t i)) w) else None)"
    using split_table [where m = m2, OF wf assms(3,5,4) s] by blast+
qed

lemma remapped_follow:
  assumes a: "a = slot t (index (Suc k) v)" and b: "branch (m a)"
    and prot: "rights prot" and tree: "tree m (Suc k) t" and N: "N \<inter> tables m (Suc k) t = {}"
    and child: "N \<inter> tables (m(a := settled prot (m a))) k (target (m a)) = {} \<Longrightarrow>
      tree (m(a := settled prot (m a))) k (target (m a)) \<Longrightarrow>
      remapped prot v leaf k (target (m a)) (m(a := settled prot (m a))) m' N"
  shows "remapped prot v leaf (Suc k) t m m' N"
proof -
  define i where "i = index (Suc k) v"
  have i: "i < 512" "a = slot t i" using a index_less by (simp_all add: i_def)
  let ?e = "m a" and ?c = "target (m a)" and ?m1 = "m(a := settled prot (m a))"
  have t: "aligned t" using tree by (rule tree_aligned)
  have bi: "branch (m (slot t i))" using b i by simp
  note c1 = follow_child(1-3) [OF tree i(1) bi, where prot = prot, folded i(2)]
    and c = follow_child(4) [OF tree i(1) bi, folded i(2)]
    and sub = follow_child(5) [OF tree i(1) bi, folded i(2)]
    and wf = follow_child(6) [OF tree i(1) bi, folded i(2)]
  have x: "branch (settled prot ?e)" "well_formed (Suc k) (settled prot ?e)" "target (settled prot ?e) = ?c"
    using settled_well_formed [OF prot b wf] settled_target [OF prot] .
  have "N \<inter> tables ?m1 k ?c = {}" using N sub unfolding c1(2) by blast
  from child [OF this c1(1)] show ?thesis
  proof (rule remapped_parent [OF tree i_def x(1,2) refl, unfolded x(3)])
    show "?e = m (slot t i)" using i by simp
    show "tables m k ?c \<union> N = tables ?m1 k ?c \<union> N" using c1(2) by simp
    show "t \<notin> tables m k ?c \<union> N" using c N by auto
    show "tables m k ?c \<union> N \<subseteq> tables m (Suc k) t \<union> N" using sub by blast
    show "?m1 (slot t j) = (if j = i then settled prot ?e else m (slot t j))" if "j < 512" for j
      using that t i by auto
    show "agree u m ?m1" if "aligned u" "u \<noteq> t" for u using that agree_upd [OF t] i by simp
    show "tables m k (target (m (slot t j))) \<inter> (tables m k ?c \<union> N) = {}"
      if j: "j < 512" "j \<noteq> i" "branch (m (slot t j))" for j
    proof -
      have "tables m k (target (m (slot t j))) \<inter> tables m k ?c = {}" using tree b i j by simp
      moreover have "tables m k (target (m (slot t j))) \<subseteq> tables m (Suc k) t" using j by auto
      ultimately show ?thesis using N by blast
    qed
    show "translate ?m1 k ?c w = translate m (Suc k) t w" if "index (Suc k) w = i" for w
      using that b i c1(3) by (simp add: Let_def branch_def)
  qed
qed

lemma remapped_create:
  assumes a: "a = slot t (index (Suc k) v)" and b: "\<not> branch (m a)"
    and p: "aligned p" "target p = p" "p \<notin> N"
    and slots: "\<And>j. j < 512 \<Longrightarrow> m1 (slot p j) = split_entry k (m a) j"
    and same: "\<And>u. aligned u \<Longrightarrow> u \<noteq> p \<Longrightarrow> agree u m m1"
    and prot: "rights prot" and tree: "tree m (Suc k) t" and N: "insert p N \<inter> tables m (Suc k) t = {}"
    and k: "k < 4" and x: "x = settled prot (p OR PAGE_PRESENT OR PAGE_WRITABLE OR PAGE_USER)"
    and child: "N \<inter> tables (m1(a := x)) k p = {} \<Longrightarrow> tree (m1(a := x)) k p \<Longrightarrow>
      remapped prot v leaf k p (m1(a := x)) m' N"
  shows "remapped prot v leaf (Suc k) t m m' (insert p N)"
proof -
  define i where "i = index (Suc k) v"
  have i: "i < 512" "a = slot t i" using a index_less by (simp_all add: i_def)
  let ?m1 = "m1(a := x)"
  have t: "aligned t" using tree by (rule tree_aligned)
  have tp: "t \<noteq> p" using N by auto
  note cx = created_entry [OF prot p(2)]
  have nb: "\<not> branch (m (slot t i))" and sp: "\<And>j. j < 512 \<Longrightarrow> m1 (slot p j) = split_entry k (m (slot t i)) j"
    using b slots i by simp_all
  have new: "tree ?m1 k p" "tables ?m1 k p = {p}"
    "\<And>w. translate ?m1 k p w = (if present (m a) then Some (page_address (Suc k) (m a) w) else None)"
    using create_child [where x = x and ?m1.0 = m1, OF tree i(1) nb k p(1) _ sp] tp i by auto
  have "N \<inter> tables ?m1 k p = {}" using p(3) unfolding new(2) by simp
  from child [OF this new(1)] show ?thesis
  proof (rule remapped_parent [OF tree i_def cx(1,2) refl, unfolded cx(3), folded x])
    show "p OR PAGE_PRESENT OR PAGE_WRITABLE OR PAGE_USER = m (slot t i)" if "branch (m (slot t i))"
      using that b i by simp
    show "insert p N = tables ?m1 k p \<union> N" using new(2) by simp
    show "t \<notin> insert p N" using tp N by auto
    show "insert p N \<subseteq> tables m (Suc k) t \<union> insert p N" by blast
    show "?m1 (slot t j) = (if j = i then x else m (slot t j))" if "j < 512" for j
      using that t i agreeD [OF same [OF t tp] that] by auto
    show "agree u m ?m1" if "aligned u" "u \<notin> insert p N" "u \<noteq> t" for u
      using agree_trans [OF same agree_upd] that t i by auto
    show "tables m k (target (m (slot t j))) \<inter> insert p N = {}"
      if j: "j < 512" "j \<noteq> i" "branch (m (slot t j))" for j
    proof -
      have "tables m k (target (m (slot t j))) \<subseteq> tables m (Suc k) t" using j by auto
      then show ?thesis using N by blast
    qed
    show "translate ?m1 k p w = translate m (Suc k) t w" if "index (Suc k) w = i" for w
      using that b i new(3) by (auto simp: Let_def branch_def)
  qed
qed

lemma descends_remapped:
  assumes "descends prot v k t m pt m' N" and "rights prot" and "tree m k t"
    and "N \<inter> tables m k t = {}" and "k \<le> 4"
  shows "remapped prot v leaf k t m (m'(slot pt (index 0 v) := leaf)) N"
  using assms
proof (induction rule: descends.induct)
  case (arrive t m)
  then show ?case by (simp only: remapped_leaf tree.simps)
next
  case (follow a t k m pt m' N)
  have k: "k \<le> 4" using follow.prems(4) by simp
  show ?case
    by (rule remapped_follow [OF follow(1,2) follow.prems(1-3)], rule follow(4) [OF follow.prems(1) _ _ k])
next
  case (create a t k m p N m1 pt m')
  have k: "k < 4" "k \<le> 4" using create.prems(4) by simp_all
  show ?case
  proof (rule remapped_create [OF create(1-5) _ _ create.prems(1-3) k(1) refl])
    show "m1 (slot p j) = split_entry k (m a) j" if "j < 512" for j using that by (rule create(6))
    show "agree u m m1" if "aligned u" "u \<noteq> p" for u using that by (rule create(7))
  qed (rule create(9) [OF create.prems(1) _ _ k(2)])
qed

end
