(* ===== verification/Remap.thy ===== *)
theory Remap
  imports Runtime Cpu Paging
begin

text \<open>
  \<open>remap_page\<close> of \<open>src/remap.c\<close>, which gives one 4 KiB page a new entry in the page tables in use. Every
  access to a table is a call; that they reach memory, which the firmware leaves alone, is a
  hypothesis of the properties. Theory \<open>Paging\<close> says what the writes mean; here are the function, the
  memory that a history of calls describes, and the loop over the levels. The results about the whole
  function are in theory \<open>Remap_Page\<close>.
\<close>

section \<open>The function\<close>

definition PROT_READ :: u32 where "PROT_READ = push_bit 0 1"
definition PROT_WRITE :: u32 where "PROT_WRITE = push_bit 1 1"
definition PROT_EXEC :: u32 where "PROT_EXEC = push_bit 2 1"
definition PROT_USER :: u32 where "PROT_USER = push_bit 3 1"

text \<open>The constants of \<open>enum page_table_levels\<close> that occur.\<close>

definition PML5 :: nat where "PML5 = 0"
definition PML4 :: nat where "PML4 = 1"
definition PD :: nat where "PD = 3"
definition PT :: nat where "PT = 4"

text \<open>An entry of a table of quadwords.\<close>

definition read_entry :: "env \<Rightarrow> u64 \<Rightarrow> u64 \<Rightarrow> (u64, 'z world_scheme) prog" where
  "read_entry e table i = andthen (ext e (ReadMem64 (table + 8 * i))) (\<lambda>r. return (val0 r))"

definition write_entry :: "env \<Rightarrow> u64 \<Rightarrow> u64 \<Rightarrow> u64 \<Rightarrow> (unit, 'z world_scheme) prog" where
  "write_entry e table i v = extu e (WriteMem64 (table + 8 * i) v)"

definition trace_line :: "build \<Rightarrow> env \<Rightarrow> string \<Rightarrow> vararg list \<Rightarrow> (unit, 'z world_scheme) prog" where
  "trace_line b e fmt args = only_if (trace_remap b) (printf e (fmt @ crlf) args)"

text \<open>The page's address counts only if the status, which comes first, is a success.\<close>

definition allocate_zeroed_page :: "env \<Rightarrow> (u64 \<times> u64, 'z world_scheme) prog" where
  "allocate_zeroed_page e =
     andthen (ext e (AllocatePages 1)) (\<lambda>r.
     andthen (if status r = EFI_SUCCESS then andthen (memset e (val0 r) 0 0x1000) (\<lambda>_. return ())
              else return ()) (\<lambda>_.
     return (status r, val0 r)))"

definition pt_indexes :: "u64 \<Rightarrow> u16 list" where
  "pt_indexes virt_addr =
     [ucast (drop_bit 48 virt_addr AND 0x1ff),
      ucast (drop_bit 39 virt_addr AND 0x1ff),
      ucast (drop_bit 30 virt_addr AND 0x1ff),
      ucast (drop_bit 21 virt_addr AND 0x1ff),
      ucast (drop_bit 12 virt_addr AND 0x1ff)]"

definition page_rights :: "u32 \<Rightarrow> u64" where
  "page_rights prot =
     (let pte_prot = PAGE_PRESENT;
          pte_prot = (if prot AND PROT_WRITE \<noteq> 0 then pte_prot OR PAGE_WRITABLE else pte_prot);
          pte_prot = (if prot AND PROT_USER \<noteq> 0 then pte_prot OR PAGE_USER else pte_prot)
      in if prot AND PROT_EXEC = 0 then pte_prot OR PAGE_NOEXECUTE else pte_prot)"

text \<open>A table for a missing entry, or one that maps what the large page \<open>cur_pte\<close> maps.\<close>

definition new_table :: "env \<Rightarrow> u64 \<Rightarrow> nat \<Rightarrow> (u64 + u64, 'z world_scheme) prog" where
  "new_table e cur_pte i =
     andthen (allocate_zeroed_page e) (\<lambda>(st, new_page_table).
     if st \<noteq> EFI_SUCCESS then return (Inl st)
     else
     andthen (only_if (cur_pte AND PAGE_SIZE \<noteq> 0)
       (let cur_pte = (if i = PD then cur_pte AND NOT PAGE_SIZE else cur_pte);
            next_level_i = i + 1;
            next_level_start_bit = 12 + 9 * (PT - next_level_i);
            offset_to_add = push_bit next_level_start_bit 1
        in for_each [0..<0x200] (\<lambda>j.
             write_entry e new_page_table (of_nat j) (cur_pte + offset_to_add * of_nat j)))) (\<lambda>_.
     return (Inr new_page_table)))"

text \<open>The body of the loop at level \<open>i\<close>: the table of the next level, or the status of the failed
  allocation.\<close>

definition remap_level ::
  "build \<Rightarrow> env \<Rightarrow> u64 \<Rightarrow> u64 \<Rightarrow> nat \<Rightarrow> u64 \<Rightarrow> (u64 + u64, 'z world_scheme) prog" where
  "remap_level b e virt_addr pte_prot i cur_page_table =
     (let idx = ucast (pt_indexes virt_addr ! i) in
     andthen (read_entry e cur_page_table idx) (\<lambda>cur_pte.
     andthen (trace_line b e ''0x%lx[0x%x] -> 0x%lx'' [VInt cur_page_table, VInt idx, VInt cur_pte]) (\<lambda>_.
     andthen
       (if cur_pte AND PAGE_PRESENT = 0 \<or> cur_pte AND PAGE_SIZE \<noteq> 0 then
          andthen (new_table e cur_pte i) (\<lambda>new. case new of
            Inl st \<Rightarrow> return (Inl st)
          | Inr new_page_table \<Rightarrow>
              (let cur_pte = new_page_table OR PAGE_PRESENT OR PAGE_WRITABLE OR PAGE_USER in
               andthen (write_entry e cur_page_table idx cur_pte) (\<lambda>_. return (Inr cur_pte))))
        else return (Inr cur_pte)) (\<lambda>r. case r of
       Inl st \<Rightarrow> return (Inl st)
     | Inr cur_pte \<Rightarrow>
         andthen (only_if (cur_pte AND pte_prot \<noteq> pte_prot AND NOT PAGE_NOEXECUTE)
           (write_entry e cur_page_table idx ((cur_pte OR pte_prot) AND NOT PAGE_NOEXECUTE))) (\<lambda>_.
         return (Inr (cur_pte AND NOT (0xfff OR PAGE_NOEXECUTE))))))))"

fun remap_levels ::
  "build \<Rightarrow> env \<Rightarrow> u64 \<Rightarrow> u64 \<Rightarrow> nat list \<Rightarrow> u64 \<Rightarrow> (u64 + u64, 'z world_scheme) prog" where
  "remap_levels b e virt_addr pte_prot [] cur_page_table = return (Inr cur_page_table)"
| "remap_levels b e virt_addr pte_prot (i # is) cur_page_table =
     andthen (remap_level b e virt_addr pte_prot i cur_page_table) (\<lambda>r. case r of
       Inl st \<Rightarrow> return (Inl st)
     | Inr next_table \<Rightarrow> remap_levels b e virt_addr pte_prot is next_table)"

text \<open>The entry of the page itself.\<close>

definition write_leaf :: "build \<Rightarrow> env \<Rightarrow> u64 \<Rightarrow> u64 \<Rightarrow> u64 \<Rightarrow> (unit, 'z world_scheme) prog" where
  "write_leaf b e virt_addr pte cur_page_table =
     (let idx = ucast (pt_indexes virt_addr ! PT) in
     andthen (trace_line b e ''PT @ 0x%lx'' [VInt cur_page_table]) (\<lambda>_.
     andthen (write_entry e cur_page_table idx pte) (\<lambda>_.
     if trace_remap b then
       andthen (read_entry e cur_page_table idx) (\<lambda>pte.
       trace_line b e ''PT[%x] -> 0x%lx'' [VInt idx, VInt pte])
     else return ())))"

definition remap_page :: "build \<Rightarrow> env \<Rightarrow> u64 \<Rightarrow> u64 \<Rightarrow> u32 \<Rightarrow> (u64, 'z world_scheme) prog" where
  "remap_page b e virt_addr phys_addr prot =
     andthen (read_cr3 e) (\<lambda>cr3.
     let cur_page_table = cr3 AND NOT 0xfff in
     andthen (read_cr0 e) (\<lambda>orig_cr0.
     andthen (write_cr0 e (orig_cr0 AND NOT CR0_WP)) (\<lambda>_.
     andthen (read_cr4 e) (\<lambda>cr4.
     let i = (if cr4 AND CR4_LA57 \<noteq> 0 then PML5 else PML4);
         pte_prot = page_rights prot in
     andthen (remap_levels b e virt_addr pte_prot [i..<PT] cur_page_table) (\<lambda>r. case r of
       Inl st \<Rightarrow> return st
     | Inr cur_page_table \<Rightarrow>
         andthen (write_leaf b e virt_addr (phys_addr OR pte_prot) cur_page_table) (\<lambda>_.
         andthen (read_cr3 e) (\<lambda>cr3.
         andthen (write_cr3 e cr3) (\<lambda>_.
         andthen (write_cr0 e orig_cr0) (\<lambda>_.
         return EFI_SUCCESS)))))))))"

section \<open>Memory\<close>

text \<open>What a call writes, byte by byte into the quadwords of memory.\<close>

definition quadword :: "(nat \<Rightarrow> u64) \<Rightarrow> u64" where
  "quadword f = f 0 OR f 1 OR f 2 OR f 3 OR f 4 OR f 5 OR f 6 OR f 7"

definition overlay :: "(u64 \<Rightarrow> u8 option) \<Rightarrow> memory \<Rightarrow> memory" where
  "overlay g m a = quadword (\<lambda>i. case g (a + of_nat i) of
       None \<Rightarrow> m a AND push_bit (8 * i) 0xff
     | Some c \<Rightarrow> push_bit (8 * i) (ucast c))"

definition store :: "call \<Rightarrow> memory \<Rightarrow> memory" where
  "store c m = (case c of
       WriteMem64 a v \<Rightarrow> m(a := v)
     | SetMem p n x \<Rightarrow> overlay (\<lambda>a. if a - p < n then Some x else None) m
     | CopyMem p d \<Rightarrow> overlay (\<lambda>a. if unat (a - p) < length d then Some (d ! unat (a - p)) else None) m
     | _ \<Rightarrow> m)"

fun replay :: "memory \<Rightarrow> history \<Rightarrow> memory" where
  "replay m [] = m"
| "replay m ((c, r) # h) = replay (store c m) h"

text \<open>The pages the firmware has given for tables.\<close>

definition granted :: "history \<Rightarrow> u64 set" where
  "granted h = {val0 r | r. (AllocatePages 1, r) \<in> set h \<and> status r = EFI_SUCCESS}"

text \<open>The hypotheses: a read of a table, of those in \<open>T\<close> or one given since, answers with what was written
  last; and the firmware gives pages that are aligned, lie in the physical address space and are in
  use neither in \<open>T\<close> nor from an earlier request.\<close>

definition keeps_tables :: "env \<Rightarrow> memory \<Rightarrow> u64 set \<Rightarrow> bool" where
  "keeps_tables e m T \<longleftrightarrow> (\<forall>h t j. t \<in> T \<union> granted h \<longrightarrow> j < 512 \<longrightarrow>
     val0 (e h (ReadMem64 (slot t j))) = replay m h (slot t j))"

definition gives_fresh :: "env \<Rightarrow> u64 set \<Rightarrow> bool" where
  "gives_fresh e T \<longleftrightarrow> (\<forall>h. let r = e h (AllocatePages 1) in status r = EFI_SUCCESS \<longrightarrow>
     aligned (val0 r) \<and> target (val0 r) = val0 r \<and> val0 r \<notin> T \<union> granted h)"

text \<open>Memory in a state.\<close>

definition mem :: "memory \<Rightarrow> 'z world_scheme \<Rightarrow> memory" where
  "mem m s = replay m (trace s)"

definition moves :: "'z world_scheme \<Rightarrow> 'z world_scheme \<Rightarrow> bool" where
  "moves s s' \<longleftrightarrow> (\<exists>h. s' = s\<lparr>trace := trace s @ h\<rparr>)"

lemma moves_refl [simp]: "moves s s"
  unfolding moves_def by (intro exI [of _ "[]"]) simp

lemma moves_emit [simp]: "moves s (emit e c s)"
  unfolding moves_def emit_def by blast

lemma moves_trans [trans]: "moves s s1 \<Longrightarrow> moves s1 s2 \<Longrightarrow> moves s s2"
  by (auto simp: moves_def)

lemma replay_append: "replay m (h @ k) = replay (replay m h) k"
  by (induction m h rule: replay.induct) simp_all

lemma mem_emit: "mem m (emit e c s) = store c (mem m s)"
  by (simp add: mem_def replay_append)

lemma granted_append [simp]: "granted (h @ k) = granted h \<union> granted k"
  by (auto simp: granted_def)

lemma granted_single: "granted [(c, r)] = (if c = AllocatePages 1 \<and> status r = EFI_SUCCESS then {val0 r} else {})"
  by (auto simp: granted_def)

lemma granted_emit:
  "granted (trace (emit e c s)) = granted (trace s) \<union>
     (if c = AllocatePages 1 \<and> status (e (trace s) c) = EFI_SUCCESS then {val0 (e (trace s) c)} else {})"
  by (simp add: granted_single)

lemma granted_moves: "moves s s' \<Longrightarrow> granted (trace s) \<subseteq> granted (trace s')"
  by (auto simp: moves_def)

lemma overlay_none: "(\<And>i. i < 8 \<Longrightarrow> g (a + of_nat i) = None) \<Longrightarrow> overlay g m a = m a"
proof -
  assume g: "\<And>i. i < 8 \<Longrightarrow> g (a + of_nat i) = None"
  have "overlay g m a = quadword (\<lambda>i. m a AND push_bit (8 * i) 0xff)"
    using g [of 0] g [of 1] g [of 2] g [of 3] g [of 4] g [of 5] g [of 6] g [of 7]
    by (simp add: overlay_def quadword_def)
  also have "\<dots> = m a AND quadword (\<lambda>i. push_bit (8 * i) 0xff)"
    by (simp only: quadword_def bit.conj_disj_distrib)
  also have "quadword (\<lambda>i. push_bit (8 * i) 0xff) = - 1" by (simp add: quadword_def)
  finally show ?thesis by simp
qed

lemma overlay_zero: "(\<And>i. i < 8 \<Longrightarrow> g (a + of_nat i) = Some 0) \<Longrightarrow> overlay g m a = 0"
proof -
  assume g: "\<And>i. i < 8 \<Longrightarrow> g (a + of_nat i) = Some 0"
  then show ?thesis
    using g [of 0] g [of 1] g [of 2] g [of 3] g [of 4] g [of 5] g [of 6] g [of 7]
    by (simp add: overlay_def quadword_def)
qed

text \<open>Clearing a page.\<close>

lemma in_page:
  assumes "aligned u" and "aligned p" and "j < 512" and "i < 8"
  shows "slot u j + of_nat i - p < 0x1000 \<longleftrightarrow> u = p"
proof -
  have m: "unat u mod 4096 = 0" "unat p mod 4096 = 0" using assms by (simp_all add: aligned_mod)
  obtain q where q: "unat u = 4096 * q" using m(1) by (auto simp: mod_eq_0_iff_dvd)
  obtain r where r: "unat p = 4096 * r" using m(2) by (auto simp: mod_eq_0_iff_dvd)
  have l: "unat u < 2 ^ 64" "unat p < 2 ^ 64" by (simp_all only: unat_u64_less)
  define d where "d = 8 * j + i"
  have d: "d < 4096" using assms(3,4) by (simp add: d_def)
  have lq: "q < 4503599627370496" "r < 4503599627370496" using l q r by simp_all
  let ?x = "slot u j + of_nat i"
  have "?x = of_nat (unat u + d)" by (simp add: slot_def d_def)
  moreover have "unat u + d < 2 ^ 64" using q lq d by simp
  ultimately have x: "unat ?x = 4096 * q + d"
    by (simp only: unsigned_of_nat q) (simp add: take_bit_eq_mod)
  have "unat (?x - p) = (if unat p \<le> unat ?x then unat ?x - unat p else unat ?x + 2 ^ 64 - unat p)"
    using unat_sub_if' [of ?x p] by simp
  moreover have "?x - p < 0x1000 \<longleftrightarrow> unat (?x - p) < 4096" by (simp add: word_less_nat_alt)
  moreover have "u = p \<longleftrightarrow> q = r" using q r by (auto simp: word_unat_eq_iff)
  ultimately show ?thesis using d lq unfolding x r by (auto simp: not_less)
qed

lemma clear_page:
  assumes "aligned p" and "aligned u" and "j < 512"
  shows "store (SetMem p 0x1000 0) m (slot u j) = (if u = p then 0 else m (slot u j))"
  using in_page [OF assms(2,1,3)]
  by (cases "u = p") (simp_all add: store_def overlay_zero overlay_none)

section \<open>The function on memory\<close>

lemma trace_line_outcome:
  "accepts (fmt @ crlf) args \<Longrightarrow> \<exists>s'. trace_line b e fmt args s = Done () s' \<and> moves s s' \<and> mem m s' = mem m s \<and>
     granted (trace s') = granted (trace s)"
  unfolding trace_line_def
  by (cases "trace_remap b") (simp_all add: run_simps mem_emit granted_single store_def)

lemma write_entry_outcome:
  "\<exists>s'. write_entry e t (of_nat j) v s = Done () s' \<and> moves s s' \<and> mem m s' = (mem m s)(slot t j := v) \<and>
     granted (trace s') = granted (trace s)"
  unfolding write_entry_def by (simp add: run_simps mem_emit granted_single store_def slot_def)

lemma index_word: "i \<le> 4 \<Longrightarrow> ucast (pt_indexes v ! i) = (of_nat (index (4 - i) v) :: u64)"
proof -
  have u: "ucast (ucast (x AND 0x1ff) :: u16) = x AND 0x1ff" for x :: u64
  proof -
    have m: "(0x1ff :: u64) = mask 9" by (simp add: mask_eq_exp_minus_1)
    show ?thesis unfolding m by (rule bit_word_eqI) (auto simp: bit_simps dest: bit_imp_le_length)
  qed
  assume "i \<le> 4"
  then consider "i = 0" | "i = 1" | "i = 2" | "i = 3" | "i = 4" by linarith
  then show ?thesis by cases (simp_all add: pt_indexes_def index_def span_def u)
qed

lemma and_flags:
  "x AND PAGE_PRESENT = 0 \<longleftrightarrow> \<not> present x" "x AND PAGE_SIZE = 0 \<longleftrightarrow> \<not> large x"
proof -
  have f: "x AND y = 0 \<longleftrightarrow> \<not> bit x n" if "\<And>i. bit y i \<longleftrightarrow> i = n" for y :: u64 and n
  proof -
    have "x AND y = (if bit x n then y else 0)"
      by (rule bit_word_eqI) (auto simp: bit_and_iff that)
    moreover have "y \<noteq> 0" using that [of n] by auto
    ultimately show ?thesis by simp
  qed
  show "x AND PAGE_PRESENT = 0 \<longleftrightarrow> \<not> present x" "x AND PAGE_SIZE = 0 \<longleftrightarrow> \<not> large x"
    unfolding present_def large_def by (rule f, rule bit_flags)+
qed

lemma page_rights_ok: "rights (page_rights prot)"
  unfolding rights_def page_rights_def by (auto simp: Let_def bit_or_iff bit_flags)

lemma fill_table:
  assumes "aligned p" and "n \<le> 512"
  shows "\<exists>s'. for_each [0..<n] (\<lambda>j. write_entry e p (of_nat j) (f j)) s = Done () s' \<and> moves s s' \<and>
    granted (trace s') = granted (trace s) \<and>
    (\<forall>j<512. mem m s' (slot p j) = (if j < n then f j else mem m s (slot p j))) \<and>
    (\<forall>u. aligned u \<longrightarrow> u \<noteq> p \<longrightarrow> agree u (mem m s) (mem m s'))"
  using assms(2)
proof (induction n)
  case 0
  then show ?case by (simp add: run_simps)
next
  case (Suc n)
  then obtain s1 where 1: "for_each [0..<n] (\<lambda>j. write_entry e p (of_nat j) (f j)) s = Done () s1" "moves s s1"
    "granted (trace s1) = granted (trace s)"
    "\<forall>j<512. mem m s1 (slot p j) = (if j < n then f j else mem m s (slot p j))"
    "\<forall>u. aligned u \<longrightarrow> u \<noteq> p \<longrightarrow> agree u (mem m s) (mem m s1)"
    by auto
  obtain s2 where 2: "write_entry e p (of_nat n) (f n) s1 = Done () s2" "moves s1 s2"
    "mem m s2 = (mem m s1)(slot p n := f n)" "granted (trace s2) = granted (trace s1)"
    using write_entry_outcome [of e p n "f n" s1 m] by blast
  have "for_each [0..<Suc n] (\<lambda>j. write_entry e p (of_nat j) (f j)) s = Done () s2"
    using 1(1) 2(1) by (simp add: for_each_append run_simps)
  moreover have "mem m s2 (slot p j) = (if j < Suc n then f j else mem m s (slot p j))" if "j < 512" for j
    using 1(4) 2(3) that Suc.prems assms(1) by (auto simp: less_Suc_eq)
  moreover have "agree u (mem m s) (mem m s2)" if "aligned u" "u \<noteq> p" for u
    using agree_trans [of u "mem m s" "mem m s1"] agree_upd [OF assms(1) that(1), of n] 1(5) 2(3) that Suc.prems
    by simp
  ultimately show ?case using moves_trans [OF 1(2) 2(2)] 1(3) 2(4) by auto
qed

lemma zeroed_page:
  assumes "gives_fresh e T"
  shows "\<exists>st p s'. allocate_zeroed_page e s = Done (st, p) s' \<and> moves s s' \<and>
    st = status (e (trace s) (AllocatePages 1)) \<and>
    (st = EFI_SUCCESS \<longrightarrow> aligned p \<and> target p = p \<and> p \<notin> T \<union> granted (trace s) \<and>
       granted (trace s') = insert p (granted (trace s)) \<and>
       (\<forall>u j. aligned u \<longrightarrow> j < 512 \<longrightarrow>
          mem m s' (slot u j) = (if u = p then 0 else mem m s (slot u j))))"
proof -
  let ?r = "e (trace s) (AllocatePages 1)"
  have f: "aligned (val0 ?r) \<and> target (val0 ?r) = val0 ?r \<and> val0 ?r \<notin> T \<union> granted (trace s)"
    if "status ?r = EFI_SUCCESS"
    using assms that by (simp add: gives_fresh_def Let_def)
  have a: "store (AllocatePages n) M = M" for M n by (simp add: store_def)
  let ?s = "emit e (AllocatePages 1) s"
  show ?thesis
  proof (cases "status ?r = EFI_SUCCESS")
    case True
    have "allocate_zeroed_page e s =
        Done (status ?r, val0 ?r) (emit e (SetMem (val0 ?r) 0x1000 0) ?s)"
      using True by (simp add: allocate_zeroed_page_def memset_def run_simps)
    moreover have "moves s (emit e (SetMem (val0 ?r) 0x1000 0) ?s)"
      using moves_trans [OF moves_emit moves_emit] .
    ultimately show ?thesis using f [OF True] True
      by (intro exI conjI) (auto simp: mem_emit a clear_page granted_emit simp del: trace_emit)
  next
    case False
    then show ?thesis by (simp add: allocate_zeroed_page_def run_simps)
  qed
qed

lemma new_table_outcome:
  assumes "gives_fresh e T" and "k < 4"
  shows "\<exists>r s'. new_table e cur (3 - k) s = Done r s' \<and> moves s s' \<and>
    (case r of Inl st \<Rightarrow> st \<noteq> EFI_SUCCESS \<and> st = status (e (trace s) (AllocatePages 1))
     | Inr p \<Rightarrow> aligned p \<and> target p = p \<and> p \<notin> T \<union> granted (trace s) \<and>
         granted (trace s') = insert p (granted (trace s)) \<and>
         (\<forall>j<512. mem m s' (slot p j) = split_entry k cur j) \<and>
         (\<forall>u. aligned u \<longrightarrow> u \<noteq> p \<longrightarrow> agree u (mem m s) (mem m s')))"
proof -
  obtain st p s1 where 1: "allocate_zeroed_page e s = Done (st, p) s1" "moves s s1"
      "st = status (e (trace s) (AllocatePages 1))"
    and ok: "st = EFI_SUCCESS \<Longrightarrow> aligned p \<and> target p = p \<and> p \<notin> T \<union> granted (trace s) \<and>
       granted (trace s1) = insert p (granted (trace s)) \<and>
       (\<forall>u j. aligned u \<longrightarrow> j < 512 \<longrightarrow>
          mem m s1 (slot u j) = (if u = p then 0 else mem m s (slot u j)))"
    using zeroed_page [OF assms(1), of s m] by blast
  show ?thesis
  proof (cases "st = EFI_SUCCESS")
    case False
    then show ?thesis using 1 by (simp add: new_table_def run_simps)
  next
    case st: True
    have p: "aligned p" using ok [OF st] by blast
    have cleared: "mem m s1 (slot p j) = 0" if "j < 512" for j using ok [OF st] that by simp
    have same: "agree u (mem m s) (mem m s1)" if "aligned u" "u \<noteq> p" for u
      using ok [OF st] that by (simp add: agree_def)
    have lvl: "12 + 9 * (PT - (3 - k + 1)) = span k" "3 - k = PD \<longleftrightarrow> k = 0"
      using assms(2) by (simp_all add: PT_def PD_def span_def) arith
    show ?thesis
    proof (cases "large cur")
      case True
      have e: "(if 3 - k = PD then cur AND NOT PAGE_SIZE else cur) +
          push_bit (12 + 9 * (PT - (3 - k + 1))) 1 * of_nat j = split_entry k cur j" for j
        unfolding lvl using True by (simp add: split_entry_def push_bit_eq_mult mult.commute)
      obtain s2 where 2: "for_each [0..<512] (\<lambda>j. write_entry e p (of_nat j) (split_entry k cur j)) s1 = Done () s2"
        "moves s1 s2" "granted (trace s2) = granted (trace s1)"
        "\<forall>j<512. mem m s2 (slot p j) = split_entry k cur j"
        "\<forall>u. aligned u \<longrightarrow> u \<noteq> p \<longrightarrow> agree u (mem m s1) (mem m s2)"
        using fill_table [OF p, of 512 e "split_entry k cur" s1 m] by auto
      have "new_table e cur (3 - k) s = Done (Inr p) s2"
        unfolding new_table_def Let_def e using 1(1) 2(1) st True
        by (simp add: run_simps and_flags del: upt_Suc)
      moreover have "agree u (mem m s) (mem m s2)" if "aligned u" "u \<noteq> p" for u
        using agree_trans [OF same [OF that]] 2(5) that by blast
      ultimately show ?thesis using moves_trans [OF 1(2) 2(2)] 2(3,4) ok [OF st] by auto
    next
      case False
      then have "new_table e cur (3 - k) s = Done (Inr p) s1"
        unfolding new_table_def using 1(1) st by (simp add: run_simps and_flags Let_def del: upt_Suc)
      then show ?thesis using 1(2) ok [OF st] same cleared False
        by (auto simp: split_entry_def)
    qed
  qed
qed

text \<open>The address of the next table, as the code masks it.\<close>

lemma next_table: "well_formed k e \<Longrightarrow> branch e \<Longrightarrow> e AND NOT (0xfff OR PAGE_NOEXECUTE) = target e"
proof -
  assume w: "well_formed k e" "branch e"
  have m: "(0xfff :: u64) = mask 12" by (simp add: mask_eq_exp_minus_1)
  have "\<not> bit e n" if "52 \<le> n" "n < 63" for n using w that by (simp add: well_formed_def)
  then have n: "bit e n \<longrightarrow> n < 52 \<or> n = 63 \<or> 64 \<le> n" for n
    by (cases "52 \<le> n"; cases "n < 63") auto
  show ?thesis unfolding m
  proof (rule bit_word_eqI)
    fix i assume "i < LENGTH(64)"
    then show "bit (e AND NOT (mask 12 OR PAGE_NOEXECUTE)) i = bit (target e) i"
      using n [of i] by (auto simp: bit_simps bit_flags bit_target)
  qed
qed

lemma created_next_table:
  "target p = p \<Longrightarrow> (p OR PAGE_PRESENT OR PAGE_WRITABLE OR PAGE_USER) AND NOT (0xfff OR PAGE_NOEXECUTE) = p"
proof -
  assume t: "target p = p"
  have m: "(0xfff :: u64) = mask 12" by (simp add: mask_eq_exp_minus_1)
  have p: "bit p n \<Longrightarrow> 12 \<le> n \<and> n < 52" for n using bit_target [of p n] t by simp
  show ?thesis unfolding m
  proof (rule bit_word_eqI)
    fix i assume "i < LENGTH(64)"
    then show "bit ((p OR PAGE_PRESENT OR PAGE_WRITABLE OR PAGE_USER) AND NOT (mask 12 OR PAGE_NOEXECUTE)) i = bit p i"
      using p [of i] by (auto simp: bit_simps bit_flags)
  qed
qed

text \<open>Granting the rights writes \<open>settled\<close>, or nothing where it is what is there.\<close>

lemma grant_outcome:
  assumes "mem m s (slot t j) = cur"
  shows "\<exists>s'. only_if (cur AND prot \<noteq> prot AND NOT PAGE_NOEXECUTE)
      (write_entry e t (of_nat j) ((cur OR prot) AND NOT PAGE_NOEXECUTE)) s = Done () s' \<and> moves s s' \<and>
    mem m s' = (mem m s)(slot t j := settled prot cur) \<and> granted (trace s') = granted (trace s)"
proof (cases "cur AND prot = prot AND NOT PAGE_NOEXECUTE")
  case True
  then show ?thesis using assms by (auto simp: run_simps settled_def fun_upd_idem)
next
  case False
  then show ?thesis using write_entry_outcome [of e t j "(cur OR prot) AND NOT PAGE_NOEXECUTE" s m]
    by (simp add: run_simps settled_def)
qed

lemma remap_level_outcome:
  fixes s :: "'z world_scheme" and v :: u64
  assumes env: "keeps_tables e m T" "gives_fresh e T" and k: "k < 4"
    and tree: "tree (mem m s) (Suc k) t" and T: "t \<in> T \<union> granted (trace s)"
  defines "a \<equiv> slot t (index (Suc k) v)"
  shows "\<exists>r s'. remap_level b e v prot (3 - k) t s = Done r s' \<and> moves s s' \<and>
    (case r of Inl st \<Rightarrow> st \<noteq> EFI_SUCCESS \<and>
         (\<exists>t. st = status (e t (AllocatePages 1)) \<and> granted t = granted (trace s))
     | Inr c \<Rightarrow>
         branch (mem m s a) \<and> c = target (mem m s a) \<and> granted (trace s') = granted (trace s) \<and>
           mem m s' = (mem m s)(a := settled prot (mem m s a)) \<or>
         \<not> branch (mem m s a) \<and> aligned c \<and> target c = c \<and> c \<notin> T \<union> granted (trace s) \<and>
           granted (trace s') = insert c (granted (trace s)) \<and>
           (\<exists>m1. (\<forall>j<512. m1 (slot c j) = split_entry k (mem m s a) j) \<and>
              (\<forall>u. aligned u \<longrightarrow> u \<noteq> c \<longrightarrow> agree u (mem m s) m1) \<and>
              mem m s' = m1(a := settled prot (c OR PAGE_PRESENT OR PAGE_WRITABLE OR PAGE_USER))))"
proof -
  define j where "j = index (Suc k) v"
  have j: "j < 512" "a = slot t j" using index_less by (simp_all add: j_def a_def)
  have idx: "ucast (pt_indexes v ! (3 - k)) = (of_nat j :: u64)"
    using index_word [of "3 - k" v] k by (simp add: j_def Suc_diff_le)
  define cur where "cur = mem m s a"
  let ?s0 = "emit e (ReadMem64 a) s"
  have read: "read_entry e t (of_nat j) s = Done cur ?s0"
  proof -
    have "val0 (e (trace s) (ReadMem64 (slot t j))) = mem m s (slot t j)"
      using env(1) T j(1) unfolding keeps_tables_def mem_def by blast
    then show ?thesis using j(2) by (simp add: run_simps slot_def read_entry_def cur_def)
  qed
  have 0: "moves s ?s0" "mem m ?s0 = mem m s" "granted (trace ?s0) = granted (trace s)"
    by (simp_all add: mem_emit store_def granted_single)
  obtain s1 where 1: "trace_line b e ''0x%lx[0x%x] -> 0x%lx'' [VInt t, VInt (of_nat j), VInt cur] ?s0 = Done () s1"
    "moves ?s0 s1" "mem m s1 = mem m s" "granted (trace s1) = granted (trace s)"
    using trace_line_outcome [of "''0x%lx[0x%x] -> 0x%lx''" "[VInt t, VInt (of_nat j), VInt cur]" b e ?s0 m] 0
    by auto
  have m1: "moves s s1" using moves_trans [OF 0(1) 1(2)] .
  have br: "cur AND PAGE_PRESENT = 0 \<or> cur AND PAGE_SIZE \<noteq> 0 \<longleftrightarrow> \<not> branch cur"
    by (auto simp: and_flags branch_def)
  show ?thesis
  proof (cases "branch cur")
    case True
    obtain s2 where 2: "only_if (cur AND prot \<noteq> prot AND NOT PAGE_NOEXECUTE)
        (write_entry e t (of_nat j) ((cur OR prot) AND NOT PAGE_NOEXECUTE)) s1 = Done () s2" "moves s1 s2"
      "mem m s2 = (mem m s1)(slot t j := settled prot cur)" "granted (trace s2) = granted (trace s1)"
      using grant_outcome [of m s1 t j cur prot e] 1(3) j(2) by (auto simp: cur_def)
    have "well_formed (Suc k) cur" using tree j by (simp add: cur_def)
    then have nt: "cur AND NOT (0xfff OR PAGE_NOEXECUTE) = target cur" using True by (rule next_table)
    have "remap_level b e v prot (3 - k) t s = Done (Inr (target cur)) s2"
      unfolding remap_level_def Let_def idx using read 1(1) 2(1) True br nt
      by (simp add: andthen_apply return_apply)
    then show ?thesis using True moves_trans [OF m1 2(2)] 1(3,4) 2(3,4) j(2) by (auto simp: cur_def)
  next
    case False
    obtain r s2 where 2: "new_table e cur (3 - k) s1 = Done r s2" "moves s1 s2"
      "case r of Inl st \<Rightarrow> st \<noteq> EFI_SUCCESS \<and> st = status (e (trace s1) (AllocatePages 1))
       | Inr p \<Rightarrow> aligned p \<and> target p = p \<and> p \<notin> T \<union> granted (trace s1) \<and>
           granted (trace s2) = insert p (granted (trace s1)) \<and>
           (\<forall>j<512. mem m s2 (slot p j) = split_entry k cur j) \<and>
           (\<forall>u. aligned u \<longrightarrow> u \<noteq> p \<longrightarrow> agree u (mem m s1) (mem m s2))"
      using new_table_outcome [OF env(2) k, of cur s1 m] by blast
    show ?thesis
    proof (cases r)
      case (Inl st)
      then have "remap_level b e v prot (3 - k) t s = Done (Inl st) s2"
        unfolding remap_level_def Let_def idx using read 1(1) 2(1) False br
        by (simp add: andthen_apply return_apply)
      then show ?thesis using 2(3) Inl moves_trans [OF m1 2(2)] 1(4) by auto
    next
      case (Inr p)
      let ?x = "p OR PAGE_PRESENT OR PAGE_WRITABLE OR PAGE_USER"
      obtain s3 where 3: "write_entry e t (of_nat j) ?x s2 = Done () s3" "moves s2 s3"
        "mem m s3 = (mem m s2)(slot t j := ?x)" "granted (trace s3) = granted (trace s2)"
        using write_entry_outcome [of e t j ?x s2 m] by blast
      obtain s4 where 4: "only_if (?x AND prot \<noteq> prot AND NOT PAGE_NOEXECUTE)
          (write_entry e t (of_nat j) ((?x OR prot) AND NOT PAGE_NOEXECUTE)) s3 = Done () s4" "moves s3 s4"
        "mem m s4 = (mem m s3)(slot t j := settled prot ?x)" "granted (trace s4) = granted (trace s3)"
        using grant_outcome [of m s3 t j ?x prot e] 3(3) by auto
      have p: "target p = p" using 2(3) Inr by simp
      have "remap_level b e v prot (3 - k) t s = Done (Inr p) s4"
        unfolding remap_level_def Let_def idx using read 1(1) 2(1) 3(1) 4(1) False br Inr
          created_next_table [OF p]
        by (simp add: andthen_apply return_apply)
      moreover have "mem m s4 = (mem m s2)(a := settled prot ?x)" using 3(3) 4(3) j(2) by simp
      moreover have "moves s s4" using moves_trans [OF moves_trans [OF m1 2(2)] moves_trans [OF 3(2) 4(2)]] .
      ultimately show ?thesis using 2(3) Inr 1(3,4) 3(4) 4(4) False
        by (intro exI [of _ "Inr p"] exI [of _ s4]) (auto simp: cur_def)
    qed
  qed
qed

text \<open>What the loop does from level \<open>k\<close> on: it fails at an allocation, the first of at most \<open>k\<close>, or goes
  down to the last table as \<open>descends\<close> has it.\<close>

definition reaches ::
  "memory \<Rightarrow> env \<Rightarrow> u64 set \<Rightarrow> u64 \<Rightarrow> u64 \<Rightarrow> nat \<Rightarrow> u64 \<Rightarrow> 'z world_scheme \<Rightarrow> u64 + u64 \<Rightarrow> 'z world_scheme \<Rightarrow> bool" where
  "reaches m e T prot v k t s r s' \<longleftrightarrow> moves s s' \<and>
    (case r of
       Inl st \<Rightarrow> st \<noteq> EFI_SUCCESS \<and>
         (\<exists>h G. st = status (e h (AllocatePages 1)) \<and> granted h = granted (trace s) \<union> G \<and> finite G \<and> card G < k)
     | Inr pt \<Rightarrow> \<exists>N. descends prot v k t (mem m s) pt (mem m s') N \<and> N \<subseteq> granted (trace s') \<and>
         N \<inter> (T \<union> granted (trace s)) = {})"

lemma reaches_failed:
  assumes "moves s s'" and "st \<noteq> EFI_SUCCESS" and "st = status (e h (AllocatePages 1))"
    and "granted h = granted (trace s)"
  shows "reaches m e T prot v (Suc k) t s (Inl st) s'"
proof -
  have "\<exists>h G. st = status (e h (AllocatePages 1)) \<and> granted h = granted (trace s) \<union> G \<and> finite G \<and> card G < Suc k"
    using assms by (intro exI [of _ h] exI [of _ "{}"]) auto
  then show ?thesis using assms(1,2) by (simp add: reaches_def)
qed

lemma reaches_follow:
  assumes "a = slot t (index (Suc k) v)" and "branch (mem m s a)"
    and "granted (trace s1) = granted (trace s)" and "mem m s1 = (mem m s)(a := settled prot (mem m s a))"
    and "moves s s1" and child: "reaches m e T prot v k (target (mem m s a)) s1 r s2"
  shows "reaches m e T prot v (Suc k) t s r s2"
proof -
  have "descends prot v (Suc k) t (mem m s) pt m' N" if "descends prot v k (target (mem m s a)) (mem m s1) pt m' N"
    for pt m' N
    using that assms(1,2,4) by (intro descends.follow) simp_all
  then show ?thesis using child moves_trans [OF assms(5)] assms(3) unfolding reaches_def
    by (cases r) (auto intro: less_SucI)
qed

lemma reaches_create:
  assumes "a = slot t (index (Suc k) v)" and "\<not> branch (mem m s a)"
    and c: "aligned c" "target c = c" "c \<notin> T \<union> granted (trace s)" "granted (trace s1) = insert c (granted (trace s))"
    and m1: "\<And>j. j < 512 \<Longrightarrow> m1 (slot c j) = split_entry k (mem m s a) j"
      "\<And>u. aligned u \<Longrightarrow> u \<noteq> c \<Longrightarrow> agree u (mem m s) m1"
      "mem m s1 = m1(a := settled prot (c OR PAGE_PRESENT OR PAGE_WRITABLE OR PAGE_USER))"
    and "moves s s1" and child: "reaches m e T prot v k c s1 r s2"
  shows "reaches m e T prot v (Suc k) t s r s2"
proof (cases r)
  case (Inl st)
  with child obtain h G where h: "st \<noteq> EFI_SUCCESS" "st = status (e h (AllocatePages 1))"
    "granted h = granted (trace s1) \<union> G" "finite G" "card G < k" "moves s1 s2"
    by (auto simp: reaches_def)
  have "granted h = granted (trace s) \<union> insert c G" using h(3) c(4) by simp
  moreover have "finite (insert c G) \<and> card (insert c G) < Suc k" using h(4,5) by (simp add: card_insert_if)
  ultimately have "\<exists>h G. st = status (e h (AllocatePages 1)) \<and> granted h = granted (trace s) \<union> G \<and>
      finite G \<and> card G < Suc k"
    using h(2) by blast
  then show ?thesis using h(1) Inl moves_trans [OF \<open>moves s s1\<close> h(6)] by (simp add: reaches_def)
next
  case (Inr pt)
  with child obtain N where N: "descends prot v k c (mem m s1) pt (mem m s2) N"
    "N \<subseteq> granted (trace s2)" "N \<inter> (T \<union> granted (trace s1)) = {}" "moves s1 s2"
    by (auto simp: reaches_def)
  have cN: "c \<notin> N" using N(3) c(4) by auto
  have "descends prot v (Suc k) t (mem m s) pt (mem m s2) (insert c N)"
    using descends.create [OF assms(1,2) c(1,2) cN m1(1,2)] N(1) m1(3) by simp
  moreover have "insert c N \<subseteq> granted (trace s2)" using N(2) granted_moves [OF N(4)] c(4) by auto
  moreover have "insert c N \<inter> (T \<union> granted (trace s)) = {}" using N(3) c(3,4) by auto
  ultimately show ?thesis using Inr moves_trans [OF \<open>moves s s1\<close> N(4)] by (auto simp: reaches_def)
qed

lemma remap_levels_outcome:
  fixes s :: "'z world_scheme"
  assumes "keeps_tables e m T" and "gives_fresh e T" and "rights prot" and "k \<le> 4"
    and "tree (mem m s) k t" and "tables (mem m s) k t \<subseteq> T \<union> granted (trace s)"
  shows "\<exists>r s'. remap_levels b e v prot [4 - k..<4] t s = Done r s' \<and> reaches m e T prot v k t s r s'"
  using assms(4-)
proof (induction k arbitrary: t s)
  case 0
  then show ?case by (auto simp: run_simps reaches_def intro!: exI [of _ "{}"] descends.arrive)
next
  case (Suc k)
  define i where "i = index (Suc k) v"
  let ?M = "mem m s" and ?a = "slot t i"
  have i: "i < 512" by (simp add: i_def index_less)
  have t: "t \<in> T \<union> granted (trace s)" and k: "k < 4" using Suc.prems by auto
  have upt: "[4 - Suc k..<4] = (3 - k) # [4 - k..<4]"
    using upt_conv_Cons [of "3 - k" 4] k Suc_diff_le [of k 3] by simp
  obtain r s1 where 1: "remap_level b e v prot (3 - k) t s = Done r s1" "moves s s1"
    and r: "case r of Inl st \<Rightarrow> st \<noteq> EFI_SUCCESS \<and>
         (\<exists>h. st = status (e h (AllocatePages 1)) \<and> granted h = granted (trace s))
     | Inr c \<Rightarrow>
         branch (?M ?a) \<and> c = target (?M ?a) \<and> granted (trace s1) = granted (trace s) \<and>
           mem m s1 = ?M(?a := settled prot (?M ?a)) \<or>
         \<not> branch (?M ?a) \<and> aligned c \<and> target c = c \<and> c \<notin> T \<union> granted (trace s) \<and>
           granted (trace s1) = insert c (granted (trace s)) \<and>
           (\<exists>m1. (\<forall>j<512. m1 (slot c j) = split_entry k (?M ?a) j) \<and>
              (\<forall>u. aligned u \<longrightarrow> u \<noteq> c \<longrightarrow> agree u ?M m1) \<and>
              mem m s1 = m1(?a := settled prot (c OR PAGE_PRESENT OR PAGE_WRITABLE OR PAGE_USER)))"
    using remap_level_outcome [OF assms(1,2) k Suc.prems(2) t, where v = v and b = b and prot = prot]
    unfolding i_def by blast
  show ?case
  proof (cases r)
    case (Inl st)
    then show ?thesis using 1 r reaches_failed [OF 1(2)] unfolding upt by (auto simp: run_simps)
  next
    case (Inr c)
    have run: "remap_levels b e v prot [4 - Suc k..<4] t s = remap_levels b e v prot [4 - k..<4] c s1"
      using 1(1) Inr unfolding upt by (simp add: run_simps)
    consider (follow) "branch (?M ?a)" "c = target (?M ?a)" "granted (trace s1) = granted (trace s)"
        "mem m s1 = ?M(?a := settled prot (?M ?a))"
      | (create) m1 where "\<not> branch (?M ?a)" "aligned c" "target c = c" "c \<notin> T \<union> granted (trace s)"
        "granted (trace s1) = insert c (granted (trace s))"
        "\<And>j. j < 512 \<Longrightarrow> m1 (slot c j) = split_entry k (?M ?a) j"
        "\<And>u. aligned u \<Longrightarrow> u \<noteq> c \<Longrightarrow> agree u ?M m1"
        "mem m s1 = m1(?a := settled prot (c OR PAGE_PRESENT OR PAGE_WRITABLE OR PAGE_USER))"
      using r Inr by auto
    then show ?thesis
    proof cases
      case follow
      have "tree (mem m s1) k c" "tables (mem m s1) k c \<subseteq> T \<union> granted (trace s1)"
        using follow_child(1,2) [OF Suc.prems(2) i follow(1), of prot]
          follow_child(5) [OF Suc.prems(2) i follow(1)] Suc.prems(3) unfolding follow(2-4) by auto
      from Suc.IH [OF _ this] k show ?thesis
        using run follow reaches_follow [OF i_def [THEN arg_cong [of _ _ "slot t"]] _ _ _ 1(2)] by auto
    next
      case create
      have ct: "c \<noteq> t" using create(4) t by auto
      have "tree (mem m s1) k c" "tables (mem m s1) k c = {c}"
        using create_child(1,2) [OF Suc.prems(2) i create(1) k create(2) ct create(6)]
        unfolding create(8) by auto
      then have "\<exists>r2 s2. remap_levels b e v prot [4 - k..<4] c s1 = Done r2 s2 \<and> reaches m e T prot v k c s1 r2 s2"
        using k create(5) by (intro Suc.IH) auto
      then show ?thesis
        using run reaches_create [OF i_def [THEN arg_cong [of _ _ "slot t"]] create 1(2)] by auto
    qed
  qed
qed

end
