(* ===== verification/Remap_Page.thy ===== *)
theory Remap_Page
  imports Remap
begin

text \<open>
  The results about \<open>remap_page\<close> of \<open>src/remap.c\<close>: what it does to the translation of addresses, to the
  rights, to CR0, and when it fails.
\<close>

section \<open>The whole function on memory\<close>

text \<open>The page tables in use: their root, and the level of the root by CR4.\<close>

definition paging_root :: "env \<Rightarrow> u64 \<Rightarrow> nat \<Rightarrow> bool" where
  "paging_root e root K \<longleftrightarrow> (\<forall>h. val0 (e h (ReadCr 3)) AND NOT 0xfff = root \<and>
     K = (if val0 (e h (ReadCr 4)) AND CR4_LA57 \<noteq> 0 then 4 else 3))"

text \<open>The state in which the loop starts, and what follows it.\<close>

definition old_cr0 :: "env \<Rightarrow> 'z world_scheme \<Rightarrow> u64" where
  "old_cr0 e s = val0 (e (trace (emit e (ReadCr 3) s)) (ReadCr 0))"

definition unprotected :: "env \<Rightarrow> 'z world_scheme \<Rightarrow> 'z world_scheme" where
  "unprotected e s =
     emit e (WriteCr 0 (old_cr0 e s AND NOT CR0_WP)) (emit e (ReadCr 0) (emit e (ReadCr 3) s))"

definition first_level :: "env \<Rightarrow> 'z world_scheme \<Rightarrow> nat" where
  "first_level e s =
     (if val0 (e (trace (unprotected e s)) (ReadCr 4)) AND CR4_LA57 \<noteq> 0 then PML5 else PML4)"

definition finish :: "build \<Rightarrow> env \<Rightarrow> u64 \<Rightarrow> u64 \<Rightarrow> u64 \<Rightarrow> u64 \<Rightarrow> (u64, 'z world_scheme) prog" where
  "finish b e v pte cr0 t = andthen (write_leaf b e v pte t) (\<lambda>_.
     andthen (read_cr3 e) (\<lambda>cr3. andthen (write_cr3 e cr3) (\<lambda>_.
     andthen (write_cr0 e cr0) (\<lambda>_. return EFI_SUCCESS))))"

lemma remap_page_start:
  "remap_page b e v p prot s =
     bind (remap_levels b e v (page_rights prot) [first_level e s..<PT]
         (val0 (e (trace s) (ReadCr 3)) AND NOT 0xfff) (emit e (ReadCr 4) (unprotected e s)))
       (case_sum return (finish b e v (p OR page_rights prot) (old_cr0 e s)))"
  unfolding remap_page_def Let_def cr_defs first_level_def unprotected_def old_cr0_def finish_def
  by (simp add: andthen_apply ext_apply return_apply extu_apply)

lemma finish_run:
  "write_leaf b e v pte t s = Done () s1 \<Longrightarrow> finish b e v pte cr0 t s = Done EFI_SUCCESS
     (emit e (WriteCr 0 cr0) (emit e (WriteCr 3 (val0 (e (trace s1) (ReadCr 3)))) (emit e (ReadCr 3) s1)))"
  by (simp add: finish_def andthen_apply ext_apply return_apply extu_apply cr_defs)

lemma write_leaf_outcome:
  "\<exists>s'. write_leaf b e v pte t s = Done () s' \<and> moves s s' \<and>
     mem m s' = (mem m s)(slot t (index 0 v) := pte) \<and> granted (trace s') = granted (trace s)"
proof -
  have idx: "ucast (pt_indexes v ! PT) = (of_nat (index 0 v) :: u64)"
    using index_word [of 4 v] by (simp add: PT_def)
  obtain s1 where 1: "trace_line b e ''PT @ 0x%lx'' [VInt t] s = Done () s1" "moves s s1" "mem m s1 = mem m s"
    "granted (trace s1) = granted (trace s)"
    using trace_line_outcome [of "''PT @ 0x%lx''" "[VInt t]" b e s m] by auto
  obtain s2 where 2: "write_entry e t (of_nat (index 0 v)) pte s1 = Done () s2" "moves s1 s2"
    "mem m s2 = (mem m s1)(slot t (index 0 v) := pte)" "granted (trace s2) = granted (trace s1)"
    using write_entry_outcome [of e t "index 0 v" pte s1 m] by blast
  have m2: "moves s s2" using moves_trans [OF 1(2) 2(2)] .
  show ?thesis
  proof (cases "trace_remap b")
    case False
    then have "write_leaf b e v pte t s = Done () s2"
      unfolding write_leaf_def Let_def idx using 1(1) 2(1) by (simp add: run_simps)
    then show ?thesis using m2 1(3,4) 2(3,4) by auto
  next
    case True
    let ?c = "ReadMem64 (t + 8 * of_nat (index 0 v))"
    let ?s = "emit e ?c s2"
    have read: "read_entry e t (of_nat (index 0 v)) s2 = Done (val0 (e (trace s2) ?c)) ?s"
      by (simp add: read_entry_def run_simps)
    obtain s3 where 3: "trace_line b e ''PT[%x] -> 0x%lx'' [VInt (of_nat (index 0 v)), VInt (val0 (e (trace s2) ?c))] ?s =
        Done () s3" "moves ?s s3" "mem m s3 = mem m ?s" "granted (trace s3) = granted (trace ?s)"
      using trace_line_outcome [of "''PT[%x] -> 0x%lx''" "[VInt (of_nat (index 0 v)), VInt (val0 (e (trace s2) ?c))]" b e ?s m]
      by auto
    have "write_leaf b e v pte t s = Done () s3"
      unfolding write_leaf_def Let_def idx using 1(1) 2(1) 3(1) True read by (simp add: andthen_apply)
    moreover have "moves s s3" using moves_trans [OF m2 moves_trans [OF moves_emit 3(2)]] .
    ultimately show ?thesis using 1(3,4) 2(3,4) 3(3,4)
      by (intro exI [of _ s3]) (simp add: mem_emit store_def granted_single)
  qed
qed

lemma remap_page_outcome:
  fixes s :: "'z world_scheme"
  assumes env: "keeps_tables e m T" "gives_fresh e T" "paging_root e root K"
    and tree: "tree (mem m s) K root" and T: "tables (mem m s) K root \<subseteq> T \<union> granted (trace s)"
  shows "\<exists>st s'. remap_page b e v p prot s = Done st s' \<and> moves s s' \<and>
    (st = EFI_SUCCESS \<longrightarrow> (\<exists>N. N \<subseteq> granted (trace s') \<and>
       remapped (page_rights prot) v (p OR page_rights prot) K root (mem m s) (mem m s') N)) \<and>
    (st \<noteq> EFI_SUCCESS \<longrightarrow> (\<exists>t G. st = status (e t (AllocatePages 1)) \<and>
       granted t = granted (trace s) \<union> G \<and> finite G \<and> card G < K))"
proof -
  let ?s4 = "emit e (ReadCr 4) (unprotected e s)"
  have root: "val0 (e (trace s) (ReadCr 3)) AND NOT 0xfff = root" and level: "first_level e s = 4 - K" "K \<le> 4"
    using env(3) unfolding paging_root_def first_level_def PML5_def PML4_def by auto
  have m4: "mem m ?s4 = mem m s" "granted (trace ?s4) = granted (trace s)"
    by (simp_all add: unprotected_def mem_emit store_def granted_emit del: trace_emit)
  have mv4: "moves s ?s4" unfolding unprotected_def
    using moves_trans [OF moves_emit moves_trans [OF moves_emit moves_trans [OF moves_emit moves_emit]]] .
  obtain r s5 where 5: "remap_levels b e v (page_rights prot) [4 - K..<4] root ?s4 = Done r s5" "moves ?s4 s5"
    "case r of Inl st \<Rightarrow> st \<noteq> EFI_SUCCESS \<and>
       (\<exists>t G. st = status (e t (AllocatePages 1)) \<and> granted t = granted (trace s) \<union> G \<and> finite G \<and> card G < K)
     | Inr pt \<Rightarrow> \<exists>N. descends (page_rights prot) v K root (mem m s) pt (mem m s5) N \<and>
         N \<subseteq> granted (trace s5) \<and> N \<inter> (T \<union> granted (trace s)) = {}"
    using remap_levels_outcome [OF env(1,2) page_rights_ok level(2), of ?s4 root b v prot] tree T
    unfolding m4 reaches_def by blast
  have start: "remap_page b e v p prot s =
      bind (Done r s5) (case_sum return (finish b e v (p OR page_rights prot) (old_cr0 e s)))"
    unfolding remap_page_start root level(1) PT_def 5(1) ..
  show ?thesis
  proof (cases r)
    case (Inl st)
    then show ?thesis using start 5(3) moves_trans [OF mv4 5(2)] by (auto simp: return_apply)
  next
    case (Inr pt)
    obtain N where N: "descends (page_rights prot) v K root (mem m s) pt (mem m s5) N"
      "N \<subseteq> granted (trace s5)" "N \<inter> (T \<union> granted (trace s)) = {}" using 5(3) Inr by auto
    obtain s6 where 6: "write_leaf b e v (p OR page_rights prot) pt s5 = Done () s6" "moves s5 s6"
      "mem m s6 = (mem m s5)(slot pt (index 0 v) := p OR page_rights prot)"
      "granted (trace s6) = granted (trace s5)"
      using write_leaf_outcome [of b e v "p OR page_rights prot" pt s5 m] by blast
    let ?s8 = "emit e (WriteCr 3 (val0 (e (trace s6) (ReadCr 3)))) (emit e (ReadCr 3) s6)"
    let ?s9 = "emit e (WriteCr 0 (old_cr0 e s)) ?s8"
    have "remap_page b e v p prot s = Done EFI_SUCCESS ?s9" using start finish_run [OF 6(1)] Inr by simp
    moreover have "moves s ?s9"
      using moves_trans [OF moves_trans [OF mv4 5(2)] moves_trans [OF 6(2)
          moves_trans [OF moves_emit moves_trans [OF moves_emit moves_emit]]]] .
    moreover have "mem m ?s9 = (mem m s5)(slot pt (index 0 v) := p OR page_rights prot)"
      "N \<subseteq> granted (trace ?s9)"
      using 6(3,4) N(2) by (simp_all add: mem_emit store_def granted_emit del: trace_emit)
    moreover have "N \<inter> tables (mem m s) K root = {}" using N(3) T by blast
    then have "remapped (page_rights prot) v (p OR page_rights prot) K root (mem m s)
        ((mem m s5)(slot pt (index 0 v) := p OR page_rights prot)) N"
      by (rule descends_remapped [OF N(1) page_rights_ok tree _ level(2)])
    ultimately show ?thesis by (intro exI [of _ EFI_SUCCESS] exI [of _ ?s9]) (auto simp del: trace_emit)
  qed
qed

lemma leaf_page_address:
  assumes "aligned p" and "target p = p"
  shows "page_address 0 (p OR page_rights prot) w = p OR (w AND 0xfff)"
proof (rule bit_word_eqI)
  fix n assume "n < LENGTH(64)"
  have m: "(0xfff :: u64) = mask 12" by (simp add: mask_eq_exp_minus_1)
  have p: "bit p n \<Longrightarrow> 12 \<le> n \<and> n < 52" using bit_target [of p n] assms(2) by simp
  have r: "bit (page_rights prot) n \<Longrightarrow> n \<in> {0, 1, 2, 63}" using page_rights_ok by (auto simp: rights_def)
  show "bit (page_address 0 (p OR page_rights prot) w) n = bit (p OR (w AND 0xfff)) n"
    unfolding m bit_page_address using p r \<open>n < LENGTH(64)\<close>
    by (auto simp: span_def bit_or_iff bit_and_iff bit_mask_iff)
qed

text \<open>The effect, with the entry written out.\<close>

lemma remap_page_effect:
  fixes s :: "'z world_scheme"
  assumes "keeps_tables e m T" and "gives_fresh e T" and "paging_root e root K"
    and "tree (mem m s) K root" and "tables (mem m s) K root \<subseteq> T \<union> granted (trace s)"
    and "aligned p" and "target p = p"
  shows "\<exists>st s'. remap_page b e v p prot s = Done st s' \<and> moves s s' \<and>
    (st = EFI_SUCCESS \<longrightarrow>
      (\<forall>w. translate (mem m s') K root w =
         (if same_page K v w then Some (p OR (w AND 0xfff)) else translate (mem m s) K root w)) \<and>
      (\<exists>es. walk (mem m s') K root v = es @ [p OR page_rights prot] \<and> length es = K \<and>
         (\<forall>e\<in>set es. \<forall>n<63. bit (page_rights prot) n \<longrightarrow> bit e n)) \<and>
      tree (mem m s') K root \<and> tables (mem m s') K root \<subseteq> T \<union> granted (trace s')) \<and>
    (st \<noteq> EFI_SUCCESS \<longrightarrow> (\<exists>t G. st = status (e t (AllocatePages 1)) \<and>
       granted t = granted (trace s) \<union> G \<and> finite G \<and> card G < K))"
proof -
  obtain st s' where 1: "remap_page b e v p prot s = Done st s'" "moves s s'"
    "st \<noteq> EFI_SUCCESS \<longrightarrow> (\<exists>t G. st = status (e t (AllocatePages 1)) \<and>
       granted t = granted (trace s) \<union> G \<and> finite G \<and> card G < K)"
    and ok: "st = EFI_SUCCESS \<longrightarrow> (\<exists>N. N \<subseteq> granted (trace s') \<and>
       remapped (page_rights prot) v (p OR page_rights prot) K root (mem m s) (mem m s') N)"
    using remap_page_outcome [OF assms(1-5), of b v p prot] by blast
  have "present (p OR page_rights prot)"
    using page_rights_ok by (simp add: present_def rights_def bit_or_iff)
  note leaf = this leaf_page_address [OF assms(6,7), of prot]
  have bits: "bit (settled (page_rights prot) e0) n" if "n < 63" "bit (page_rights prot) n" for e0 n
    using settled_bits [OF page_rights_ok that(1)] that(2) by simp
  show ?thesis
  proof (intro exI [of _ st] exI [of _ s'] conjI 1 impI)
    assume st: "st = EFI_SUCCESS"
    then obtain N where N: "N \<subseteq> granted (trace s')"
      "remapped (page_rights prot) v (p OR page_rights prot) K root (mem m s) (mem m s') N" using ok st by blast
    show "tree (mem m s') K root" using N(2) by (simp add: remapped_def)
    show "tables (mem m s') K root \<subseteq> T \<union> granted (trace s')"
      using N assms(5) granted_moves [OF 1(2)] unfolding remapped_def by blast
    show "\<forall>w. translate (mem m s') K root w =
        (if same_page K v w then Some (p OR (w AND 0xfff)) else translate (mem m s) K root w)"
      using N(2) leaf by (simp add: remapped_def)
    show "\<exists>es. walk (mem m s') K root v = es @ [p OR page_rights prot] \<and> length es = K \<and>
        (\<forall>e\<in>set es. \<forall>n<63. bit (page_rights prot) n \<longrightarrow> bit e n)"
    proof -
      obtain es where "walk (mem m s') K root v = es @ [p OR page_rights prot]" "length es = K"
        "\<forall>e\<in>set es. \<exists>e0. e = settled (page_rights prot) e0"
        using N(2) unfolding remapped_def by blast
      moreover from this(3) have "\<forall>e\<in>set es. \<forall>n<63. bit (page_rights prot) n \<longrightarrow> bit e n"
        using bits by fastforce
      ultimately show ?thesis by blast
    qed
  qed
qed

text \<open>C6: \<open>remap_page\<close> changes the translation of one page and of no other. On page tables that form a tree,
  it always returns, and fails only if the firmware refuses one of the at most \<open>K\<close> tables it needs; after
  a success, the page of \<open>v\<close> is translated to the page at \<open>p\<close>, its entry is
  \<open>p\<close> with the rights of \<open>prot\<close>, which every table above grants too, and every address of another page is
  translated as before, also where a large page had to be split. The tables are a tree again.\<close>

theorem remap_page_maps:
  fixes s :: "'z world_scheme"
  assumes "keeps_tables e m T" and "gives_fresh e T" and "paging_root e root K"
    and "tree (mem m s) K root" and "tables (mem m s) K root \<subseteq> T \<union> granted (trace s)"
    and "aligned p" and "target p = p"
  shows "\<exists>st s'. remap_page b e v p prot s = Done st s' \<and> moves s s' \<and>
    (st = EFI_SUCCESS \<longrightarrow>
      (\<forall>w. translate (mem m s') K root w =
         (if same_page K v w then Some (p OR (w AND 0xfff)) else translate (mem m s) K root w)) \<and>
      (\<exists>es. walk (mem m s') K root v = es @ [p OR page_rights prot] \<and> length es = K \<and>
         (\<forall>e\<in>set es. \<forall>n<63. bit (page_rights prot) n \<longrightarrow> bit e n)) \<and>
      tree (mem m s') K root \<and> tables (mem m s') K root \<subseteq> T \<union> granted (trace s')) \<and>
    (st \<noteq> EFI_SUCCESS \<longrightarrow> (\<exists>t G. st = status (e t (AllocatePages 1)) \<and>
       granted t = granted (trace s) \<union> G \<and> finite G \<and> card G < K))"
  using assms by (rule remap_page_effect)

text \<open>C36: an executable mapping may stay non-executable: if the entry of the uppermost table already
  grants the rights but forbids execution, \<open>remap_page\<close> leaves it as it is, although it clears the
  NX flag of the entries it changes.\<close>

theorem remap_page_keeps_nx:
  fixes s :: "'z world_scheme"
  assumes "keeps_tables e m T" and "gives_fresh e T" and "paging_root e root K"
    and "tree (mem m s) K root" and "tables (mem m s) K root \<subseteq> T \<union> granted (trace s)"
    and "prot AND PROT_EXEC \<noteq> 0" and "pte = mem m s (slot root (index K v))" and "branch pte"
    and "pte AND page_rights prot = page_rights prot" and "bit pte 63"
  shows "\<exists>st s'. remap_page b e v p prot s = Done st s' \<and>
    (st = EFI_SUCCESS \<longrightarrow> bit (hd (walk (mem m s') K root v)) 63)"
proof -
  obtain st s' where 1: "remap_page b e v p prot s = Done st s'"
    and ok: "st = EFI_SUCCESS \<longrightarrow> (\<exists>N. N \<subseteq> granted (trace s') \<and>
       remapped (page_rights prot) v (p OR page_rights prot) K root (mem m s) (mem m s') N)"
    using remap_page_outcome [OF assms(1-5), of b v p prot] by blast
  have "page_rights prot AND NOT PAGE_NOEXECUTE = page_rights prot"
    using assms(6) by (intro bit_word_eqI) (auto simp: page_rights_def Let_def bit_simps bit_flags)
  then have same: "settled (page_rights prot) pte = pte" using assms(9) by (simp add: settled_def)
  have K: "K \<noteq> 0" using assms(3) by (auto simp: paging_root_def)
  have "bit (hd (walk (mem m s') K root v)) 63" if "st = EFI_SUCCESS"
  proof -
    have "mem m s' (slot root (index K v)) = pte"
      using ok that assms(7,8) K same unfolding remapped_def Let_def by auto
    moreover have "hd (walk (mem m s') K root v) = mem m s' (slot root (index K v))"
      using K by (cases K) (simp_all add: Let_def)
    ultimately show ?thesis using assms(10) by simp
  qed
  then show ?thesis using 1 by blast
qed

text \<open>The values written to CR0.\<close>

definition cr0_writes :: "history \<Rightarrow> u64 list" where
  "cr0_writes h = concat (map (\<lambda>(c, r). case c of WriteCr n v \<Rightarrow> if n = 0 then [v] else [] | _ \<Rightarrow> []) h)"

lemma cr0_writes_append [simp]: "cr0_writes (h @ k) = cr0_writes h @ cr0_writes k"
  by (simp add: cr0_writes_def)

lemma cr0_writes_none: "\<forall>c\<in>fst ` set h. \<forall>v. c \<noteq> WriteCr 0 v \<Longrightarrow> cr0_writes h = []"
  unfolding cr0_writes_def by (force split: call.splits)

text \<open>A run of the loop that fails does so at an allocation, and does nothing more.\<close>

definition denied :: "env \<Rightarrow> u64 \<Rightarrow> history \<Rightarrow> bool" where
  "denied e st h \<longleftrightarrow> st \<noteq> EFI_SUCCESS \<and>
     (\<exists>k t. h = k @ [(AllocatePages 1, e t (AllocatePages 1))] \<and> status (e t (AllocatePages 1)) = st)"

definition refused :: "env \<Rightarrow> (u64 + 'a) \<Rightarrow> history \<Rightarrow> bool" where
  "refused e r h \<longleftrightarrow> (\<forall>st. r = Inl st \<longrightarrow> denied e st h)"

lemma deniedI: "status (e t (AllocatePages 1)) \<noteq> EFI_SUCCESS \<Longrightarrow>
  denied e (status (e t (AllocatePages 1))) [(AllocatePages 1, e t (AllocatePages 1))]"
  unfolding denied_def by blast

lemma denied_append: "denied e st k \<Longrightarrow> denied e st (h @ k)"
  unfolding denied_def by (metis append_assoc)

lemma refused_append: "refused e r k \<Longrightarrow> refused e r (h @ k)"
  by (simp add: refused_def denied_append)

lemma refused_Inr [simp]: "refused e (Inr x) h"
  by (simp add: refused_def)

text \<open>The calls of the loop.\<close>

fun table_call :: "call \<Rightarrow> bool" where
  "table_call (OutputString x) = True"
| "table_call (ReadMem64 a) = True"
| "table_call (WriteMem64 a v) = True"
| "table_call (AllocatePages n) = True"
| "table_call (SetMem p n c) = True"
| "table_call c = False"

lemma talks_tables:
  "talks s table_call (write_entry e t j x)" "talks s table_call (read_entry e t j)"
  "accepts (fmt @ crlf) args \<Longrightarrow> talks s table_call (trace_line b e fmt args)"
  "talks s table_call (memset e p c n)"
  unfolding write_entry_def read_entry_def trace_line_def memset_def
  by (auto simp: printf_accepts intro!: talks_intros)

text \<open>A part that cannot fail, before one that can.\<close>

lemma speaks_before:
  assumes "talks s table_call m" and "\<And>a s'. speaks s' table_call (f a) (refused e)"
  shows "speaks s table_call (andthen m f) (refused e)"
  by (rule speaks_andthen [OF speaks_talks [OF assms(1), where P = "\<lambda>_ _. True"]])
     (auto intro: speaks_mono [OF assms(2)] refused_append)

lemma allocate_speaks:
  fixes s :: "'z world_scheme"
  shows "speaks s table_call (allocate_zeroed_page e) (\<lambda>(st, p) h. st \<noteq> EFI_SUCCESS \<longrightarrow>
     denied e st h)"
  unfolding allocate_zeroed_page_def
proof (rule speaks_call, goal_cases)
  case (2 t s1)
  have r: "andthen (return ()) f = f ()" for f :: "unit \<Rightarrow> (u64 \<times> u64, 'z world_scheme) prog"
    by (simp add: fun_eq_iff run_simps)
  show ?case
  proof (cases "status (e t (AllocatePages 1)) = EFI_SUCCESS")
    case True
    then show ?thesis by (auto intro!: speaks_say talks_intros talks_tables)
  next
    case False
    then show ?thesis using deniedI [of e t] by (simp add: r speaks_return del: One_nat_def)
  qed
qed simp

lemma new_table_refused: "speaks s table_call (new_table e cur i) (refused e)"
  unfolding new_table_def
proof (rule speaks_andthen [OF allocate_speaks], clarify)
  fix st p and h :: history and s' :: "'a world_scheme"
  assume h: "st \<noteq> EFI_SUCCESS \<longrightarrow> denied e st h"
  have "talks s' table_call (only_if c (let x = y in for_each l (\<lambda>j. write_entry e p (of_nat j) (f x j))))"
    for c y l f
    unfolding Let_def by (intro talks_only_if talks_for_each talks_tables)
  then show "speaks s' table_call (if st \<noteq> EFI_SUCCESS then return (Inl st)
      else andthen (only_if (cur AND PAGE_SIZE \<noteq> 0)
        (let cur_pte = (if i = PD then cur AND NOT PAGE_SIZE else cur); next_level_i = i + 1;
           next_level_start_bit = 12 + 9 * (PT - next_level_i);
           offset_to_add = push_bit next_level_start_bit 1
         in for_each [0..<0x200] (\<lambda>j. write_entry e p (of_nat j) (cur_pte + offset_to_add * of_nat j))))
        (\<lambda>_. return (Inr p))) (\<lambda>r k. refused e r (h @ k))"
    using h unfolding Let_def
    by (auto simp: refused_def intro!: speaks_return speaks_say)
qed

lemma remap_level_refused:
  fixes s :: "'z world_scheme"
  shows "speaks s table_call (remap_level b e v prot i t) (refused e)"
proof -
  have grant: "speaks s' table_call (andthen (only_if c (write_entry e t j x)) (\<lambda>_. return (Inr y))) (refused e)"
    for s' :: "'z world_scheme" and c j x y
    by (intro speaks_say talks_only_if talks_tables refused_Inr)
  have line: "talks s' table_call (trace_line b e ''0x%lx[0x%x] -> 0x%lx'' [VInt x, VInt y, VInt z])"
    for s' :: "'z world_scheme" and x y z
    by (rule talks_tables) simp
  show ?thesis unfolding remap_level_def Let_def
  proof (rule speaks_before [OF talks_tables(2)], rule speaks_before [OF line],
      rule speaks_andthen [where Q = "refused e"], goal_cases)
    case (1 cur s1 u s2)
    then show ?case
      by (auto intro!: speaks_andthen [OF new_table_refused] speaks_return speaks_say talks_tables
          split: sum.split)
  next
    case (2 cur s1 u s2 r h s3)
    then show ?case
      by (auto split: sum.split intro!: speaks_return speaks_mono [OF grant] intro: refused_append)
  qed
qed

lemma remap_levels_refused: "speaks s table_call (remap_levels b e v prot is t) (refused e)"
proof (induction "is" arbitrary: s t)
  case Nil
  then show ?case by (simp add: speaks_return)
next
  case (Cons i l)
  then show ?case
    by (auto intro!: speaks_andthen [OF remap_level_refused] speaks_return
        speaks_mono [OF Cons.IH] intro: refused_append split: sum.split)
qed

text \<open>A firmware that gives every table makes it succeed.\<close>

lemma remap_page_granted:
  fixes s :: "'z world_scheme"
  assumes "\<And>t. status (e t (AllocatePages 1)) = EFI_SUCCESS"
  shows "\<exists>s'. remap_page b e v p prot s = Done EFI_SUCCESS s'"
proof -
  have levels: "\<exists>t s'. remap_levels b e v (page_rights prot) l root s = Done (Inr t) s'"
    for l root and s :: "'z world_scheme"
  proof -
    obtain r h s' where "remap_levels b e v (page_rights prot) l root s = Done r s'" "refused e r h"
      using remap_levels_refused [of s b e v "page_rights prot" l root] unfolding speaks_def by blast
    then show ?thesis using assms by (cases r) (auto simp: refused_def denied_def)
  qed
  have leaf: "\<exists>s'. write_leaf b e v q t s = Done () s'" for q t and s :: "'z world_scheme"
    by (simp add: write_leaf_def trace_line_def write_entry_def read_entry_def Let_def run_simps)
  obtain t s5 where "remap_levels b e v (page_rights prot) [first_level e s..<PT]
      (val0 (e (trace s) (ReadCr 3)) AND NOT 0xfff) (emit e (ReadCr 4) (unprotected e s)) = Done (Inr t) s5"
    using levels by blast
  moreover obtain s6 where "write_leaf b e v (p OR page_rights prot) t s5 = Done () s6" using leaf by blast
  ultimately show ?thesis by (simp add: remap_page_start finish_run)
qed

lemma cr0_writes_tables: "\<forall>c\<in>fst ` set h. table_call c \<Longrightarrow> cr0_writes h = []"
  by (rule cr0_writes_none) auto

text \<open>The calls before the loop, and those after it.\<close>

lemma unprotected_calls:
  "\<exists>h r. emit e (ReadCr 4) (unprotected e s) = s\<lparr>trace := trace s @ h\<rparr> \<and> (ReadCr 0, r) \<in> set h \<and>
     val0 r = old_cr0 e s \<and> cr0_writes h = [val0 r AND NOT CR0_WP]"
  by (intro exI [of _ "[(ReadCr 3, e (trace s) (ReadCr 3)),
        (ReadCr 0, e (trace (emit e (ReadCr 3) s)) (ReadCr 0)),
        (WriteCr 0 (old_cr0 e s AND NOT CR0_WP),
         e (trace (emit e (ReadCr 0) (emit e (ReadCr 3) s))) (WriteCr 0 (old_cr0 e s AND NOT CR0_WP))),
        (ReadCr 4, e (trace (unprotected e s)) (ReadCr 4))]"]
      exI [of _ "e (trace (emit e (ReadCr 3) s)) (ReadCr 0)"])
    (simp add: unprotected_def old_cr0_def emit_def cr0_writes_def)

lemma finish_calls:
  fixes s :: "'z world_scheme"
  shows "\<exists>h. finish b e v pte cr0 t s = Done EFI_SUCCESS (s\<lparr>trace := trace s @ h\<rparr>) \<and> cr0_writes h = [cr0]"
proof -
  have "talks s table_call (write_leaf b e v pte t)"
    unfolding write_leaf_def Let_def by (intro talks_intros talks_tables) simp_all
  then obtain h where h: "write_leaf b e v pte t s = Done () (s\<lparr>trace := trace s @ h\<rparr>)"
    "\<forall>c\<in>fst ` set h. table_call c"
    by (rule talksE) simp
  let ?s6 = "s\<lparr>trace := trace s @ h\<rparr>"
  let ?c = "val0 (e (trace ?s6) (ReadCr 3))"
  let ?s8 = "emit e (WriteCr 3 ?c) (emit e (ReadCr 3) ?s6)"
  have "emit e (WriteCr 0 cr0) ?s8 = s\<lparr>trace := trace s @ h @ [(ReadCr 3, e (trace ?s6) (ReadCr 3)),
      (WriteCr 3 ?c, e (trace (emit e (ReadCr 3) ?s6)) (WriteCr 3 ?c)), (WriteCr 0 cr0, e (trace ?s8) (WriteCr 0 cr0))]\<rparr>"
    by (simp add: emit_def)
  then show ?thesis using finish_run [OF h(1), of cr0] cr0_writes_tables [OF h(2)]
    by (intro exI) (auto simp: cr0_writes_def)
qed

text \<open>C35: whatever memory and the firmware do, \<open>remap_page\<close> returns. On success CR0 has again the value
  read at the beginning. On failure it has not: the write protection of CR0 stays off. A failure
  is a refused allocation, whose status is returned at once.\<close>

theorem remap_page_cr0:
  fixes s :: "'z world_scheme"
  shows "\<exists>st h r. remap_page b e v p prot s = Done st (s\<lparr>trace := trace s @ h\<rparr>) \<and> (ReadCr 0, r) \<in> set h \<and>
    (if st = EFI_SUCCESS then cr0_writes h = [val0 r AND NOT CR0_WP, val0 r]
     else cr0_writes h = [val0 r AND NOT CR0_WP] \<and>
       (\<exists>k q. h = k @ [(AllocatePages 1, q)] \<and> status q = st))"
proof -
  obtain h4 r0 where h4: "emit e (ReadCr 4) (unprotected e s) = s\<lparr>trace := trace s @ h4\<rparr>" "(ReadCr 0, r0) \<in> set h4"
    "val0 r0 = old_cr0 e s" "cr0_writes h4 = [val0 r0 AND NOT CR0_WP]"
    using unprotected_calls [of e s] by blast
  let ?s4 = "s\<lparr>trace := trace s @ h4\<rparr>" and ?l = "[first_level e s..<PT]"
    and ?t = "val0 (e (trace s) (ReadCr 3)) AND NOT 0xfff"
  obtain r h5 where 5: "remap_levels b e v (page_rights prot) ?l ?t ?s4 = Done r (s\<lparr>trace := trace s @ h4 @ h5\<rparr>)"
    "\<forall>c\<in>fst ` set h5. table_call c" "refused e r h5"
    using remap_levels_refused [of ?s4 b e v "page_rights prot" ?l ?t] unfolding speaks_def spoke_def by auto
  let ?s5 = "s\<lparr>trace := trace s @ h4 @ h5\<rparr>"
  have start: "remap_page b e v p prot s =
      bind (Done r ?s5) (case_sum return (finish b e v (p OR page_rights prot) (val0 r0)))"
    unfolding remap_page_start h4(1,3) 5(1) ..
  show ?thesis
  proof (cases r)
    case (Inl st)
    then obtain k q where "h5 = k @ [(AllocatePages 1, q)]" "status q = st" "st \<noteq> EFI_SUCCESS"
      using 5(3) unfolding refused_def denied_def by blast
    then show ?thesis using start Inl h4(2,4) cr0_writes_tables [OF 5(2)]
      by (intro exI [of _ st] exI [of _ "h4 @ h5"] exI [of _ r0]) (auto simp: return_apply)
  next
    case (Inr t)
    obtain h6 where "finish b e v (p OR page_rights prot) (val0 r0) t ?s5 =
        Done EFI_SUCCESS (?s5\<lparr>trace := trace ?s5 @ h6\<rparr>)" "cr0_writes h6 = [val0 r0]"
      using finish_calls by blast
    then show ?thesis using start Inr h4(2,4) cr0_writes_tables [OF 5(2)]
      by (intro exI [of _ EFI_SUCCESS] exI [of _ "h4 @ h5 @ h6"] exI [of _ r0]) simp
  qed
qed

text \<open>Instances: an identity mapping of the first gigabyte by one large page, below an uppermost entry
  \<open>x\<close>, and a firmware that has four pages to give.\<close>

definition sample_tables :: "u64 \<Rightarrow> memory" where
  "sample_tables x = (\<lambda>_. 0)(slot 0x1000 0 := x, slot 0x2000 0 := 0x83)"

definition free_pages :: "history \<Rightarrow> u64 list" where
  "free_pages h = filter (\<lambda>p. p \<notin> granted h) [0x100000, 0x101000, 0x102000, 0x103000]"

definition sample_mmu :: "memory \<Rightarrow> env" where
  "sample_mmu m h c =
     \<lparr>status = (case c of AllocatePages n \<Rightarrow> if free_pages h = [] then 0x8000000000000009 else EFI_SUCCESS
               | _ \<Rightarrow> EFI_SUCCESS),
      val0 = (case c of
          AllocatePages n \<Rightarrow> if free_pages h = [] then 0 else hd (free_pages h)
        | ReadMem64 a \<Rightarrow> replay m h a
        | ReadCr n \<Rightarrow> if n = 3 then 0x1000 else 0
        | _ \<Rightarrow> 0),
      val1 = 0, val2 = 0, val3 = 0\<rparr>"

lemma sample_mmu_ok:
  "keeps_tables (sample_mmu m) m {0x1000, 0x2000}" "gives_fresh (sample_mmu m) {0x1000, 0x2000}"
  "paging_root (sample_mmu m) 0x1000 3"
proof -
  have "aligned p \<and> target p = p \<and> p \<noteq> 0x1000 \<and> p \<noteq> 0x2000 \<and> p \<notin> granted h"
    if "p \<in> set (free_pages h)" for p h
  proof -
    have "p \<notin> granted h" "p = 0x100000 \<or> p = 0x101000 \<or> p = 0x102000 \<or> p = 0x103000"
      using that unfolding free_pages_def set_filter by auto
    then show ?thesis by (auto simp: aligned_def target_def)
  qed
  from this [OF hd_in_set] show "gives_fresh (sample_mmu m) {0x1000, 0x2000}"
    by (simp add: gives_fresh_def sample_mmu_def Let_def EFI_SUCCESS_def)
  show "keeps_tables (sample_mmu m) m {0x1000, 0x2000}" "paging_root (sample_mmu m) 0x1000 3"
    by (simp_all add: keeps_tables_def paging_root_def sample_mmu_def CR4_LA57_def)
qed

lemma sample_slots:
  assumes "j < 512"
  shows "sample_tables x (slot 0x1000 j) = (if j = 0 then x else 0)"
    and "sample_tables x (slot 0x2000 j) = (if j = 0 then 0x83 else 0)"
  using assms by (simp_all add: sample_tables_def aligned_def)

lemma single_entry:
  assumes "aligned t" and m: "\<And>j. j < 512 \<Longrightarrow> m (slot t j) = (if j = 0 then x else 0)"
  shows "tables m (Suc k) t = insert t (if branch x then tables m k (target x) else {})"
    and "well_formed (Suc k) x \<Longrightarrow> (branch x \<Longrightarrow> tree m k (target x) \<and> t \<notin> tables m k (target x)) \<Longrightarrow>
      tree m (Suc k) t"
proof -
  have z: "\<not> branch 0" "well_formed k 0" for k
    by (simp_all add: branch_def present_def well_formed_def)
  have b: "j < 512 \<and> branch (m (slot t j)) \<longleftrightarrow> j = 0 \<and> branch x" for j
    using m [of j] z by (cases "j = 0") auto
  show "tables m (Suc k) t = insert t (if branch x then tables m k (target x) else {})"
    using m [of 0] unfolding tables.simps b by auto
  assume w: "well_formed (Suc k) x" "branch x \<Longrightarrow> tree m k (target x) \<and> t \<notin> tables m k (target x)"
  have "well_formed (Suc k) (m (slot t j))" if "j < 512" for j using m [OF that] w(1) z by simp
  moreover have "j = 0 \<and> branch x \<and> m (slot t j) = x" if "j < 512" "branch (m (slot t j))" for j
    using b [of j] that m [of 0] by auto
  ultimately show "tree m (Suc k) t" using assms(1) w(2) unfolding tree.simps by metis
qed

lemma sample_tree:
  assumes "branch x" and "well_formed 3 x" and "target x = 0x2000"
  shows "tree (sample_tables x) 3 0x1000" and "tables (sample_tables x) 3 0x1000 = {0x1000, 0x2000}"
proof -
  have e: "present 0x83" "large 0x83" "\<not> branch 0x83" "\<not> branch 0" "well_formed k 0"
    for k by (simp_all add: present_def large_def branch_def well_formed_def)
  have wf: "well_formed 2 0x83"
  proof -
    have "\<not> bit (0x83 :: u64) n" if "12 \<le> n" for n
    proof -
      have "(0x83 :: u64) = take_bit 12 0x83" by simp
      then show ?thesis using that by (metis bit_take_bit_iff not_less)
    qed
    then show ?thesis unfolding well_formed_def using e(3) by blast
  qed
  have a: "aligned 0x1000" "aligned 0x2000" by (simp_all add: aligned_def)
  note one = single_entry [where m = "sample_tables x" and x = x, OF a(1) sample_slots(1)]
    and two = single_entry [where m = "sample_tables x" and x = "0x83", OF a(2) sample_slots(2)]
  have "tables (sample_tables x) (Suc 1) 0x2000 = {0x2000}" "tree (sample_tables x) (Suc 1) 0x2000"
    using two [where k = 1] e(3) wf by (simp_all add: numeral_2_eq_2)
  then have t2: "tables (sample_tables x) 2 0x2000 = {0x2000}" "tree (sample_tables x) 2 0x2000"
    by (simp_all only: Suc_1)
  have "tables (sample_tables x) (Suc 2) 0x1000 = {0x1000, 0x2000}" "tree (sample_tables x) (Suc 2) 0x1000"
    using one [where k = 2] assms t2 by (simp_all add: numeral_3_eq_3)
  then show "tree (sample_tables x) 3 0x1000" "tables (sample_tables x) 3 0x1000 = {0x1000, 0x2000}"
    by simp_all
qed

lemma sample_entry: "branch 0x2003" "well_formed 3 0x2003" "target 0x2003 = 0x2000"
proof -
  show x: "branch 0x2003" "target 0x2003 = 0x2000" by (simp_all add: branch_def present_def large_def target_def)
  have "\<not> bit (0x2003 :: u64) n" if "52 \<le> n" for n
  proof -
    have "(0x2003 :: u64) = take_bit 52 0x2003" by simp
    then show ?thesis using that by (metis bit_take_bit_iff not_less)
  qed
  then show "well_formed 3 0x2003" using x(1) unfolding well_formed_def branch_def by blast
qed

lemma sample_success:
  assumes "status (sample_mmu m t (AllocatePages 1)) \<noteq> EFI_SUCCESS" and "granted t = {} \<union> G"
    and "finite G" and "card G < 3"
  shows False
proof -
  have "set [0x100000, 0x101000, 0x102000, 0x103000 :: u64] \<subseteq> G"
  proof -
    have "free_pages t = []" using assms(1) by (simp add: sample_mmu_def EFI_SUCCESS_def split: if_splits)
    then have "\<forall>p\<in>set [0x100000, 0x101000, 0x102000, 0x103000]. p \<in> granted t"
      unfolding free_pages_def filter_empty_conv by simp
    then show ?thesis using assms(2) by auto
  qed
  then have "card (set [0x100000, 0x101000, 0x102000, 0x103000 :: u64]) \<le> card G"
    using assms(3) by (rule card_mono [rotated])
  then show False using assms(4) by simp
qed

lemma same_page_3:
  "same_page 3 v w \<longleftrightarrow> index 3 v = index 3 w \<and> index 2 v = index 2 w \<and> index 1 v = index 1 w \<and>
     index 0 v = index 0 w"
proof -
  have "same_page 0 v w \<longleftrightarrow> index 0 v = index 0 w" by (simp add: same_page_def)
  then show ?thesis unfolding numeral_3_eq_3 numeral_2_eq_2 One_nat_def same_page_Suc by blast
qed

theorem remap_page_maps_witness:
  "\<exists>s'. remap_page (makefile_build Mode64) (sample_mmu (sample_tables 0x2003)) 0x5000 0x9000
       (PROT_READ OR PROT_WRITE) \<lparr>trace = []\<rparr> = Done EFI_SUCCESS s' \<and>
     translate (mem (sample_tables 0x2003) s') 3 0x1000 0x5123 = Some 0x9123 \<and>
     translate (mem (sample_tables 0x2003) s') 3 0x1000 0x7abc = Some 0x7abc"
proof -
  let ?m = "sample_tables 0x2003" and ?s = "\<lparr>trace = []\<rparr>"
  note x = sample_entry and t = sample_tree [OF sample_entry]
  have m: "mem ?m ?s = ?m" "granted (trace ?s) = {}" by (simp_all add: mem_def granted_def)
  have start: "tree (mem ?m ?s) 3 0x1000" "tables (mem ?m ?s) 3 0x1000 \<subseteq> {0x1000, 0x2000} \<union> granted (trace ?s)"
    unfolding m t(2) using t(1) by simp_all
  have p: "aligned 0x9000" "target 0x9000 = 0x9000" by (simp_all add: aligned_def target_def)
  have same: "same_page 3 0x5000 0x5123" "\<not> same_page 3 0x5000 0x7abc"
    unfolding same_page_3 by (simp_all add: index_def span_def)
  have i: "index (Suc (Suc 1)) 0x7abc = 0" "index (Suc 1) 0x7abc = 0"
    "page_address (Suc 1) 0x83 0x7abc = 0x7abc"
    by (simp_all add: index_def span_def page_address_def target_def mask_eq_exp_minus_1)
  have e: "present 0x83" "large 0x83" "present 0x2003" "\<not> large 0x2003"
    by (simp_all add: present_def large_def)
  have "translate ?m (Suc (Suc 1)) 0x1000 0x7abc = Some 0x7abc"
    unfolding translate.simps(2) i using x(3) e i(3) sample_slots [of 0 "0x2003"] by simp
  then have "translate ?m 3 0x1000 0x7abc = Some 0x7abc" by (simp only: numeral_3_eq_3 One_nat_def)
  note old = this
  from remap_page_maps [OF sample_mmu_ok start p, where b = "makefile_build Mode64" and v = "0x5000" and prot = "PROT_READ OR PROT_WRITE"]
  show ?thesis
  proof (elim exE conjE, goal_cases)
    case (1 st s')
    have st: "st = EFI_SUCCESS" using 1(4) sample_success unfolding m(2) by blast
    with 1(3) have "translate (mem ?m s') 3 0x1000 w = (if same_page 3 0x5000 w then Some (0x9000 OR (w AND 0xfff))
        else translate (mem ?m ?s) 3 0x1000 w)" for w by simp
    from this [of "0x5123"] this [of "0x7abc"] show ?case using 1(1) st same old unfolding m(1) by simp
  qed
qed

text \<open>With the NX flag in the uppermost entry, the page mapped for execution in user mode is not
  executable.\<close>

theorem remap_page_keeps_nx_witness:
  "\<exists>st s'. remap_page (makefile_build Mode64) (sample_mmu (sample_tables 0x8000000000002007)) 0x5000 0x9000
       (PROT_EXEC OR PROT_USER) \<lparr>trace = []\<rparr> = Done st s' \<and>
     (st = EFI_SUCCESS \<longrightarrow> bit (hd (walk (mem (sample_tables 0x8000000000002007) s') 3 0x1000 0x5000)) 63)"
proof -
  let ?x = "0x8000000000002007" let ?m = "sample_tables ?x" and ?s = "\<lparr>trace = []\<rparr>"
  have x: "branch ?x" "target ?x = 0x2000" by (simp_all add: branch_def present_def large_def target_def)
  have "\<not> bit (?x :: u64) n" if "52 \<le> n" "n < 63" for n
  proof -
    have "(?x :: u64) = PAGE_NOEXECUTE OR take_bit 52 0x2007" by (simp add: PAGE_NOEXECUTE_def)
    then show ?thesis using that by (metis bit_flags(5) bit_or_iff bit_take_bit_iff nat_neq_iff not_less)
  qed
  then have "well_formed 3 ?x" using x(1) unfolding well_formed_def branch_def by blast
  note t = sample_tree [OF x(1) this x(2)]
  have m: "mem ?m ?s = ?m" "granted (trace ?s) = {}" by (simp_all add: mem_def granted_def)
  have start: "tree (mem ?m ?s) 3 0x1000" "tables (mem ?m ?s) 3 0x1000 \<subseteq> {0x1000, 0x2000} \<union> granted (trace ?s)"
    unfolding m t(2) using t(1) by simp_all
  have "index 3 0x5000 = 0" by (simp add: index_def span_def)
  then have pte: "?x = mem ?m ?s (slot 0x1000 (index 3 0x5000))" unfolding m(1) by (simp add: sample_slots)
  have r: "(PROT_EXEC OR PROT_USER) AND PROT_EXEC \<noteq> 0" by (simp add: PROT_EXEC_def PROT_USER_def)
  have g: "?x AND page_rights (PROT_EXEC OR PROT_USER) = page_rights (PROT_EXEC OR PROT_USER)"
    by (simp add: page_rights_def PROT_EXEC_def PROT_USER_def PROT_WRITE_def PAGE_PRESENT_def PAGE_USER_def)
  have nx: "bit (?x :: u64) 63" by simp
  show ?thesis by (rule remap_page_keeps_nx [OF sample_mmu_ok start r pte x(1) g nx])
qed

end
