(* ===== verification/Startup.thy ===== *)
theory Startup
  imports Session System_Tables Save_Open Remap_Page
begin

text \<open>
  \<open>efi_main\<close> (\<open>src/main.c\<close>): everything from the firmware's call to the first \<open>ud2\<close>. The blocks of the
  function are definitions of their own, in the order of the code. Its properties: it never runs into
  undefined behaviour when the file can be opened, and the state in which it gives the CPU away is the
  start of a session of theory \<open>Machine\<close>; and the page of the instruction is mapped twice.
\<close>

section \<open>The function\<close>

definition MSR_IA32_MCG_CTL :: u32 where "MSR_IA32_MCG_CTL = 0x17b"
definition MSR_IA32_EFER :: u32 where "MSR_IA32_EFER = 0xc0000080"
definition EFER_NXE :: u64 where "EFER_NXE = push_bit 11 1"
definition KERNEL_STACK_PAGES :: nat where "KERNEL_STACK_PAGES = 2"
definition CR4_MCE :: u64 where "CR4_MCE = push_bit 6 1"
definition CPUID_01_EDX_MCE :: u32 where "CPUID_01_EDX_MCE = push_bit 7 1"
definition CPUID_01_EDX_MCA :: u32 where "CPUID_01_EDX_MCA = push_bit 14 1"
definition MCG_CAP_MCG_CTL_P :: u64 where "MCG_CAP_MCG_CTL_P = push_bit 8 1"
definition MSR_IA32_MC0_CTL :: u32 where "MSR_IA32_MC0_CTL = 0x400"
definition CR4_OSFXSR :: u64 where "CR4_OSFXSR = push_bit 9 1"
definition CR4_OSXMMEXCPT :: u64 where "CR4_OSXMMEXCPT = push_bit 10 1"
definition CR4_OSXSAVE :: u64 where "CR4_OSXSAVE = push_bit 18 1"

text \<open>Machine checks: the banks are enabled and cleared, if the CPU has them. The result is the value
  for CR4.\<close>

definition enable_machine_checks :: "env \<Rightarrow> u64 \<Rightarrow> (u64, 'z world_scheme) prog" where
  "enable_machine_checks e cr4 =
     andthen (ext e (Cpuid 1)) (\<lambda>r.
     let edx = ucast (val3 r) :: u32 in
     if edx AND CPUID_01_EDX_MCE \<noteq> 0 then
       andthen (only_if (edx AND CPUID_01_EDX_MCA \<noteq> 0)
         (andthen (rdmsr e MSR_IA32_MCG_CAP) (\<lambda>mcg_cap.
          andthen (only_if (mcg_cap AND MCG_CAP_MCG_CTL_P \<noteq> 0)
            (wrmsr e MSR_IA32_MCG_CTL (NOT 0))) (\<lambda>_.
          for_each [0..<unat (mcg_cap AND MCG_CAP_REPORTING_BANKS_COUNT_MASK)] (\<lambda>i.
            andthen (wrmsr e (MSR_IA32_MC0_CTL + of_nat i * 4) (NOT 0)) (\<lambda>_.
            wrmsr e (MSR_IA32_MC0_STATUS + of_nat i * 4) 0)))))) (\<lambda>_.
       return (cr4 OR CR4_MCE))
     else return cr4)"

text \<open>The extended state: all of it is enabled, and an area that resets it is set up.\<close>

definition setup_xsave :: "env \<Rightarrow> (unit, 'z boot_state_scheme) prog" where
  "setup_xsave e =
     andthen (ext e (Cpuid 0xd)) (\<lambda>r.
     let xcr0_lower = ucast (val0 r) :: u32; xcr0_upper = ucast (val3 r) :: u32;
         supported_features_size = ucast (val2 r) :: u32;
         size' = ucast (supported_features_size + 0x40) in
     andthen (extu e (Xsetbv xcr0_lower xcr0_upper 0)) (\<lambda>_.
     andthen (ext e (AllocatePool size')) (\<lambda>r.
     if status r \<noteq> EFI_SUCCESS then
       andthen (printf e (''Could not allocate memory for XSAVE state area, status = 0x%lx'' @ crlf)
                  [VInt (status r)]) (\<lambda>_. halt e)
     else
     andthen (modify (\<lambda>s. s\<lparr>xsave_state_area_allocated_ptr := val0 r\<rparr>)) (\<lambda>_.
     andthen (extu e (SetMem (val0 r) size' 0)) (\<lambda>_.
     andthen (modify (\<lambda>s. s\<lparr>xsave_state_area_ptr :=
         (xsave_state_area_allocated_ptr s + 0x40 - 1) AND NOT 0x3f\<rparr>)) (\<lambda>_.
     andthen (fetch xsave_state_area_ptr) (\<lambda>area.
     extu e (Xrstor area))))))))"

text \<open>The two mappings of the page that holds the instruction: one to write it, one to run it.\<close>

definition map_user_page :: "build \<Rightarrow> env \<Rightarrow> (unit, 'z boot_state_scheme) prog" where
  "map_user_page b e =
     andthen (fetch user_code_page_rw) (\<lambda>page_rw.
     andthen (printf e (''User code page @ 0x%lx, remapping as user-accessible'' @ crlf) [VInt page_rw]) (\<lambda>_.
     andthen (remap_page b e page_rw page_rw (PROT_READ OR PROT_WRITE)) (\<lambda>st.
     if st \<noteq> EFI_SUCCESS then
       andthen (printf e (''Could not remap the read-write version of the user code page, status = 0x%lx'' @ crlf)
                  [VInt st]) (\<lambda>_. halt e)
     else
     andthen (modify (\<lambda>s. s\<lparr>user_code_page_for_exec := user_code_page_rw s + 0x1000\<rparr>)) (\<lambda>_.
     andthen (fetch user_code_page_for_exec) (\<lambda>page_for_exec.
     andthen (remap_page b e page_for_exec page_rw (PROT_READ OR PROT_EXEC OR PROT_USER)) (\<lambda>st.
     only_if (st \<noteq> EFI_SUCCESS)
       (andthen (printf e (''Could not remap the exec-only version of the user code page, status = 0x%lx'' @ crlf)
                   [VInt st]) (\<lambda>_. halt e))))))))"

text \<open>From the open file to the first instruction.\<close>

definition start_running :: "build \<Rightarrow> image \<Rightarrow> env \<Rightarrow> ('a, 'z boot_state_scheme) prog" where
  "start_running b img e =
     andthen (extu e Cli) (\<lambda>_.
     andthen (write_cr8 e 0xf) (\<lambda>_.
     andthen (map_user_page b e) (\<lambda>_.
     andthen (setup_gdt img e) (\<lambda>_.
     andthen (load_segments e 0x8 0x10 0x28) (\<lambda>_.
     andthen (setup_idt img e) (\<lambda>_.
     andthen (rdmsr e MSR_IA32_EFER) (\<lambda>efer.
     andthen (wrmsr e MSR_IA32_EFER (efer OR EFER_NXE)) (\<lambda>_.
     execute_ud b e))))))))"

text \<open>The pages for the kernel stack and the instruction; \<open>Some\<close> is the status returned early.\<close>

definition allocate_pages :: "env \<Rightarrow> (u64 option, 'z boot_state_scheme) prog" where
  "allocate_pages e =
     andthen (ext e (AllocatePages KERNEL_STACK_PAGES)) (\<lambda>r.
     if status r \<noteq> EFI_SUCCESS then
       andthen (printf e (''Could not allocate memory for kernel stack, status = 0x%lx'' @ crlf)
                  [VInt (status r)]) (\<lambda>_. return (Some (status r)))
     else
     let kernel_stack_pages = val0 r in
     andthen (set_tss_rsp0 (kernel_stack_pages + 0x1000 * of_nat KERNEL_STACK_PAGES)) (\<lambda>_.
     andthen (ext e (AllocatePages 2)) (\<lambda>r.
     if status r \<noteq> EFI_SUCCESS then
       andthen (printf e (''Could not allocate pages for user code, status = 0x%lx'' @ crlf)
                  [VInt (status r)]) (\<lambda>_.
       andthen (extu e (FreePages kernel_stack_pages 2)) (\<lambda>_. return (Some (status r))))
     else
     andthen (modify (\<lambda>s. s\<lparr>user_code_page_rw := val0 r\<rparr>)) (\<lambda>_.
     andthen (extu e (SetMem (val0 r) (2 * 0x1000) 0)) (\<lambda>_.
     return None)))))"

text \<open>From the allocated pages to the first instruction: the control registers, the extended state and the
  file.\<close>

definition prepare_cpu :: "build \<Rightarrow> image \<Rightarrow> env \<Rightarrow> u64 \<Rightarrow> ('a, 'z boot_state_scheme) prog" where
  "prepare_cpu b img e image_handle =
     andthen (read_cr4 e) (\<lambda>cr4.
     andthen (enable_machine_checks e (cr4 OR CR4_OSXSAVE OR CR4_OSXMMEXCPT OR CR4_OSFXSR)) (\<lambda>cr4.
     andthen (write_cr4 e cr4) (\<lambda>_.
     andthen (setup_xsave e) (\<lambda>_.
     andthen (open_save_file b e image_handle) (\<lambda>st.
     if st \<noteq> EFI_SUCCESS then
       andthen (printf e (''Could not open an output file, status = 0x%lx'' @ crlf) [VInt st]) (\<lambda>_. halt e)
     else start_running b img e)))))"

text \<open>The whole function. \<open>None\<close> is running out of the fuel of \<open>print_init\<close>.\<close>

definition efi_main ::
  "nat \<Rightarrow> build \<Rightarrow> image \<Rightarrow> env \<Rightarrow> u64 \<Rightarrow> (u64 option, 'z boot_state_scheme) prog" where
  "efi_main fuel b img e image_handle =
     andthen (print_init fuel e) (\<lambda>initialised.
     if initialised = None then return None
     else
     andthen (get_uarch_config_for_cpu b e) (\<lambda>config. case config of
       None \<Rightarrow>
         andthen (print e (wide (''Could not get microarchitecture config for this CPU (Unsupported microarchitecture?)'' @
                    crlf))) (\<lambda>_. return (Some EFI_UNSUPPORTED))
     | Some config \<Rightarrow>
     andthen (disasm_init e (uarch_xed_chip config)) (\<lambda>_.
     andthen (init_perf_counters b e (Some (uarch_perf_counters config))) (\<lambda>st.
     if st \<noteq> EFI_SUCCESS then return (Some st)
     else
     andthen (dump_bruteforce_config b e) (\<lambda>_.
     andthen (allocate_pages e) (\<lambda>failed. case failed of
       Some st \<Rightarrow> return (Some st)
     | None \<Rightarrow>
     prepare_cpu b img e image_handle))))))"

section \<open>What the start-up keeps\<close>

text \<open>The variables of the execution loop have their initial values, and nothing was written.\<close>

definition booting :: "build \<Rightarrow> env \<Rightarrow> 'z loop_state_scheme \<Rightarrow> bool" where
  "booting b e s \<longleftrightarrow> honest e s \<and> written (trace s) = [] \<and> search_of s = search_start \<and>
     \<not> malformed_instruction_expect_ud s \<and> measuring_ud s \<and> \<not> measuring_nop s \<and>
     instructions_saved (counts s) = 0 \<and>
     ud_perf_counters_values s = replicate (PERF_EVENTS_COUNT b) 0 \<and>
     length (nop_perf_counters_values s) = PERF_EVENTS_COUNT b \<and>
     length (last_perf_counters_values s) = PERF_EVENTS_COUNT b"

text \<open>The same with the counters chosen, and with the file open, too.\<close>

definition counting :: "build \<Rightarrow> env \<Rightarrow> 'z loop_state_scheme \<Rightarrow> bool" where
  "counting b e s \<longleftrightarrow> booting b e s \<and> counters_known b s"

definition saving :: "build \<Rightarrow> env \<Rightarrow> 'z loop_state_scheme \<Rightarrow> bool" where
  "saving b e s \<longleftrightarrow> counting b e s \<and> output_file s \<noteq> 0"

lemma booting_initial: "booting b e (initial_state b)"
  by (simp add: booting_def initial_state_def no_stats_def search_of_def search_start_def)

lemma saving_boot_ok: "\<not> no_save b \<Longrightarrow> saving b e s \<Longrightarrow> boot_ok b e s"
  using search_start_ok [of "cpu_mode b"]
  by (simp add: saving_def counting_def booting_def boot_ok_def loop_ok_def can_save_def)

text \<open>\<open>steady h P m\<close>: from a state with \<open>P\<close>, \<open>m\<close> returns in such a state, or halts, if \<open>h\<close>.\<close>

definition steady :: "bool \<Rightarrow> ('s \<Rightarrow> bool) \<Rightarrow> ('a, 's) prog \<Rightarrow> bool" where
  "steady h P m \<longleftrightarrow> (\<forall>s. P s \<longrightarrow> ends (m s) (\<lambda>_. P) (\<lambda>_. False) (\<lambda>_. h))"

named_theorems steady_intros \<open>closure of \<open>steady\<close>\<close>

lemma steadyD: "steady h P m \<Longrightarrow> P s \<Longrightarrow> (\<And>a s'. P s' \<Longrightarrow> D a s') \<Longrightarrow> (\<And>s'. h \<Longrightarrow> H s') \<Longrightarrow> ends (m s) D U H"
  unfolding steady_def by (cases "m s") force+

lemma steady_andthen [steady_intros]:
  "steady h P m \<Longrightarrow> (\<And>a. steady h P (f a)) \<Longrightarrow> steady h P (andthen m f)"
  unfolding steady_def ends_andthen by (blast intro: ends_mono)

lemma steady_simple [steady_intros]:
  "steady h P (return a)" "steady h P (fetch g)"
  by (simp_all add: steady_def run_simps)

lemma steady_if [steady_intros]:
  "(c \<Longrightarrow> steady h P m) \<Longrightarrow> (\<not> c \<Longrightarrow> steady h P n) \<Longrightarrow> steady h P (if c then m else n)"
  by simp

lemma steady_only_if [steady_intros]: "(c \<Longrightarrow> steady h P m) \<Longrightarrow> steady h P (only_if c m)"
  by (simp add: steady_def run_simps)

lemma steady_for_each:
  "(\<And>i. i \<in> set xs \<Longrightarrow> steady h P (f i)) \<Longrightarrow> steady h P (for_each xs f)"
  by (induction xs) (simp_all add: steady_intros)

lemma steady_modify: "(\<And>s. P s \<Longrightarrow> P (f s)) \<Longrightarrow> steady h P (modify f)"
  by (simp add: steady_def run_simps)

text \<open>The interface between the stages of the start-up and its parts: a stage \<open>P\<close> allows any quiet call,
  and so the parts that only call keep every stage.\<close>

locale boot_stage =
  fixes e :: env and P :: "'z loop_state_scheme \<Rightarrow> bool"
  assumes emits: "P s \<Longrightarrow> quiet c \<Longrightarrow> P (emit e c s)"
begin

lemma ext: "quiet c \<Longrightarrow> steady h P (ext e c)" "quiet c \<Longrightarrow> steady h P (extu e c)"
  by (simp_all add: steady_def emits run_simps)

text \<open>A call, and how to go on with its answer.\<close>

lemma call: "quiet c \<Longrightarrow> (\<And>t. steady h P (f (e t c))) \<Longrightarrow> steady h P (andthen (ext e c) f)"
  by (simp add: steady_def emits run_simps)

lemma calls:
  "steady h P (print e str)" "accepts fmt args \<Longrightarrow> steady h P (printf e fmt args)"
  "steady h P (wrmsr e msr v)"
  "steady h P (rdmsr e msr)" "steady h P (memset e p c n)" "steady h P (read_cr e i)"
  "steady h P (write_cr e i v)"
  unfolding print_def wrmsr_def rdmsr_def memset_def read_cr_def write_cr_def
  using ext by (auto simp: printf_accepts intro!: steady_intros)

lemma stop: "h \<Longrightarrow> accepts fmt args \<Longrightarrow> steady h P (andthen (printf e fmt args) (\<lambda>_. halt e))"
  by (simp add: steady_def halt_def run_simps)

lemma initialised: "steady h P (print_init fuel e)"
proof -
  have "steady h P (query_modes fuel e k m w)" for k m w
  proof (induction fuel arbitrary: k m w)
    case 0
    then show ?case by (simp add: steady_intros)
  next
    case (Suc fuel)
    show ?case unfolding query_modes.simps Let_def by (intro steady_intros ext calls Suc) simp_all
  qed
  then show ?thesis unfolding print_init_def
    by (auto intro!: steady_intros calls ext split: option.split)
qed

lemma machine_checks: "steady h P (enable_machine_checks e cr4)"
  unfolding enable_machine_checks_def Let_def by (intro steady_intros steady_for_each ext calls) simp_all

lemma remapped: "steady h P (remap_page b e v p prot)"
proof -
  have e: "steady h P (read_entry e t i)" "steady h P (write_entry e t i x)"
      "accepts (fmt @ crlf) args \<Longrightarrow> steady h P (trace_line b e fmt args)"
    for t i x fmt args
    unfolding read_entry_def write_entry_def trace_line_def using ext calls by (auto intro!: steady_intros)
  have z: "steady h P (allocate_zeroed_page e)" unfolding allocate_zeroed_page_def
    by (intro steady_intros ext calls) simp
  have n: "steady h P (new_table e cur i)" for cur i unfolding new_table_def Let_def
    by (intro steady_andthen [OF z]) (auto intro!: steady_intros steady_for_each e)
  have l: "steady h P (remap_level b e v q i t)" for q i t unfolding remap_level_def Let_def
    by (intro steady_andthen e) (auto intro!: steady_intros e n split: sum.split)
  have ls: "steady h P (remap_levels b e v q is t)" for q "is" t
    by (induction "is" arbitrary: t) (auto intro!: steady_intros l split: sum.split)
  show ?thesis unfolding remap_page_def write_leaf_def Let_def cr_defs
    by (intro steady_andthen ext steady_simple ls) (auto intro!: steady_intros e ext split: sum.split)
qed

end

lemma booting_emit: "booting b e s \<Longrightarrow> quiet c \<Longrightarrow> booting b e (emit e c s)"
  using written_quiet [of "[(c, e (trace s) c)]"]
  by (simp add: booting_def) (simp add: emit_def search_of_def)

interpretation booting: boot_stage e "booting b e" for b e
  by unfold_locales (rule booting_emit)

interpretation counting: boot_stage e "counting b e" for b e
  by unfold_locales (auto simp: counting_def booting_emit, simp add: emit_def)

interpretation saving: boot_stage e "saving b e" for b e
  by unfold_locales (auto simp: saving_def counting.emits, simp add: emit_def)

text \<open>No variable of the stages but those of the boot state changes.\<close>

lemmas stage_defs = saving_def counting_def booting_def counters_known_def search_of_def

lemma steady_allocate_pages: "steady h (counting b e) (allocate_pages e)"
  unfolding allocate_pages_def Let_def set_tss_rsp0_def
  by (intro steady_intros counting.ext counting.calls steady_modify)
     (simp_all add: stage_defs)

text \<open>A firmware that gives memory whenever it is asked.\<close>

definition grants_memory :: "env \<Rightarrow> bool" where
  "grants_memory e \<longleftrightarrow> (\<forall>h n m. status (e h (AllocatePages n)) = EFI_SUCCESS \<and>
     status (e h (AllocatePool m)) = EFI_SUCCESS)"

lemma steady_setup_xsave: "h \<or> grants_memory e \<Longrightarrow> steady h (counting b e) (setup_xsave e)"
  unfolding setup_xsave_def Let_def
  by (intro counting.stop counting.call steady_intros counting.ext
      counting.calls steady_modify)
     (auto simp: grants_memory_def stage_defs)

text \<open>How to go on after a part.\<close>

lemma ends_seq:
  assumes "ends (m s) Q (\<lambda>_. False) (\<lambda>_. h)" and "\<And>a s'. Q a s' \<Longrightarrow> ends (f a s') D U (\<lambda>_. h)"
  shows "ends (andthen m f s) D U (\<lambda>_. h)"
  unfolding ends_andthen by (rule ends_mono [OF assms(1)]) (simp_all add: assms(2))

lemma ends_steady:
  assumes "steady h P m" and "P s" and "\<And>a s'. P s' \<Longrightarrow> ends (f a s') D U (\<lambda>_. h)"
  shows "ends (andthen m f s) D U (\<lambda>_. h)"
  unfolding ends_andthen by (rule steadyD [OF assms(1,2)]) (simp_all add: assms(3))

lemma steady_remapped:
  fixes m :: "(unit, 'z boot_state_scheme) prog"
  assumes "h \<or> grants_memory e" and "steady h (saving b e) m" and "\<And>st. accepts fmt [VInt st]"
  shows "steady h (saving b e) (andthen (remap_page b e v p prot) (\<lambda>st.
    if st \<noteq> EFI_SUCCESS then andthen (printf e fmt [VInt st]) (\<lambda>_. halt e) else m))"
proof (cases h)
  case True
  then show ?thesis
    by (intro steady_andthen saving.remapped steady_if saving.stop assms(2,3))
next
  case False
  have m: "ends (m s) (\<lambda>_. saving b e) (\<lambda>_. False) (\<lambda>_. h)" if "saving b e s" for s
    using assms(2) that by (simp add: steady_def)
  have p: "ends (remap_page b e v p prot s) (\<lambda>st s'. st = EFI_SUCCESS \<and> saving b e s') (\<lambda>_. False) (\<lambda>_. h)"
    if "saving b e s" for s :: "'z boot_state_scheme"
  proof -
    obtain s' where "remap_page b e v p prot s = Done EFI_SUCCESS s'"
      using remap_page_granted [of e b v p prot s] assms(1) False by (auto simp: grants_memory_def)
    moreover have "ends (remap_page b e v p prot s) (\<lambda>_. saving b e) (\<lambda>_. False) (\<lambda>_. h)"
      by (rule steadyD [OF saving.remapped that]) simp_all
    ultimately show ?thesis by simp
  qed
  show ?thesis unfolding steady_def
    by (intro allI impI, rule ends_seq [OF p]) (auto simp: m)
qed

lemma steady_map_user_page: "h \<or> grants_memory e \<Longrightarrow> steady h (saving b e) (map_user_page b e)"
proof -
  assume h: "h \<or> grants_memory e"
  have o: "only_if c m = (if c then m else return ())" for c and m :: "(unit, 'a boot_state_scheme) prog"
    by (simp add: only_if_def)
  show ?thesis unfolding map_user_page_def o
    by (intro steady_remapped [OF h] steady_intros saving.calls steady_modify)
       (simp_all add: stage_defs)
qed

lemma steady_tables:
  "steady h (saving b e) (setup_gdt img e)" "steady h (saving b e) (setup_idt img e)"
  "steady h (saving b e) (load_segments e cs ss ts)"
  unfolding setup_gdt_def setup_idt_def load_segments_def
  by (intro steady_intros steady_for_each saving.ext steady_modify;
      simp add: stage_defs)+

text \<open>How \<open>execute_ud\<close> ends does not depend on the type of the value it would return.\<close>

lemma execute_ud_retype:
  "(execute_ud b e s :: ('a, 'z loop_state_scheme) run) = User s' \<Longrightarrow>
   (execute_ud b e s :: ('b, 'z loop_state_scheme) run) = User s'"
  by (cases "for_each [0..<PERF_EVENTS_COUNT b] (\<lambda>i. wrmsr e (MSR_IA32_PMC i) 0)
        (final (wrmsr e MSR_IA32_PERF_GLOBAL_CTRL 0 s))")
     (auto simp: execute_ud_def execute_instruction_def enter_user_def run_simps wrmsr_def memcpy_def Let_def)

lemma ends_start_running:
  fixes s :: "'z boot_state_scheme"
  assumes "\<not> no_save b" and "saving b e s" and "h \<or> grants_memory e"
  shows "ends (start_running b img e s :: ('a, 'z boot_state_scheme) run) (\<lambda>_ _. False) (session b e) (\<lambda>_. h)"
proof -
  have run: "ends (execute_ud b e s :: ('a, 'z boot_state_scheme) run) (\<lambda>_ _. False) (session b e) (\<lambda>_. h)"
    if "saving b e s" for s :: "'z boot_state_scheme"
  proof -
    obtain s' where s': "(execute_ud b e s :: ('a, 'z boot_state_scheme) run) = User s'"
      using execute_instruction_extends [of b e "[0x0f, 0x0b]" 2 s] unfolding execute_ud_def by auto
    then show ?thesis using session.boot [OF saving_boot_ok [OF assms(1) that] execute_ud_retype [OF s']] by simp
  qed
  show ?thesis unfolding start_running_def write_cr8_def
    by (rule ends_steady [where P = "saving b e"] saving.ext saving.calls
        steady_map_user_page [OF assms(3)] steady_tables run assms(2) quiet.simps filing.simps TrueI | simp)+
qed

lemma steady_counter_info:
  fixes f :: "perf_counter_info \<Rightarrow> ('a, 'z loop_state_scheme) prog"
  assumes "i < PERF_EVENTS_COUNT b" and "\<And>info. steady h (counting b e) (f info)"
  shows "steady h (counting b e) (counter_info i f)"
  unfolding steady_def
proof (intro allI impI)
  fix s :: "'z loop_state_scheme"
  assume s: "counting b e s"
  then obtain infos where "perf_counters s = Some infos" "length infos = PERF_EVENTS_COUNT b"
    by (auto simp: counting_def counters_known_def)
  then have "counter_info i f s = f (infos ! i) s" using assms(1) by (simp add: counter_info_def run_simps)
  then show "ends (counter_info i f s) (\<lambda>_. counting b e) (\<lambda>_. False) (\<lambda>_. h)"
    using assms(2) [of "infos ! i"] s by (simp add: steady_def)
qed

lemma steady_dump_config: "steady h (counting b e) (dump_bruteforce_config b e)"
  unfolding dump_bruteforce_config_def
  by (intro steady_intros steady_for_each steady_counter_info counting.calls) simp_all

lemma steady_start_counters: "steady h (counting b e) (start_counters b e)"
  unfolding start_counters_def Let_def
  by (intro steady_intros steady_for_each counting.ext counting.calls
      steady_counter_info steady_modify) (simp_all add: stage_defs)

definition enough_counters :: "build \<Rightarrow> env \<Rightarrow> bool" where
  "enough_counters b e \<longleftrightarrow> (\<forall>t. PERF_EVENTS_COUNT b \<le> unat (ucast (drop_bit 8 (val0 (e t (Cpuid 0xa))) AND 0xff) :: u8))"

lemma ends_init_perf_counters:
  fixes s :: "'z loop_state_scheme"
  assumes "booting b e s" and "length infos = PERF_EVENTS_COUNT b"
  shows "ends (init_perf_counters b e (Some infos) s)
    (\<lambda>st s'. counting b e s' \<and> (enough_counters b e \<longrightarrow> st = EFI_SUCCESS)) (\<lambda>_. False) (\<lambda>_. h)"
proof -
  let ?s = "s\<lparr>perf_counters := Some infos\<rparr>"
  have "counting b e ?s" using assms by (simp add: stage_defs)
  then have "ends (start_counters b e ?s) (\<lambda>_. counting b e) (\<lambda>_. False) (\<lambda>_. h)"
    by (rule steadyD [OF steady_start_counters]) simp_all
  moreover have "st = EFI_SUCCESS" if "start_counters b e ?s = Done st s'" "enough_counters b e" for st s'
    using that by (auto simp: start_counters_def enough_counters_def Let_def run_simps bind_Done
        not_less [symmetric] split: if_splits)
  moreover have "init_perf_counters b e (Some infos) s = start_counters b e ?s"
    by (simp add: init_perf_counters_def run_simps)
  ultimately show ?thesis by (cases "start_counters b e ?s") auto
qed

lemma ends_open_save_file:
  fixes s :: "'z loop_state_scheme"
  assumes "counting b e s" and "\<not> no_save b"
    and "valid_pointers e" and "opens_file e" and "refuses_size_query e"
  shows "ends (open_save_file b e i s) (\<lambda>st s'. counting b e s' \<and> (st = EFI_SUCCESS \<longrightarrow> saving b e s') \<and>
      (finds_volume e \<and> empties_file e \<longrightarrow> st = EFI_SUCCESS)) (\<lambda>_. False) (\<lambda>_. h)"
proof -
  obtain st f t where 1: "open_save_file b e i s = Done st (s\<lparr>trace := trace s @ t, output_file := f\<rparr>)"
    "\<forall>c\<in>fst ` set t. quiet c" "st = EFI_SUCCESS \<longrightarrow> f \<noteq> 0" "finds_volume e \<and> empties_file e \<longrightarrow> st = EFI_SUCCESS"
    using open_save_file_outcome [OF assms(3-5), of b i s] assms(2) by auto
  have k: "keeps (honest e) (open_save_file b e i :: (u64, 'z loop_state_scheme) prog)"
    unfolding open_save_file_def open_device_def open_root_def open_output_def empty_output_def reset_size_def
      give_up_def deref_def Let_def
    by (intro keeps_intros; (simp | (auto intro!: keeps_intros split: sum.split)))
  have "honest e (s\<lparr>trace := trace s @ t, output_file := f\<rparr>)"
    using keepsD [OF k, of s] 1(1) assms(1) by (simp add: counting_def booting_def)
  then have "counting b e (s\<lparr>trace := trace s @ t, output_file := f\<rparr>)"
    using assms(1) written_quiet [OF 1(2)] by (simp add: stage_defs)
  then show ?thesis using 1 by (simp add: saving_def)
qed

text \<open>A CPU of the table, at any stepping.\<close>

definition skylake_cpu :: "env \<Rightarrow> bool" where
  "skylake_cpu e \<longleftrightarrow> (\<exists>model\<in>{0x4e, 0x5e, 0x8e, 0x9e, 0xa5, 0xa6}. \<exists>stepping<16.
     cpuid_shows e GenuineIntel 6 model stepping)"

lemma ends_get_uarch:
  fixes s :: "'z loop_state_scheme"
  assumes "booting b e s"
  shows "ends (get_uarch_config_for_cpu b e s) (\<lambda>u s'. booting b e s' \<and>
      (\<forall>c. u = Some c \<longrightarrow> length (uarch_perf_counters c) = PERF_EVENTS_COUNT b) \<and>
      (skylake_cpu e \<longrightarrow> u \<noteq> None)) (\<lambda>_. False) (\<lambda>_. h)"
proof -
  have "steady h (booting b e) (get_uarch_config_for_cpu b e :: (uarch_config option, 'z loop_state_scheme) prog)"
    unfolding get_uarch_config_for_cpu_def get_uarch_config_for_intel_cpu_def Let_def
    by (intro steady_andthen booting.ext booting.calls steady_if)
       (auto intro!: steady_intros booting.ext booting.calls split: option.split)
  then have "ends (get_uarch_config_for_cpu b e s) (\<lambda>_. booting b e) (\<lambda>_. False) (\<lambda>_. h)"
    using assms by (simp add: steady_def)
  moreover have "c \<in> set (intel_uarch_configs b)" if "get_uarch_config_for_cpu b e s = Done (Some c) s'" for c s'
    using that find_uarch_mem
    by (auto simp: get_uarch_config_for_cpu_def get_uarch_config_for_intel_cpu_def run_simps Let_def
        split: if_splits option.splits)
  moreover have "u \<noteq> None" if "get_uarch_config_for_cpu b e s = Done u s'" "skylake_cpu e" for u s'
  proof -
    obtain m st where "m \<in> {0x4e, 0x5e, 0x8e, 0x9e, 0xa5, 0xa6}" "st < 16" "cpuid_shows e GenuineIntel 6 m st"
      using \<open>skylake_cpu e\<close> unfolding skylake_cpu_def by blast
    moreover from this(1) have "m < 256" by auto
    ultimately show ?thesis using get_uarch_config_outcome [of e GenuineIntel 6 m st b s] that(1) by auto
  qed
  ultimately show ?thesis using events_count by (cases "get_uarch_config_for_cpu b e s") auto
qed

section \<open>Properties\<close>

text \<open>The console: the firmware knows the text modes below \<open>N\<close>, but for mode 1 perhaps.\<close>

definition knows_modes :: "env \<Rightarrow> (u64 \<Rightarrow> (u64 \<times> u64) option) \<Rightarrow> nat \<Rightarrow> bool" where
  "knows_modes e q N \<longleftrightarrow> answers_modes e q \<and> q (of_nat N) = None \<and> N \<noteq> 1 \<and> N < 2 ^ 64 \<and>
     (\<forall>i<N. i \<noteq> 1 \<longrightarrow> q (of_nat i) \<noteq> None)"

lemma ends_print_init:
  fixes s :: "'z loop_state_scheme"
  assumes "knows_modes e q N" and "N < fuel" and "booting b e s"
  shows "ends (print_init fuel e s) (\<lambda>r s'. r \<noteq> None \<and> booting b e s') (\<lambda>_. False) (\<lambda>_. h)"
proof -
  have k: "answers_modes e q" "q (of_nat N) = None" "N \<noteq> 1" "N < 2 ^ 64"
    "\<And>i. i < N \<Longrightarrow> i \<noteq> 1 \<Longrightarrow> q (of_nat i) \<noteq> None"
    using assms(1) unfolding knows_modes_def by blast+
  obtain w s1 where "query_modes fuel e 0 0 0 s = Done (Some w) s1"
    using query_modes_best [OF k, of 0 fuel 0 0 s] assms(2) by auto
  then have "\<exists>s'. print_init fuel e s = Done (Some ()) s'"
    by (simp add: print_init_def run_simps)
  moreover have "ends (print_init fuel e s) (\<lambda>_. booting b e) (\<lambda>_. False) (\<lambda>_. h)"
    using steadyD [OF booting.initialised assms(3)] by simp
  ultimately show ?thesis by auto
qed

lemma ends_allocate_pages:
  fixes s :: "'z boot_state_scheme"
  assumes "counting b e s"
  shows "ends (allocate_pages e s) (\<lambda>r s'. counting b e s' \<and> (\<forall>st. r = Some st \<longrightarrow> st \<noteq> EFI_SUCCESS) \<and>
    (grants_memory e \<longrightarrow> r = None)) (\<lambda>_. False) (\<lambda>_. h)"
proof -
  have "ends (allocate_pages e s) (\<lambda>_. counting b e) (\<lambda>_. False) (\<lambda>_. h)"
    using steady_allocate_pages [of h b e] assms unfolding steady_def by blast
  moreover have "(\<forall>st. r = Some st \<longrightarrow> st \<noteq> EFI_SUCCESS) \<and> (grants_memory e \<longrightarrow> r = None)"
    if "allocate_pages e s = Done r s'" for r s'
    using that by (auto simp: allocate_pages_def run_simps Let_def set_tss_rsp0_def grants_memory_def
        split: if_splits)
  ultimately show ?thesis by (cases "allocate_pages e s") auto
qed

lemma steady_disasm_init: "steady h (booting b e) (disasm_init e chip)"
  unfolding disasm_init_def
  by (intro steady_intros booting.ext steady_modify) (simp_all add: stage_defs)

text \<open>A machine on which nothing goes wrong.\<close>

definition machine_ready :: "build \<Rightarrow> env \<Rightarrow> bool" where
  "machine_ready b e \<longleftrightarrow> skylake_cpu e \<and> enough_counters b e \<and> grants_memory e \<and> finds_volume e \<and> empties_file e"

lemma ends_prepare_cpu:
  fixes s :: "'z boot_state_scheme"
  assumes "counting b e s" and "\<not> no_save b"
    and "valid_pointers e" and "opens_file e" and "refuses_size_query e" and "h \<or> machine_ready b e"
  shows "ends (prepare_cpu b img e i s :: ('a, 'z boot_state_scheme) run) (\<lambda>_ _. False) (session b e) (\<lambda>_. h)"
proof -
  have m: "h \<or> grants_memory e" using assms(6) by (auto simp: machine_ready_def)
  have failed: "ends (andthen (printf e fmt args) (\<lambda>_. halt e) s :: ('a, 'z boot_state_scheme) run) (\<lambda>_ _. False)
      (session b e) (\<lambda>_. h)" if h "accepts fmt args" for fmt args and s :: "'z boot_state_scheme"
    using that by (simp add: halt_def run_simps)
  have c: "steady h (counting b e) (read_cr4 e :: (u64, 'z boot_state_scheme) prog)"
    "\<And>v. steady h (counting b e) (write_cr4 e v :: (unit, 'z boot_state_scheme) prog)"
    unfolding cr_defs by (auto intro!: steady_intros counting.ext)
  show ?thesis unfolding prepare_cpu_def
    by (rule ends_steady [OF c(1) assms(1)], rule ends_steady [OF counting.machine_checks],
        assumption, rule ends_steady [OF c(2)], assumption, rule ends_steady [OF steady_setup_xsave [OF m]],
        assumption, rule ends_seq [OF ends_open_save_file [OF _ assms(2-5)]], assumption)
      (use assms(6) in \<open>auto simp: machine_ready_def intro: failed ends_start_running [OF assms(2) _ m]\<close>)
qed

text \<open>Either way \<open>efi_main\<close> ends, as a ready machine ends only in user mode.\<close>

lemma efi_main_outcome:
  assumes "\<not> no_save b" and "valid_pointers e" and "opens_file e" and "refuses_size_query e"
    and "knows_modes e q N" and "N < fuel" and h: "h \<or> machine_ready b e"
  shows "ends (efi_main fuel b img e i (initial_state b))
    (\<lambda>r s. h \<and> (\<exists>st. r = Some st \<and> st \<noteq> EFI_SUCCESS)) (session b e) (\<lambda>_. h)"
proof -
  let ?D = "\<lambda>r (s :: boot_state). h \<and> (\<exists>st. r = Some st \<and> st \<noteq> EFI_SUCCESS)"
  have unsupported: "EFI_UNSUPPORTED \<noteq> EFI_SUCCESS" by (simp add: EFI_UNSUPPORTED_def EFI_SUCCESS_def)
  have run: "ends (prepare_cpu b img e i s) ?D (session b e) (\<lambda>_. h)" if "counting b e s" for s :: boot_state
    by (rule ends_mono [OF ends_prepare_cpu [OF that assms(1-4) h]]) simp_all
  have counted: "ends (andthen (dump_bruteforce_config b e) (\<lambda>_. andthen (allocate_pages e) (\<lambda>failed.
      case failed of Some st \<Rightarrow> return (Some st) | None \<Rightarrow> prepare_cpu b img e i)) s) ?D (session b e) (\<lambda>_. h)"
    if "counting b e s" for s :: boot_state
  proof (rule ends_steady [OF steady_dump_config that], rule ends_seq [OF ends_allocate_pages], assumption,
      elim conjE, goal_cases)
    case (1 u s r s')
    then show ?case using h run [of s'] by (cases r) (auto simp: machine_ready_def run_simps)
  qed
  show ?thesis unfolding efi_main_def
  proof (rule ends_seq, rule ends_print_init [OF assms(5,6) booting_initial],
      elim conjE, simp only: if_False, rule ends_seq, rule ends_get_uarch, assumption, elim conjE, goal_cases)
    case (1 r s u s1)
    show ?case
    proof (cases u)
      case None
      then show ?thesis using 1 h by (auto simp: run_simps unsupported machine_ready_def)
    next
      case (Some c)
      have l: "length (uarch_perf_counters c) = PERF_EVENTS_COUNT b" using 1 Some by blast
      show ?thesis using Some 1(3) h
        by (simp, intro ends_steady [OF steady_disasm_init 1(3)] ends_seq [OF ends_init_perf_counters [OF _ l]])
           (auto simp: counted [unfolded andthen_apply [of "dump_bruteforce_config b e"]] run_simps machine_ready_def)
    qed
  qed
qed

text \<open>C5: when the file can be opened, \<open>efi_main\<close> never runs into undefined behaviour. It returns an error
  status, stops, or gives the CPU to \<open>ud2\<close> in a state in which a session begins: the counters are
  chosen, the file is open and empty, and the search is at its start. It never returns success. On a
  machine that is ready - a CPU of the table with enough counters, and a firmware that gives memory,
  finds the volume and empties the file - it always gets to the session.\<close>

theorem efi_main_starts_session:
  assumes "\<not> no_save b" and "valid_pointers e" and "opens_file e" and "refuses_size_query e"
    and "knows_modes e q N" and "N < fuel"
  shows "ends (efi_main fuel b img e i (initial_state b))
    (\<lambda>r s. \<not> machine_ready b e \<and> (\<exists>st. r = Some st \<and> st \<noteq> EFI_SUCCESS)) (session b e)
    (\<lambda>_. \<not> machine_ready b e)"
  by (rule efi_main_outcome [OF assms]) simp

text \<open>The page at \<open>rw\<close> and the next one are different pages.\<close>

lemma next_page: "\<not> same_page k (v + 0x1000) v"
proof
  assume "same_page k (v + 0x1000) v"
  then have "index 0 (v + 0x1000) = index 0 v" by (simp add: same_page_def)
  then have "bit (drop_bit 12 (v + 0x1000) AND 0x1ff) 0 = bit (drop_bit 12 v AND 0x1ff) 0"
    by (simp add: index_def span_def word_unat_eq_iff [symmetric])
  then have "bit (v + 0x1000) 12 = bit v 12" by (simp add: bit_simps)
  moreover have "bit (v + 0x1000) 12 \<longleftrightarrow> \<not> bit v 12"
  proof -
    have odd': "bit (of_nat n :: u64) 12 \<longleftrightarrow> odd (n div 4096)" for n
      by (simp only: bit_of_nat_iff possible_bit_word) (simp add: bit_iff_odd)
    have "(unat v + 4096) div 4096 = unat v div 4096 + 1" by simp
    then show ?thesis using odd' [of "unat v + 4096"] odd' [of "unat v"] by simp
  qed
  ultimately show False by simp
qed

text \<open>C14: the page that holds the instruction is mapped twice. If the page tables form a tree,
  \<open>map_user_page\<close> stops, or returns with the page at \<open>user_code_page_rw\<close> and the page after it, at
  \<open>user_code_page_for_exec\<close>, both translated to the same physical page, so that what is written through
  the one is executed through the other; the entry of the second lets user mode execute and not write
  it; and every other address is translated as before.\<close>

theorem user_page_mapped_twice:
  fixes s :: "'z boot_state_scheme"
  assumes "keeps_tables e m T" and "gives_fresh e T" and "paging_root e root K"
    and "tree (mem m s) K root" and "tables (mem m s) K root \<subseteq> T \<union> granted (trace s)"
    and "user_code_page_rw s = rw" and "aligned rw" and "target rw = rw"
  shows "ends (map_user_page b e s)
    (\<lambda>_ s'. user_code_page_rw s' = rw \<and> user_code_page_for_exec s' = rw + 0x1000 \<and>
      (\<forall>w. translate (mem m s') K root w =
         (if same_page K rw w \<or> same_page K (rw + 0x1000) w then Some (rw OR (w AND 0xfff))
          else translate (mem m s) K root w)) \<and>
      last (walk (mem m s') K root (rw + 0x1000)) = rw OR PAGE_PRESENT OR PAGE_USER)
    (\<lambda>_. False) (\<lambda>_. True)"
proof -
  have rights: "page_rights (PROT_READ OR PROT_EXEC OR PROT_USER) = PAGE_PRESENT OR PAGE_USER"
    by (simp add: page_rights_def PROT_READ_def PROT_WRITE_def PROT_EXEC_def PROT_USER_def)
  define s1 where "s1 = final (printf e (''User code page @ 0x%lx, remapping as user-accessible'' @ crlf) [VInt rw] s)"
  have s1: "printf e (''User code page @ 0x%lx, remapping as user-accessible'' @ crlf) [VInt rw] s = Done () s1"
    "mem m s1 = mem m s" "granted (trace s1) = granted (trace s)" "moves s s1"
    by (simp_all add: s1_def run_simps mem_emit store_def granted_single)
  obtain st s2 where 2: "remap_page b e rw rw (PROT_READ OR PROT_WRITE) s1 = Done st s2" "moves s1 s2"
    "st = EFI_SUCCESS \<longrightarrow>
      (\<forall>w. translate (mem m s2) K root w =
         (if same_page K rw w then Some (rw OR (w AND 0xfff)) else translate (mem m s1) K root w)) \<and>
      tree (mem m s2) K root \<and> tables (mem m s2) K root \<subseteq> T \<union> granted (trace s2)"
    using remap_page_effect [of e m T root K s1 rw b rw "PROT_READ OR PROT_WRITE"] assms s1 by auto
  show ?thesis
  proof (cases "st = EFI_SUCCESS")
    case False
    then show ?thesis using assms(6) s1(1) 2(1)
      by (simp add: map_user_page_def run_simps halt_def)
  next
    case True
    define s3 where "s3 = s2\<lparr>user_code_page_for_exec := user_code_page_rw s2 + 0x1000\<rparr>"
    have rw: "user_code_page_rw s3 = rw" "user_code_page_for_exec s3 = rw + 0x1000"
      using assms(6) s1(4) 2(2) by (auto simp: s3_def moves_def)
    have m3: "mem m s3 = mem m s2" "trace s3 = trace s2" by (simp_all add: s3_def mem_def)
    obtain st' s4 where 4: "remap_page b e (rw + 0x1000) rw (PROT_READ OR PROT_EXEC OR PROT_USER) s3 = Done st' s4"
      "moves s3 s4" "st' = EFI_SUCCESS \<longrightarrow>
        (\<forall>w. translate (mem m s4) K root w =
           (if same_page K (rw + 0x1000) w then Some (rw OR (w AND 0xfff)) else translate (mem m s3) K root w)) \<and>
        (\<exists>es. walk (mem m s4) K root (rw + 0x1000) = es @ [rw OR PAGE_PRESENT OR PAGE_USER])"
      using remap_page_effect [of e m T root K s3 rw b "rw + 0x1000" "PROT_READ OR PROT_EXEC OR PROT_USER"]
        assms(1-3,7,8) 2(3) True m3 rights by auto
    have run: "map_user_page b e s = bind (Done st' s4) (\<lambda>st. only_if (st \<noteq> EFI_SUCCESS)
        (andthen (printf e (''Could not remap the exec-only version of the user code page, status = 0x%lx'' @ crlf)
           [VInt st]) (\<lambda>_. halt e)))"
      using assms(6) s1(1) 2(1) True 4(1) rw by (simp add: map_user_page_def run_simps s3_def [symmetric])
    have kept: "user_code_page_rw s4 = rw" "user_code_page_for_exec s4 = rw + 0x1000"
      using rw 4(2) by (auto simp: moves_def)
    show ?thesis
    proof (cases "st' = EFI_SUCCESS")
      case True
      then show ?thesis using run 4(3) 2(3) \<open>st = EFI_SUCCESS\<close> kept m3 s1(2) by (auto simp: run_simps)
    next
      case False
      then show ?thesis using run by (simp add: run_simps halt_def)
    qed
  qed
qed

section \<open>Instances\<close>

text \<open>A Skylake machine with four counters, whose firmware opens the file and has four text modes.\<close>

definition sample_firmware :: env where
  "sample_firmware h c =
     \<lparr>status = (case c of
          GetInfoSize f \<Rightarrow> EFI_BUFFER_TOO_SMALL
        | QueryMode m \<Rightarrow> if sample_modes m = None then EFI_UNSUPPORTED else EFI_SUCCESS
        | _ \<Rightarrow> EFI_SUCCESS),
      val0 = (case c of
          QueryMode m \<Rightarrow> fst (the (sample_modes m))
        | Cpuid n \<Rightarrow> if n = 1 then ucast (of_nat (cpu_signature 6 0x5e 3) :: u32) else 0x400
        | _ \<Rightarrow> 16),
      val1 = (case c of QueryMode m \<Rightarrow> snd (the (sample_modes m)) | _ \<Rightarrow> 0x756e6547),
      val2 = 0x6c65746e, val3 = 0x49656e69\<rparr>"

lemma sample_firmware_ok:
  "valid_pointers sample_firmware" "opens_file sample_firmware" "refuses_size_query sample_firmware"
  "knows_modes sample_firmware sample_modes 4" "machine_ready (makefile_build Mode64) sample_firmware"
  "\<not> no_save (makefile_build Mode64)"
proof -
  have "gives_pointer c \<Longrightarrow> val0 (sample_firmware h c) = 16" for h c
    by (cases c) (simp_all add: sample_firmware_def)
  then show "valid_pointers sample_firmware" by (simp add: valid_pointers_def)
  show "opens_file sample_firmware" "refuses_size_query sample_firmware"
    by (simp_all add: opens_file_def refuses_size_query_def sample_firmware_def EFI_SUCCESS_def
        EFI_BUFFER_TOO_SMALL_def)
  have "answers_modes sample_firmware sample_modes"
    by (auto simp: answers_modes_def sample_firmware_def EFI_SUCCESS_def EFI_UNSUPPORTED_def split: option.splits)
  moreover have "sample_modes (of_nat i) \<noteq> None" if "i < 4" "i \<noteq> 1" for i
  proof -
    have "i = 0 \<or> i = 2 \<or> i = 3" using that by arith
    then show ?thesis by (auto simp: sample_modes_def)
  qed
  ultimately show "knows_modes sample_firmware sample_modes 4"
    by (simp add: knows_modes_def) (simp add: sample_modes_def)
  have "cpuid_shows sample_firmware GenuineIntel 6 0x5e 3"
    by (simp add: cpuid_shows_def sample_firmware_def GenuineIntel_def)
  then have "skylake_cpu sample_firmware" unfolding skylake_cpu_def by (intro bexI exI conjI) auto
  then show "machine_ready (makefile_build Mode64) sample_firmware"
    by (simp add: machine_ready_def enough_counters_def grants_memory_def finds_volume_def empties_file_def
        sample_firmware_def PERF_EVENTS_COUNT_def makefile_build_def)
  show "\<not> no_save (makefile_build Mode64)" by (simp add: makefile_build_def)
qed

theorem efi_main_starts_session_witness:
  "\<exists>s. efi_main 5 (makefile_build Mode64) sample_image sample_firmware 7
      (initial_state (makefile_build Mode64)) = User s \<and>
    session (makefile_build Mode64) sample_firmware s"
proof -
  let ?r = "efi_main 5 (makefile_build Mode64) sample_image sample_firmware 7
      (initial_state (makefile_build Mode64))"
  have "ends ?r (\<lambda>_ _. False) (session (makefile_build Mode64) sample_firmware) (\<lambda>_. False)"
    by (rule ends_mono [OF efi_main_starts_session [OF sample_firmware_ok(6,1-4)]])
       (simp_all add: sample_firmware_ok(5))
  then show ?thesis by (cases ?r) simp_all
qed

theorem user_page_mapped_twice_witness:
  "ends (map_user_page (makefile_build Mode64) (sample_mmu (sample_tables 0x2003))
      ((initial_state (makefile_build Mode64))\<lparr>user_code_page_rw := 0x9000\<rparr>))
    (\<lambda>_ s'. translate (mem (sample_tables 0x2003) s') 3 0x1000 0x9ffe = Some 0x9ffe \<and>
       translate (mem (sample_tables 0x2003) s') 3 0x1000 0xaffe = Some 0x9ffe)
    (\<lambda>_. False) (\<lambda>_. True)"
proof -
  let ?m = "sample_tables 0x2003"
  let ?s = "(initial_state (makefile_build Mode64))\<lparr>user_code_page_rw := 0x9000\<rparr>"
  note t = sample_tree [OF sample_entry]
  have m: "mem ?m ?s = ?m" "granted (trace ?s) = {}" by (simp_all add: mem_def granted_def initial_state_def)
  have start: "tree (mem ?m ?s) 3 0x1000" "tables (mem ?m ?s) 3 0x1000 \<subseteq> {0x1000, 0x2000} \<union> granted (trace ?s)"
    unfolding m t(2) using t(1) by simp_all
  have p: "aligned 0x9000" "target 0x9000 = 0x9000" by (simp_all add: aligned_def target_def)
  have same: "same_page 3 0x9000 0x9ffe" "same_page 3 0xa000 0xaffe"
    unfolding same_page_3 by (simp_all add: index_def span_def)
  have rw: "user_code_page_rw ?s = 0x9000" by simp
  show ?thesis
    by (rule ends_mono [OF user_page_mapped_twice [OF sample_mmu_ok start rw p]]) (auto simp: same)
qed

end
