(* ===== verification/Spec2Isabelle.thy ===== *)
theory Spec2Isabelle
  imports Text_Output Exception_Context Save_Format Search_Run Session Runtime System_Tables Save_Open
    Paging Remap Remap_Page Startup
begin

text \<open>
  Verification of the PMC bruteforcer, a UEFI program that looks for hidden x86 instructions: it runs
  every byte string that can be an instruction in user mode and tells undefined from undocumented
  instructions by the CPU's performance counters.

  \<^bold>\<open>The program.\<close> \<open>efi_main\<close> (\<open>src/main.c\<close>) chooses the configuration of the CPU
  (\<open>uarch_config.c\<close>), starts the counters, opens the save file (\<open>save_file.c\<close>), maps the page that
  holds the instruction under test a second time for user mode (\<open>remap.c\<close>), installs its own segments
  and interrupt gates (\<open>system_tables_setup.c\<close>) and runs \<open>ud2\<close>. From then on all C code runs inside
  exception handlers: the stubs of \<open>exception_handlers.S\<close> call \<open>handle_exception\<close>
  (\<open>instruction_execution_loop.c\<close>), which first measures \<open>ud2\<close> and \<open>nop\<close>, then judges the instruction
  that ran, asks Intel XED (\<open>disasm.c\<close>) what it should have been, saves what is interesting, chooses
  the next instruction and leaves for user mode again (\<open>enter_user.S\<close>). Output goes through \<open>print.c\<close>.

  \<^bold>\<open>The model.\<close> One theory per part, in the order of the imports.

  \<^item> \<open>Prelude\<close>: the C integer types as words, the build configuration of the Makefile, shared lemmas.
  \<^item> \<open>Env\<close>: whatever is not C code of the program - firmware, inline assembly, XED - is a \<open>call\<close> that
    the environment \<open>e\<close>, a parameter, answers from the history of all calls. A function is a program on
    its part of the state that returns, leaves for user mode, halts or is undefined (\<open>run\<close>).
  \<^item> \<open>Text_Output\<close> (\<open>print.c\<close>: every \<open>printf\<close> of the program runs \<open>vsnprintf\<close> on its format and
    arguments, and is undefined if they do not fit), \<open>Runtime\<close> (\<open>string.c\<close>, \<open>halt.c\<close>, \<open>stdlib.c\<close>, \<open>stack_protector.c\<close>),
    \<open>Cpu\<close> (\<open>msr.h\<close>, \<open>control_registers.h\<close>), \<open>Uarch_Config\<close>, \<open>Disasm\<close>.
  \<^item> \<open>Exception_Context\<close> (\<open>exception_context.h\<close>, \<open>exception_handlers.S\<close>): how the CPU's push becomes the
    context of the handler.
  \<^item> \<open>Save_File\<close>, \<open>Save_Open\<close> (\<open>save_file.c\<close>) and \<open>Save_Format\<close>, which decodes the file.
  \<^item> \<open>Prefix_Filter\<close>, \<open>Search\<close>: the two pure cores of \<open>check_last_instruction\<close>, the filter of prefix
    combinations and the choice of the next instruction; \<open>Search_Run\<close> follows whole searches.
  \<^item> \<open>Exec_Loop\<close>: the rest of \<open>instruction_execution_loop.c\<close>, the records of its static variables and
    every function as it is written.
  \<^item> \<open>System_Tables\<close> (\<open>system_tables_setup.c\<close>, \<open>load_segments.S\<close>).
  \<^item> \<open>Paging\<close>: page tables as the CPU reads them, in a memory of quadwords; \<open>Remap\<close> (\<open>remap.c\<close>): the function
    that writes them, and the memory that the history of calls describes; \<open>Remap_Page\<close>: its results.
  \<^item> \<open>Startup\<close> (\<open>main.c\<close>): \<open>efi_main\<close>, block by block.

  The state is one extensible record that each component extends by its variables: \<open>world\<close> (the
  history), \<open>save_world\<close>, \<open>disasm_world\<close>, \<open>loop_state\<close>, \<open>boot_state\<close>.

  \<^bold>\<open>The properties.\<close> \<open>Loop_Facts\<close>, \<open>Dialogue\<close>, \<open>Measurement\<close> and \<open>Handler\<close> describe what one call of the
  handler does, phase by phase; \<open>Machine\<close> composes the calls to a session - any sequence of exceptions
  the CPU may raise - and proves its invariant; \<open>Session_Log\<close> follows a session with the list of its
  judgements and proves that the file is a header and the records of their verdicts; \<open>Session\<close> states
  the results: the program never runs into undefined behaviour; the search is the abstract search of
  \<open>Search\<close>, so that every instruction it skips is covered by one it ran; it ends; the file decodes to the
  reference values and exactly one record per saved instruction, as many as the program has counted;
  hidden instructions are saved and documented ones are not, and what should never happen is not passed
  over. A session is one of a build that saves: without a file (\<open>NO_SAVE\<close>) the program uses a NULL
  pointer when \<open>ud2\<close> has been measured (\<open>no_save_crashes\<close>). \<open>Startup\<close> joins the
  other end: from the initial values of the variables, \<open>efi_main\<close> leads into a session or stops, and on
  a machine that refuses nothing it does lead into one; and the page written and the page run are shown
  to be the same memory. The other theories hold the properties of their component beside its
  definitions. What the code does although it should not is stated as it is: the read past the prefixes
  in \<open>count_prefixes\<close> and the error code that is never written (\<open>save_file.c\<close>), the failure to open
  the file (\<open>Save_Open\<close>), the comparison of equal blocks and the overflow of \<open>strcat_s\<close> (\<open>Runtime\<close>), CR0
  and the NX flag (\<open>Remap_Page\<close>).

  \<^bold>\<open>What is assumed.\<close> Hypotheses on the environment are definitions with a name: UEFI never reports success
  with a NULL pointer (\<open>valid_pointers\<close>), the file can be opened (\<open>opens_file\<close>), a size query without a
  buffer is refused (\<open>refuses_size_query\<close>), the console knows finitely many modes (\<open>knows_modes\<close>); for
  page tables, that reading a table gives what was written last (\<open>keeps_tables\<close>), that the pages given
  out are not in use (\<open>gives_fresh\<close>), and where the tables begin (\<open>paging_root\<close>). Each has an instance in
  the theory that uses it.

  Three things of the outside are simplified: a write the firmware refuses has written nothing; reading
  the bytes at the address of a kernel exception, for its report, does not fault; and the 22 stubs of
  \<open>exception_handlers.S\<close> are one definition with the vector as its argument.

  \<^bold>\<open>Bounds.\<close> All loops are structural recursions or have a measure. The one loop without a bound in the
  code, the search through the text modes in \<open>print_init\<close>, has fuel: one more than the number of modes is
  enough, and \<open>efi_main\<close> passes it on. Machine integers are words of their width; the counts of
  statistics wrap as in C.

  \<^bold>\<open>Not modelled.\<close> The initialisers that only keep a pointer to the firmware's table (\<open>string_init\<close>,
  \<open>remap_init\<close>); the accessors of control registers nobody calls; the fields of the task state segment
  nobody writes; that \<open>remap_page\<close> changes tables that are in use (the TLB); the registers that
  \<open>SAVE_REGS_ON_EXCEPTION\<close> adds to the context, which no C code reads; and Intel XED, a git
  submodule, whose answers are the environment's.
\<close>

end
